(* ===== verification/Prelude.thy ===== *)
theory Prelude
  imports Main "HOL-Library.AList" "HOL-Library.Multiset"
begin

text \<open>
  The vocabulary shared by every component: the Python exceptions the code can raise,
  results that are either an exception or a value, and the handful of list and tensor
  operations (slices, strides, in-place slice assignment, \<open>torch.unique\<close>) that the
  modelled code uses. A tensor of integers is an \<open>int list\<close>; a dictionary whose
  iteration order matters is an association list updated as Python updates a dict.
\<close>

section \<open>Exceptions and results\<close>

datatype py_error =
    AssertionError
  | IndexError
  | KeyError
  | ValueError
  | TypeError
  | AttributeError
  | RuntimeError
  | NotImplementedError
  | ZeroDivisionError
  | Diverges \<comment> \<open>the loop does not return within its bound\<close>

type_synonym 'a result = "py_error + 'a"

definition rbind :: "'a result \<Rightarrow> ('a \<Rightarrow> 'b result) \<Rightarrow> 'b result" where
  "rbind m f = (case m of Inl e \<Rightarrow> Inl e | Inr x \<Rightarrow> f x)"

definition assert_that :: "bool \<Rightarrow> unit result" where
  "assert_that b = (if b then Inr () else Inl AssertionError)"

definition of_option :: "py_error \<Rightarrow> 'a option \<Rightarrow> 'a result" where
  "of_option e x = (case x of None \<Rightarrow> Inl e | Some y \<Rightarrow> Inr y)"

definition is_ok :: "'a result \<Rightarrow> bool" where
  "is_ok m = (case m of Inl _ \<Rightarrow> False | Inr _ \<Rightarrow> True)"

section \<open>Lists and tensors\<close>

text \<open>\<open>xs[i]\<close> with a non-negative index.\<close>

definition py_nth :: "'a list \<Rightarrow> nat \<Rightarrow> 'a result" where
  "py_nth xs i = (if i < length xs then Inr (xs ! i) else Inl IndexError)"

text \<open>\<open>xs[a:b]\<close> with non-negative bounds; Python clamps both to the length.\<close>

definition py_slice :: "'a list \<Rightarrow> nat \<Rightarrow> nat \<Rightarrow> 'a list" where
  "py_slice xs a b = take (b - a) (drop a xs)"

text \<open>\<open>xs[::k]\<close> for a positive step.\<close>

function stride :: "nat \<Rightarrow> 'a list \<Rightarrow> 'a list" where
  "stride k xs = (if k = 0 \<or> xs = [] then [] else hd xs # stride k (drop k xs))"
  by pat_completeness auto
termination
  by (relation "measure (\<lambda>(k, xs). length xs)") auto

text \<open>Overwriting a stretch of a buffer in place.\<close>

definition blit :: "'a list \<Rightarrow> nat \<Rightarrow> 'a list \<Rightarrow> 'a list" where
  "blit xs i ys = take i xs @ ys @ drop (i + length ys) xs"

text \<open>
  \<open>out[a:b] = vals\<close> on a tensor: the lengths must agree, except that a single value is
  broadcast over the slice.
\<close>

definition slice_assign :: "'a list \<Rightarrow> nat \<Rightarrow> nat \<Rightarrow> 'a list \<Rightarrow> 'a list result" where
  "slice_assign out a b vals =
     (let w = min b (length out) - a
      in if length vals = w then Inr (blit out a vals)
         else if length vals = 1 then Inr (blit out a (replicate w (hd vals)))
         else Inl RuntimeError)"

text \<open>\<open>torch.unique\<close>: the distinct elements in ascending order.\<close>

definition torch_unique :: "int list \<Rightarrow> int list" where
  "torch_unique xs = sort (remdups xs)"

text \<open>\<open>torch.arange(a, b)\<close>.\<close>

definition torch_arange :: "nat \<Rightarrow> nat \<Rightarrow> int list" where
  "torch_arange a b = map int [a..<b]"

text \<open>\<open>torch.cumsum\<close>.\<close>

fun cumsum_from :: "int \<Rightarrow> int list \<Rightarrow> int list" where
  "cumsum_from acc [] = []"
| "cumsum_from acc (x # xs) = (acc + x) # cumsum_from (acc + x) xs"

definition torch_cumsum :: "int list \<Rightarrow> int list" where
  "torch_cumsum xs = cumsum_from 0 xs"

text \<open>Division rounded up, the page count of \<open>m\<close> tokens in pages of \<open>k\<close>.\<close>

definition ceil_div :: "nat \<Rightarrow> nat \<Rightarrow> nat" where
  "ceil_div m k = (m + k - 1) div k"

named_theorems result_simps \<open>rewriting of results and their sequencing\<close>
named_theorems list_simps \<open>slices, strides and buffers\<close>

section \<open>Laws of results\<close>

lemma rbind_simps [simp, result_simps]:
  "rbind (Inl e) f = Inl e"
  "rbind (Inr x) f = f x"
  by (simp_all add: rbind_def)

lemma rbind_eq_Inr [result_simps]:
  "rbind m f = Inr y \<longleftrightarrow> (\<exists>x. m = Inr x \<and> f x = Inr y)"
  by (cases m) auto

lemma rbind_eq_Inl [result_simps]:
  "rbind m f = Inl e \<longleftrightarrow> m = Inl e \<or> (\<exists>x. m = Inr x \<and> f x = Inl e)"
  by (cases m) auto

lemma rbind_assoc: "rbind (rbind m f) g = rbind m (\<lambda>x. rbind (f x) g)"
  by (cases m) auto

lemma rbind_cong [fundef_cong]:
  "m = m' \<Longrightarrow> (\<And>x. m' = Inr x \<Longrightarrow> f x = f' x) \<Longrightarrow> rbind m f = rbind m' f'"
  by (cases m') auto

lemma assert_that_simps [simp, result_simps]:
  "assert_that True = Inr ()"
  "assert_that False = Inl AssertionError"
  "assert_that b = Inr u \<longleftrightarrow> b"
  "assert_that b = Inl e \<longleftrightarrow> \<not> b \<and> e = AssertionError"
  by (auto simp: assert_that_def)

lemma of_option_simps [simp, result_simps]:
  "of_option e None = Inl e"
  "of_option e (Some x) = Inr x"
  "of_option e m = Inr x \<longleftrightarrow> m = Some x"
  by (auto simp: of_option_def split: option.splits)

lemma is_ok_simps [simp, result_simps]: "is_ok (Inr x)" "\<not> is_ok (Inl e)"
  by (simp_all add: is_ok_def)

lemma is_okE: "is_ok m \<Longrightarrow> (\<And>x. m = Inr x \<Longrightarrow> P) \<Longrightarrow> P"
  by (cases m) auto

section \<open>Laws of lists\<close>

declare stride.simps [simp del]

lemma stride_Nil [simp]: "stride k [] = []"
  by (simp add: stride.simps)

lemma stride_unfold: "0 < k \<Longrightarrow> xs \<noteq> [] \<Longrightarrow> stride k xs = hd xs # stride k (drop k xs)"
  by (subst stride.simps) simp

lemma stride_1: "stride (Suc 0) xs = xs"
proof (induction xs)
  case (Cons x xs)
  then show ?case by (simp add: stride_unfold)
qed simp

lemma set_stride_subset: "set (stride k xs) \<subseteq> set xs"
proof (induction k xs rule: stride.induct)
  case (1 k xs)
  then show ?case
    by (subst stride.simps) (auto dest: in_set_dropD)
qed

lemma blit_append [list_simps]:
  "i + length ys \<le> length xs \<Longrightarrow>
   blit (blit xs i ys) (i + length ys) zs = blit xs i (ys @ zs)"
  by (simp add: blit_def ac_simps)

lemma blit_Nil [simp, list_simps]: "blit xs i [] = xs"
  by (simp add: blit_def)

lemma length_blit [simp, list_simps]: "i + length ys \<le> length xs \<Longrightarrow> length (blit xs i ys) = length xs"
  by (simp add: blit_def)

lemma torch_unique_set [simp]: "set (torch_unique xs) = set xs"
  by (simp add: torch_unique_def)

lemma torch_unique_distinct [simp]: "distinct (torch_unique xs)"
  by (simp add: torch_unique_def)

lemma torch_unique_sorted [simp]: "sorted (torch_unique xs)"
  by (simp add: torch_unique_def)

lemma torch_unique_Nil [simp]: "torch_unique xs = [] \<longleftrightarrow> xs = []"
proof -
  have "torch_unique xs = [] \<longleftrightarrow> set (torch_unique xs) = {}"
    by (simp only: set_empty)
  then show ?thesis by simp
qed

lemma torch_unique_of_distinct: "distinct ys \<Longrightarrow> set ys = set xs \<Longrightarrow> sort ys = torch_unique xs"
  by (intro sorted_distinct_set_unique) simp_all

lemma length_torch_arange [simp]: "length (torch_arange a b) = b - a"
  by (simp add: torch_arange_def)

lemma set_torch_arange [simp]: "set (torch_arange a b) = {int a..<int b}"
  using image_int_atLeastLessThan [of a b] by (simp add: torch_arange_def)

lemma distinct_torch_arange [simp]: "distinct (torch_arange a b)"
  by (simp add: torch_arange_def distinct_map inj_on_def)

lemma length_cumsum_from [simp]: "length (cumsum_from acc xs) = length xs"
  by (induction xs arbitrary: acc) auto

lemma cumsum_from_nth: "i < length xs \<Longrightarrow> cumsum_from acc xs ! i = acc + sum_list (take (Suc i) xs)"
proof (induction xs arbitrary: acc i)
  case (Cons x xs)
  then show ?case by (cases i) auto
qed simp

lemma torch_cumsum_nth: "i < length xs \<Longrightarrow> torch_cumsum xs ! i = sum_list (take (Suc i) xs)"
  by (simp add: torch_cumsum_def cumsum_from_nth)

lemma length_torch_cumsum [simp]: "length (torch_cumsum xs) = length xs"
  by (simp add: torch_cumsum_def)

section \<open>Rounded-up division and strides\<close>

lemma less_ceil_div: "0 < k \<Longrightarrow> q < ceil_div m k \<longleftrightarrow> q * k < m"
proof -
  assume k: "0 < k"
  have "q < ceil_div m k \<longleftrightarrow> Suc q * k \<le> m + k - 1"
    unfolding ceil_div_def using k by (simp only: less_eq_div_iff_mult_less_eq flip: Suc_le_eq)
  also have "\<dots> \<longleftrightarrow> q * k < m" using k by auto
  finally show ?thesis .
qed

lemma ceil_div_eqI: "0 < k \<Longrightarrow> (\<And>q. q * k < m \<longleftrightarrow> q < n) \<Longrightarrow> ceil_div m k = n"
  using less_ceil_div [of k _ m] by (metis linorder_neqE_nat less_irrefl)

lemma ceil_div_0 [simp]: "0 < k \<Longrightarrow> ceil_div 0 k = 0"
  by (rule ceil_div_eqI) auto

lemma ceil_div_add_mult: "0 < k \<Longrightarrow> ceil_div (q * k + m) k = (if m = 0 then q else q + ceil_div m k)"
proof (rule ceil_div_eqI)
  fix p assume k: "0 < k"
  show "p * k < q * k + m \<longleftrightarrow> p < (if m = 0 then q else q + ceil_div m k)"
  proof (cases "p < q")
    case True
    then have "p * k < q * k + m" using k by (intro trans_less_add1) simp
    then show ?thesis using True by auto
  next
    case False
    then obtain d where p: "p = q + d" by (metis le_iff_add not_less)
    have "p * k < q * k + m \<longleftrightarrow> d * k < m" by (simp add: p add_mult_distrib)
    then show ?thesis using less_ceil_div [OF k, of d m] by (auto simp: p)
  qed
qed simp

lemma ceil_div_small: "0 < m \<Longrightarrow> m \<le> k \<Longrightarrow> ceil_div m k = 1"
proof (rule ceil_div_eqI)
  fix q assume m: "0 < m" "m \<le> k"
  show "q * k < m \<longleftrightarrow> q < 1"
  proof (cases q)
    case (Suc d)
    then have "k \<le> q * k" by simp
    with m Suc show ?thesis by linarith
  qed (use m in simp)
qed simp

lemma stride_nth:
  "0 < k \<Longrightarrow> stride k xs = map (\<lambda>i. xs ! (i * k)) [0..<ceil_div (length xs) k]"
proof (induction k xs rule: stride.induct)
  case (1 k xs)
  show ?case
  proof (cases "xs = []")
    case True
    then show ?thesis using 1 by simp
  next
    case False
    let ?n = "ceil_div (length (drop k xs)) k"
    have n: "ceil_div (length xs) k = Suc ?n"
    proof (cases "length xs \<le> k")
      case True
      then show ?thesis using False 1 by (simp add: ceil_div_small)
    next
      case False
      then have "length xs = 1 * k + length (drop k xs)" by simp
      then show ?thesis using False 1 ceil_div_add_mult [of k 1 "length (drop k xs)"] by simp
    qed
    have "drop k xs ! (i * k) = xs ! (Suc i * k)" if "i < ?n" for i
    proof -
      from that have "i * k < length (drop k xs)" using 1 by (simp add: less_ceil_div)
      then have "k \<le> length xs" by (cases "k \<le> length xs") auto
      then show ?thesis by (simp add: nth_drop)
    qed
    then have "map (\<lambda>i. drop k xs ! (i * k)) [0..<?n] = map (\<lambda>i. xs ! (Suc i * k)) [0..<?n]"
      by (intro map_cong) simp_all
    also have "\<dots> = map (\<lambda>i. xs ! (i * k)) [1..<Suc ?n]"
      by (simp add: map_Suc_upt [symmetric] del: map_Suc_upt upt_Suc)
    finally have "stride k xs = xs ! (0 * k) # map (\<lambda>i. xs ! (i * k)) [1..<Suc ?n]"
      using False 1 by (simp add: stride_unfold hd_conv_nth)
    also have "\<dots> = map (\<lambda>i. xs ! (i * k)) [0..<Suc ?n]"
      by (simp add: upt_conv_Cons del: upt_Suc)
    finally show ?thesis unfolding n .
  qed
qed

end
