(* ===== verification/PagedKernels.thy ===== *)
theory PagedKernels
  imports Prelude
begin

text \<open>
  The two device kernels of \<open>kernels/ops/memory/allocator.py\<close> that lay out the slots of a
  prefill and of a decode step, the reference routine \<open>alloc_extend_naive\<close> of
  \<open>srt/mem_cache/allocator/paged.py\<close>, and the helpers of \<open>srt/utils/common.py\<close> they use.
  Both routines are shown to compute the same slots, given position by position.
\<close>

section \<open>Device kernels\<close>

text \<open>
  \<open>junk\<close> stands for whatever the device memory holds: what a load past the end of a
  tensor returns and what \<open>torch.empty\<close> leaves in a fresh buffer. \<open>other\<close> is the
  value of the lanes a masked load leaves out. A store outside the buffer does not change it.
  The programs of a launch are run one after the other.
\<close>

definition tl_load :: "(int \<Rightarrow> int) \<Rightarrow> int list \<Rightarrow> int \<Rightarrow> int" where
  "tl_load junk xs i = (if 0 \<le> i \<and> i < int (length xs) then xs ! nat i else junk i)"

definition tl_store :: "int list \<Rightarrow> int \<Rightarrow> int \<Rightarrow> int list" where
  "tl_store out i v = (if 0 \<le> i then out[nat i := v] else out)"

definition tl_store_block ::
  "int list \<Rightarrow> int \<Rightarrow> nat \<Rightarrow> (nat \<Rightarrow> bool) \<Rightarrow> (nat \<Rightarrow> int) \<Rightarrow> int list" where
  "tl_store_block out base lanes msk f =
     fold (\<lambda>j o'. if msk j then tl_store o' (base + int j) (f j) else o') [0..<lanes] out"

definition tl_load_masked ::
  "(int \<Rightarrow> int) \<Rightarrow> int \<Rightarrow> int list \<Rightarrow> nat \<Rightarrow> (nat \<Rightarrow> bool) \<Rightarrow> int list" where
  "tl_load_masked junk other xs lanes msk =
     map (\<lambda>j. if msk j then tl_load junk xs (int j) else other) [0..<lanes]"

definition BLOCK_EXTEND :: nat where
  "BLOCK_EXTEND = 4096"

definition ceil_pages :: "int \<Rightarrow> int \<Rightarrow> int" where
  "ceil_pages ps x = (x + ps - 1) div ps"

definition alloc_extend_program ::
  "(int \<Rightarrow> int) \<Rightarrow> int \<Rightarrow> int list \<Rightarrow> int list \<Rightarrow> int list \<Rightarrow> int list \<Rightarrow> nat \<Rightarrow> nat
    \<Rightarrow> nat \<Rightarrow> int list \<Rightarrow> int list" where
  "alloc_extend_program junk other pre_lens_ptr seq_lens_ptr last_loc_ptr free_page_ptr
      bs_upper page_sz pid out =
     (let ps = int page_sz;
          seq_lens = tl_load_masked junk other seq_lens_ptr bs_upper (\<lambda>j. j \<le> pid);
          pre_lens = tl_load_masked junk other pre_lens_ptr bs_upper (\<lambda>j. j \<le> pid);
          extend_lens = map2 (-) seq_lens pre_lens;
          seq_len = tl_load junk seq_lens_ptr (int pid);
          pre_len = tl_load junk pre_lens_ptr (int pid);
          extend_len = seq_len - pre_len;
          sum_extend_lens = sum_list extend_lens;
          output_start_loc = sum_extend_lens - extend_len;
          num_new_pages = map2 (\<lambda>s p. ceil_pages ps s - ceil_pages ps p) seq_lens pre_lens;
          num_page_start_loc_self = ceil_pages ps seq_len - ceil_pages ps pre_len;
          sum_num_new_pages = sum_list num_new_pages;
          new_page_start_loc = sum_num_new_pages - num_page_start_loc_self;
          last_loc = tl_load junk last_loc_ptr (int pid);
          num_part1 = min seq_len (ceil_pages ps pre_len * ps) - pre_len;
          out1 = tl_store_block out output_start_loc page_sz (\<lambda>j. int j < num_part1)
                   (\<lambda>j. last_loc + 1 + int j)
      in if pre_len + num_part1 = seq_len then out1
         else
           let num_part2 = seq_len div ps * ps - ceil_pages ps pre_len * ps;
               num_blocks = (num_part2 + int BLOCK_EXTEND - 1) div int BLOCK_EXTEND;
               out2 = fold (\<lambda>block_id o'.
                   let offset = (\<lambda>j. int block_id * int BLOCK_EXTEND + int j)
                   in tl_store_block o'
                        (output_start_loc + num_part1 + int block_id * int BLOCK_EXTEND)
                        BLOCK_EXTEND
                        (\<lambda>j. offset j < num_part2)
                        (\<lambda>j. tl_load junk free_page_ptr (new_page_start_loc + offset j div ps) * ps
                              + offset j mod ps))
                 [0..<nat num_blocks] out1
           in if pre_len + num_part1 + num_part2 = seq_len then out2
              else
                let num_part3 = seq_len - seq_len div ps * ps;
                    start_loc = tl_load junk free_page_ptr
                      (new_page_start_loc + num_page_start_loc_self - 1)
                in tl_store_block out2 (output_start_loc + num_part1 + num_part2) page_sz
                     (\<lambda>j. int j < num_part3) (\<lambda>j. start_loc * ps + int j))"

definition alloc_extend_kernel ::
  "(int \<Rightarrow> int) \<Rightarrow> int \<Rightarrow> nat \<Rightarrow> int list \<Rightarrow> int list \<Rightarrow> int list \<Rightarrow> int list \<Rightarrow> int list
    \<Rightarrow> nat \<Rightarrow> nat \<Rightarrow> int list" where
  "alloc_extend_kernel junk other bs pre_lens_ptr seq_lens_ptr last_loc_ptr free_page_ptr
      out_indices bs_upper page_sz =
     fold (alloc_extend_program junk other pre_lens_ptr seq_lens_ptr last_loc_ptr free_page_ptr
             bs_upper page_sz)
       [0..<bs] out_indices"

definition alloc_decode_program ::
  "(int \<Rightarrow> int) \<Rightarrow> int \<Rightarrow> int list \<Rightarrow> int list \<Rightarrow> int list \<Rightarrow> nat \<Rightarrow> nat
    \<Rightarrow> nat \<Rightarrow> int list \<Rightarrow> int list" where
  "alloc_decode_program junk other seq_lens_ptr last_loc_ptr free_page_ptr bs_upper page_sz pid out =
     (let ps = int page_sz;
          seq_lens = tl_load_masked junk other seq_lens_ptr bs_upper (\<lambda>j. j \<le> pid);
          pre_lens = map2 (\<lambda>j s. if j \<le> pid then s - 1 else s) [0..<bs_upper] seq_lens;
          seq_len = tl_load junk seq_lens_ptr (int pid);
          pre_len = seq_len - 1;
          num_new_pages = map2 (\<lambda>s p. ceil_pages ps s - ceil_pages ps p) seq_lens pre_lens;
          num_page_start_loc_self = ceil_pages ps seq_len - ceil_pages ps pre_len;
          sum_num_new_pages = sum_list num_new_pages;
          new_page_start_loc = sum_num_new_pages - num_page_start_loc_self
      in if num_page_start_loc_self = 0
         then tl_store out (int pid) (tl_load junk last_loc_ptr (int pid) + 1)
         else tl_store out (int pid) (tl_load junk free_page_ptr new_page_start_loc * ps))"

definition alloc_decode_kernel ::
  "(int \<Rightarrow> int) \<Rightarrow> int \<Rightarrow> nat \<Rightarrow> int list \<Rightarrow> int list \<Rightarrow> int list \<Rightarrow> int list
    \<Rightarrow> nat \<Rightarrow> nat \<Rightarrow> int list" where
  "alloc_decode_kernel junk other bs seq_lens_ptr last_loc_ptr free_page_ptr out_indices
      bs_upper page_sz =
     fold (alloc_decode_program junk other seq_lens_ptr last_loc_ptr free_page_ptr bs_upper page_sz)
       [0..<bs] out_indices"

text \<open>The reference routine of \<open>paged.py\<close>, request by request.\<close>

definition page_slots :: "nat \<Rightarrow> int \<Rightarrow> int list" where
  "page_slots ps p = map (\<lambda>j. p * int ps + int j) [0..<ps]"

fun alloc_extend_naive_loop ::
  "int \<Rightarrow> (int \<times> int \<times> int \<times> int \<times> int \<times> int \<times> int \<times> int) list \<Rightarrow> int list \<Rightarrow> int list \<Rightarrow> int list result"
where
  "alloc_extend_naive_loop ps [] pages out = Inr out"
| "alloc_extend_naive_loop ps
     ((prefix_len, seq_len, last_loc, start_pos, end_pos, start_new, end_new, need_page) # reqs)
     pages out =
     (let num1 = min seq_len ((prefix_len + ps - 1) div ps * ps) - prefix_len
      in rbind
        (if num1 \<noteq> 0
         then slice_assign out (nat start_pos) (nat (start_pos + num1))
                (map (\<lambda>j. last_loc + 1 + int j) [0..<nat num1])
         else Inr out)
        (\<lambda>out1.
          if prefix_len + num1 = seq_len then alloc_extend_naive_loop ps reqs pages out1
          else
            let num2 = (seq_len div ps - (prefix_len + ps - 1) div ps) * ps
            in rbind
              (if num2 \<noteq> 0
               then slice_assign out1 (nat (start_pos + num1)) (nat (start_pos + num1 + num2))
                      (concat (map (page_slots (nat ps))
                         (py_slice pages (nat start_new) (nat (end_new - need_page)))))
               else Inr out1)
              (\<lambda>out2.
                if prefix_len + num1 + num2 = seq_len
                then alloc_extend_naive_loop ps reqs pages out2
                else
                  let num3 = seq_len - seq_len div ps * ps
                  in rbind
                    (if num3 \<noteq> 0
                     then rbind (py_nth pages (nat (end_new - 1)))
                            (\<lambda>p. slice_assign out2 (nat (end_pos - num3)) (nat end_pos)
                                   (map (\<lambda>j. p * ps + int j) [0..<nat num3]))
                     else Inr out2)
                    (\<lambda>out3. alloc_extend_naive_loop ps reqs pages out3))))"

definition alloc_extend_naive ::
  "int list \<Rightarrow> int list \<Rightarrow> int list \<Rightarrow> int list \<Rightarrow> int list \<Rightarrow> nat \<Rightarrow> int list result" where
  "alloc_extend_naive prefix_lens seq_lens last_loc pages out_indices page_sz =
     (let ps = int page_sz;
          extend_lens = map2 (-) seq_lens prefix_lens;
          end_pos = torch_cumsum extend_lens;
          start_pos = map2 (-) end_pos extend_lens;
          num_new_pages = map2 (\<lambda>s p. (s + ps - 1) div ps - (p + ps - 1) div ps) seq_lens prefix_lens;
          num_full_new_pages = map2 (\<lambda>s p. s div ps - (p + ps - 1) div ps) seq_lens prefix_lens;
          need_page = map2 (-) num_new_pages num_full_new_pages;
          end_new_pages = torch_cumsum num_new_pages;
          start_new_pages = map2 (-) end_new_pages num_new_pages
      in alloc_extend_naive_loop ps
           (zip prefix_lens (zip seq_lens (zip last_loc (zip start_pos (zip end_pos
              (zip start_new_pages (zip end_new_pages need_page)))))))
           pages out_indices)"

text \<open>\<open>get_num_new_pages\<close> and \<open>next_power_of_2\<close> of \<open>srt/utils/common.py\<close>.\<close>

definition get_num_new_pages ::
  "int list \<Rightarrow> nat \<Rightarrow> int list option \<Rightarrow> bool \<Rightarrow> int result" where
  "get_num_new_pages seq_lens page_sz prefix_lens decode =
     (case (if decode then None else prefix_lens) of
        None \<Rightarrow>
          rbind (assert_that decode)
            (\<lambda>_. Inr (int (length (filter (\<lambda>s. s mod int page_sz = 1) seq_lens))))
      | Some pre \<Rightarrow>
          Inr (sum_list (map2 (\<lambda>s p. ceil_pages (int page_sz) s - ceil_pages (int page_sz) p)
                 seq_lens pre)))"

fun bit_length :: "nat \<Rightarrow> nat" where
  "bit_length n = (if n = 0 then 0 else Suc (bit_length (n div 2)))"

definition next_power_of_2 :: "nat \<Rightarrow> nat" where
  "next_power_of_2 n = (if n > 0 then 2 ^ bit_length (n - 1) else 1)"

section \<open>Slots given position by position\<close>

text \<open>
  The layout both routines produce. Position \<open>p\<close> of a request whose cached prefix has
  \<open>pre_len\<close> tokens continues the last page of the prefix while that page has room, and
  otherwise lies in the new page number \<open>(p - c) div ps\<close>, at offset \<open>p mod ps\<close>; the
  requests of a batch take consecutive runs of the free pages.
\<close>

definition position_slot :: "int \<Rightarrow> int \<Rightarrow> int \<Rightarrow> (int \<Rightarrow> int) \<Rightarrow> int \<Rightarrow> int" where
  "position_slot ps pre_len last_loc page p =
     (let c = ceil_pages ps pre_len * ps
      in if p < c then last_loc + 1 + (p - pre_len) else page ((p - c) div ps) * ps + p mod ps)"

definition request_slots :: "int \<Rightarrow> int \<Rightarrow> int \<Rightarrow> int \<Rightarrow> (int \<Rightarrow> int) \<Rightarrow> int list" where
  "request_slots ps pre_len seq_len last_loc page =
     map (\<lambda>j. position_slot ps pre_len last_loc page (pre_len + int j)) [0..<nat (seq_len - pre_len)]"

definition extend_start :: "int list \<Rightarrow> int list \<Rightarrow> nat \<Rightarrow> int" where
  "extend_start pre seq k = sum_list (map (\<lambda>j. seq ! j - pre ! j) [0..<k])"

definition new_pages_before :: "int \<Rightarrow> int list \<Rightarrow> int list \<Rightarrow> nat \<Rightarrow> int" where
  "new_pages_before ps pre seq k =
     sum_list (map (\<lambda>j. ceil_pages ps (seq ! j) - ceil_pages ps (pre ! j)) [0..<k])"

definition extend_slots :: "int \<Rightarrow> int list \<Rightarrow> int list \<Rightarrow> int list \<Rightarrow> int list \<Rightarrow> int list" where
  "extend_slots ps pre seq lasts pages =
     concat (map (\<lambda>i. request_slots ps (pre ! i) (seq ! i) (lasts ! i)
                        (\<lambda>k. pages ! nat (new_pages_before ps pre seq i + k))) [0..<length pre])"

definition extend_batch :: "int list \<Rightarrow> int list \<Rightarrow> int list \<Rightarrow> bool" where
  "extend_batch pre seq lasts \<longleftrightarrow> length lasts = length pre \<and> list_all2 (\<le>) pre seq"

definition naive_row :: "int \<Rightarrow> int list \<Rightarrow> int list \<Rightarrow> int list \<Rightarrow> nat \<Rightarrow>
    int \<times> int \<times> int \<times> int \<times> int \<times> int \<times> int \<times> int" where
  "naive_row ps pre seq lasts i =
     (pre ! i, seq ! i, lasts ! i, extend_start pre seq i, extend_start pre seq (Suc i),
      new_pages_before ps pre seq i, new_pages_before ps pre seq (Suc i),
      ceil_pages ps (seq ! i) - seq ! i div ps)"

definition decode_pre :: "int list \<Rightarrow> int list" where
  "decode_pre seq = map (\<lambda>s. s - 1) seq"

section \<open>Stores as buffer overwrites\<close>

lemma blit_snoc:
  assumes "i + length ys < length xs"
  shows "(blit xs i ys)[i + length ys := v] = blit xs i (ys @ [v])"
proof -
  have "drop (i + length ys) xs = xs ! (i + length ys) # drop (Suc (i + length ys)) xs"
    using assms by (simp add: Cons_nth_drop_Suc)
  then show ?thesis
    using assms by (simp add: blit_def list_update_append)
qed

lemma tl_store_blit:
  "b + length ys < length out \<Longrightarrow>
   tl_store (blit out b ys) (int b + int (length ys)) v = blit out b (ys @ [v])"
  by (simp add: tl_store_def blit_snoc flip: of_nat_add)

lemma fold_skip: "(\<And>j. j \<in> set js \<Longrightarrow> \<not> m j) \<Longrightarrow> fold (\<lambda>j o'. if m j then h j o' else o') js out = out"
  by (induction js arbitrary: out) auto

lemma fold_stores_blit:
  "b + m \<le> length out \<Longrightarrow>
   fold (\<lambda>j o'. tl_store o' (int b + int j) (f j)) [0..<m] out = blit out b (map f [0..<m])"
proof (induction m)
  case (Suc m)
  then show ?case
    using tl_store_blit [of b "map f [0..<m]" out "f m"] by simp
qed simp

lemma tl_store_block_blit:
  assumes "m \<le> lanes" "b + m \<le> length out" "\<And>j. msk j \<longleftrightarrow> j < m"
  shows "tl_store_block out (int b) lanes msk f = blit out b (map f [0..<m])"
proof -
  have split: "[0..<lanes] = [0..<m] @ [m..<lanes]"
    using assms(1) by (metis le_add_diff_inverse upt_add_eq_append zero_le)
  have first: "fold (\<lambda>j o'. if msk j then tl_store o' (int b + int j) (f j) else o') [0..<m] out
      = fold (\<lambda>j o'. tl_store o' (int b + int j) (f j)) [0..<m] out"
    by (rule fold_cong) (auto simp: assms(3))
  show ?thesis
    unfolding tl_store_block_def split fold_append comp_apply first
    unfolding fold_stores_blit [OF assms(2), of f]
    by (rule fold_skip) (simp add: assms(3))
qed

lemma fold_blocks_blit:
  assumes "0 < B" "s + n \<le> length out"
  shows "fold (\<lambda>k o'. tl_store_block o' (int s + int k * int B) B
                 (\<lambda>j. int k * int B + int j < int n) (\<lambda>j. g (k * B + j))) [0..<K] out
         = blit out s (map g [0..<min (K * B) n])"
proof (induction K)
  case (Suc K)
  let ?m = "min (K * B) n"
  let ?m' = "min (Suc K * B) n"
  let ?cur = "blit out s (map g [0..<?m])"
  have len: "length ?cur = length out" using assms by simp
  show ?case
  proof (cases "K * B \<le> n")
    case True
    then have m: "?m = K * B" by simp
    define w where "w = ?m' - K * B"
    have w: "w \<le> B" "s + K * B + w \<le> length ?cur" "K * B + w = ?m'"
      using assms True len unfolding w_def by (auto simp: min_def)
    have eq: "tl_store_block ?cur (int (s + K * B)) B (\<lambda>j. int K * int B + int j < int n) (\<lambda>j. g (K * B + j))
        = blit ?cur (s + K * B) (map (\<lambda>j. g (K * B + j)) [0..<w])"
    proof -
      have store: "tl_store_block ?cur (int (s + K * B)) B (\<lambda>j. j < w) (\<lambda>j. g (K * B + j))
        = blit ?cur (s + K * B) (map (\<lambda>j. g (K * B + j)) [0..<w])"
        using w by (intro tl_store_block_blit) auto
      have msk: "(int K * int B + int j < int n) \<longleftrightarrow> j < w" if "j < B" for j
        using that True unfolding w_def by (auto simp flip: of_nat_mult of_nat_add)
      have "tl_store_block ?cur (int (s + K * B)) B (\<lambda>j. int K * int B + int j < int n) (\<lambda>j. g (K * B + j))
         = tl_store_block ?cur (int (s + K * B)) B (\<lambda>j. j < w) (\<lambda>j. g (K * B + j))"
        unfolding tl_store_block_def by (rule fold_cong) (auto simp: msk)
      with store show ?thesis by simp
    qed
    have "blit ?cur (s + K * B) (map (\<lambda>j. g (K * B + j)) [0..<w])
        = blit out s (map g [0..<K * B] @ map (\<lambda>j. g (K * B + j)) [0..<w])"
      using blit_append [of s "map g [0..<K * B]" out] assms True m by simp
    also have "map g [0..<K * B] @ map (\<lambda>j. g (K * B + j)) [0..<w] = map g [0..<?m']"
      unfolding w(3) [symmetric] by (rule nth_equalityI) (auto simp: nth_append)
    finally show ?thesis using Suc eq by (simp add: m)
  next
    case False
    then have m: "?m = n" "?m' = n" by auto
    have "\<not> int K * int B + int j < int n" for j
      using False by (simp flip: of_nat_mult of_nat_add)
    then have "tl_store_block ?cur (int s + int K * int B) B
        (\<lambda>j. int K * int B + int j < int n) (\<lambda>j. g (K * B + j)) = ?cur"
      unfolding tl_store_block_def by (intro fold_skip) simp
    then show ?thesis using Suc m by simp
  qed
qed simp

section \<open>Slots by position\<close>

lemma ceil_pages_bounds:
  assumes "0 < ps"
  shows "x \<le> ceil_pages ps x * ps" "ceil_pages ps x * ps < x + ps"
proof -
  have eq: "ceil_pages ps x * ps = x + ps - 1 - (x + ps - 1) mod ps"
    unfolding ceil_pages_def by (rule div_mult_mod_eq [of "x + ps - 1" ps, THEN eq_diff_eq [THEN iffD2]])
  have "0 \<le> (x + ps - 1) mod ps" "(x + ps - 1) mod ps < ps"
    using assms by simp_all
  with eq show "x \<le> ceil_pages ps x * ps" "ceil_pages ps x * ps < x + ps" by linarith+
qed

lemma ceil_pages_mono: "0 < ps \<Longrightarrow> x \<le> y \<Longrightarrow> ceil_pages ps x \<le> ceil_pages ps y"
  by (simp add: ceil_pages_def zdiv_mono1)

lemma ceil_pages_eq:
  assumes "0 < ps"
  shows "ceil_pages ps x = x div ps + (if x mod ps = 0 then 0 else 1)"
proof -
  have "x + ps - 1 = (x div ps) * ps + (x mod ps + ps - 1)" by simp
  then have "ceil_pages ps x = x div ps + (x mod ps + ps - 1) div ps"
    unfolding ceil_pages_def using assms by (metis add.commute div_mult_self3 less_irrefl)
  moreover have "(x mod ps + ps - 1) div ps = (if x mod ps = 0 then 0 else 1)"
  proof (cases "x mod ps = 0")
    case True
    then show ?thesis using assms by simp
  next
    case False
    then have "0 < x mod ps" "x mod ps < ps"
      using assms pos_mod_sign [of ps x] pos_mod_bound [of ps x] by linarith+
    then have "(x mod ps + ps - 1) div ps = ((x mod ps - 1) + ps) div ps" by (simp add: algebra_simps)
    also have "\<dots> = (x mod ps - 1) div ps + 1" by (rule div_add_self2) (use assms in simp)
    also have "(x mod ps - 1) div ps = 0"
      using \<open>0 < x mod ps\<close> \<open>x mod ps < ps\<close> by (intro div_pos_pos_trivial) linarith+
    finally show ?thesis using False by simp
  qed
  ultimately show ?thesis by simp
qed

lemma request_slots_old_page:
  assumes "0 < ps" "seq_len \<le> ceil_pages ps pre_len * ps"
  shows "request_slots ps pre_len seq_len last_loc page
       = map (\<lambda>j. last_loc + 1 + int j) [0..<nat (seq_len - pre_len)]"
  using assms by (auto simp: request_slots_def position_slot_def Let_def)

lemma request_slots_parts:
  fixes ps pre_len seq_len :: int
  defines "c \<equiv> ceil_pages ps pre_len * ps"
  assumes ps: "0 < ps" and pre: "pre_len \<le> c" and gt: "c < seq_len"
  shows "request_slots ps pre_len seq_len last_loc page
       = map (\<lambda>j. last_loc + 1 + int j) [0..<nat (c - pre_len)]
         @ map (\<lambda>j. page (int j div ps) * ps + int j mod ps) [0..<nat (seq_len div ps * ps - c)]
         @ map (\<lambda>j. page (ceil_pages ps seq_len - ceil_pages ps pre_len - 1) * ps + int j)
             [0..<nat (seq_len - seq_len div ps * ps)]"
    (is "_ = ?p1 @ ?p2 @ ?p3")
proof (rule nth_equalityI)
  let ?q = "ceil_pages ps pre_len"
  have seq_eq: "seq_len div ps * ps = seq_len - seq_len mod ps"
    by (rule minus_mod_eq_div_mult [symmetric])
  have mod: "0 \<le> seq_len mod ps" "seq_len mod ps < ps" using ps by simp_all
  have c_le: "c \<le> seq_len div ps * ps"
  proof -
    have "?q \<le> seq_len div ps"
      using gt ps unfolding c_def by (metis less_imp_le nonzero_mult_div_cancel_right order_less_irrefl zdiv_mono1)
    then show ?thesis using ps unfolding c_def by simp
  qed
  show "length (request_slots ps pre_len seq_len last_loc page) = length (?p1 @ ?p2 @ ?p3)"
    using c_le pre seq_eq mod by (simp add: request_slots_def nat_add_distrib [symmetric])
  fix i assume i: "i < length (request_slots ps pre_len seq_len last_loc page)"
  then have i': "int i < seq_len - pre_len" by (simp add: request_slots_def)
  have lhs: "request_slots ps pre_len seq_len last_loc page ! i
      = position_slot ps pre_len last_loc page (pre_len + int i)"
    using i by (simp add: request_slots_def)
  consider (a) "int i < c - pre_len"
    | (b) "c - pre_len \<le> int i" "int i < seq_len div ps * ps - pre_len"
    | (c) "seq_len div ps * ps - pre_len \<le> int i"
    by linarith
  then show "request_slots ps pre_len seq_len last_loc page ! i = (?p1 @ ?p2 @ ?p3) ! i"
  proof cases
    case a
    then have "i < nat (c - pre_len)" by simp
    then show ?thesis using a lhs by (simp add: nth_append position_slot_def c_def Let_def)
  next
    case b
    define k where "k = i - nat (c - pre_len)"
    have k: "int k = pre_len + int i - c" "k < nat (seq_len div ps * ps - c)" "\<not> i < nat (c - pre_len)"
      using b pre c_le unfolding k_def by linarith+
    have "(pre_len + int i) mod ps = int k mod ps"
      unfolding k(1) c_def by (metis mod_mult_self2 diff_add_cancel mult.commute)
    moreover have "(?p1 @ ?p2 @ ?p3) ! i = ?p2 ! k"
      using k unfolding k_def by (simp add: nth_append)
    ultimately show ?thesis
      using lhs k b by (simp add: position_slot_def Let_def c_def)
  next
    case c
    define k where "k = i - nat (seq_len div ps * ps - pre_len)"
    have k: "int k = pre_len + int i - seq_len div ps * ps" "k < nat (seq_len - seq_len div ps * ps)"
      using c pre c_le i' unfolding k_def by linarith+
    have kps: "int k < ps" using k(2) seq_eq mod by linarith
    have npos: "seq_len mod ps \<noteq> 0" using k seq_eq by linarith
    have "(pre_len + int i - c) div ps = (int k + (seq_len div ps - ?q) * ps) div ps"
      unfolding k(1) c_def by (simp add: algebra_simps)
    also have "\<dots> = seq_len div ps - ?q" using kps ps by simp
    also have "\<dots> = ceil_pages ps seq_len - ?q - 1" using npos by (simp add: ceil_pages_eq [OF ps])
    finally have d: "(pre_len + int i - c) div ps = ceil_pages ps seq_len - ?q - 1" .
    have m: "(pre_len + int i) mod ps = int k"
    proof -
      have "pre_len + int i = int k + (seq_len div ps) * ps" using k(1) by simp
      then show ?thesis using kps by (simp add: mod_pos_pos_trivial)
    qed
    have ge: "\<not> pre_len + int i < c" using c c_le by linarith
    have n2: "nat (c - pre_len) + nat (seq_len div ps * ps - c) = nat (seq_len div ps * ps - pre_len)"
      using pre c_le by linarith
    have "\<not> i < nat (c - pre_len)" "\<not> i - nat (c - pre_len) < nat (seq_len div ps * ps - c)"
      "i - nat (c - pre_len) - nat (seq_len div ps * ps - c) = k"
      using c pre c_le n2 unfolding k_def by linarith+
    then have "(?p1 @ ?p2 @ ?p3) ! i = ?p3 ! k"
      by (simp add: nth_append)
    then show ?thesis
      using lhs k ge d m by (simp add: position_slot_def Let_def c_def)
  qed
qed

lemma extend_start_Suc: "extend_start pre seq (Suc k) = extend_start pre seq k + (seq ! k - pre ! k)"
  by (simp add: extend_start_def)

lemma new_pages_before_Suc:
  "new_pages_before ps pre seq (Suc k) =
   new_pages_before ps pre seq k + (ceil_pages ps (seq ! k) - ceil_pages ps (pre ! k))"
  by (simp add: new_pages_before_def)

lemma lane_sum:
  assumes "f other other = 0" "pid < length seq" "length pre = length seq" "pid < lanes"
  shows "sum_list (map2 f (tl_load_masked junk other seq lanes (\<lambda>j. j \<le> pid))
                          (tl_load_masked junk other pre lanes (\<lambda>j. j \<le> pid)))
       = sum_list (map (\<lambda>j. f (seq ! j) (pre ! j)) [0..<Suc pid])"
proof -
  have split: "[0..<lanes] = [0..<Suc pid] @ [Suc pid..<lanes]"
    using assms(4) by (metis Suc_leI le_add_diff_inverse upt_add_eq_append zero_le)
  have zero: "sum_list (map (\<lambda>j. if j \<le> pid then g j else 0) [Suc pid..<lanes]) = 0" for g :: "nat \<Rightarrow> 'a"
    by (intro sum_list_0 [THEN trans [rotated]] arg_cong [where f = sum_list]) (auto intro!: map_cong)
  have "map2 f (tl_load_masked junk other seq lanes (\<lambda>j. j \<le> pid))
               (tl_load_masked junk other pre lanes (\<lambda>j. j \<le> pid))
      = map (\<lambda>j. if j \<le> pid then f (seq ! j) (pre ! j) else 0) [0..<lanes]"
    using assms by (auto simp: tl_load_masked_def map2_map_map tl_load_def intro!: map_cong)
  also have "sum_list \<dots> = sum_list (map (\<lambda>j. f (seq ! j) (pre ! j)) [0..<Suc pid])"
  proof -
    have "map (\<lambda>j. if j \<le> pid then f (seq ! j) (pre ! j) else 0) [0..<Suc pid]
        = map (\<lambda>j. f (seq ! j) (pre ! j)) [0..<Suc pid]"
      by (rule map_cong) auto
    then show ?thesis
      unfolding split map_append sum_list_append zero by (simp only: add_0_right)
  qed
  finally show ?thesis .
qed

lemma alloc_extend_program_blit:
  fixes page_sz pid :: nat and pre seq lasts :: "int list"
  defines "ps \<equiv> int page_sz"
  defines "S \<equiv> extend_start pre seq pid" and "P \<equiv> new_pages_before ps pre seq pid"
  assumes ps: "0 < page_sz" and len: "pid < length seq" "length pre = length seq" "length lasts = length seq"
    and lanes: "pid < lanes"
    and le: "pre ! pid \<le> seq ! pid"
    and S: "0 \<le> S" "S + (seq ! pid - pre ! pid) \<le> int (length out)"
  shows "alloc_extend_program junk other pre seq lasts pages lanes page_sz pid out
       = blit out (nat S) (request_slots ps (pre ! pid) (seq ! pid) (lasts ! pid)
                             (\<lambda>k. tl_load junk pages (P + k)))"
proof -
  let ?pre = "pre ! pid" and ?seq = "seq ! pid" and ?last = "lasts ! pid"
  let ?c = "ceil_pages ps ?pre * ps"
  let ?pg = "\<lambda>k. tl_load junk pages (P + k)"
  have ps0: "0 < ps" using ps by (simp add: ps_def)
  have c: "?pre \<le> ?c" "?c < ?pre + ps" using ceil_pages_bounds [OF ps0] by blast+
  have sumE: "sum_list (map2 (-) (tl_load_masked junk other seq lanes (\<lambda>j. j \<le> pid))
        (tl_load_masked junk other pre lanes (\<lambda>j. j \<le> pid))) - (?seq - ?pre) = S"
    using lane_sum [of "(-)" other pid seq pre lanes junk] len lanes
    by (simp add: S_def extend_start_def)
  have sumP: "sum_list (map2 (\<lambda>s p. ceil_pages ps s - ceil_pages ps p)
        (tl_load_masked junk other seq lanes (\<lambda>j. j \<le> pid))
        (tl_load_masked junk other pre lanes (\<lambda>j. j \<le> pid)))
        - (ceil_pages ps ?seq - ceil_pages ps ?pre) = P"
    using lane_sum [of "\<lambda>s p. ceil_pages ps s - ceil_pages ps p" other pid seq pre lanes junk] len lanes
    by (simp add: P_def new_pages_before_def)
  have loads: "tl_load junk seq (int pid) = ?seq" "tl_load junk pre (int pid) = ?pre"
    "tl_load junk lasts (int pid) = ?last"
    using len by (simp_all add: tl_load_def)
  define n1 where "n1 = nat (min ?seq ?c - ?pre)"
  define n2 where "n2 = nat (?seq div ps * ps - ?c)"
  define n3 where "n3 = nat (?seq - ?seq div ps * ps)"
  have n1: "int n1 = min ?seq ?c - ?pre" "n1 \<le> page_sz"
    using c le ps0 unfolding n1_def ps_def by auto
  have out1: "tl_store_block out S page_sz (\<lambda>j. int j < min ?seq ?c - ?pre) (\<lambda>j. ?last + 1 + int j)
      = blit out (nat S) (map (\<lambda>j. ?last + 1 + int j) [0..<n1])"
  proof -
    have "tl_store_block out (int (nat S)) page_sz (\<lambda>j. int j < min ?seq ?c - ?pre) (\<lambda>j. ?last + 1 + int j)
      = blit out (nat S) (map (\<lambda>j. ?last + 1 + int j) [0..<n1])"
      by (rule tl_store_block_blit) (use n1 S in linarith)+
    then show ?thesis using S(1) by simp
  qed
  show ?thesis
  proof (cases "?seq \<le> ?c")
    case True
    then have "?pre + (min ?seq ?c - ?pre) = ?seq" by simp
    then show ?thesis
      using True request_slots_old_page [OF ps0 True, of ?last ?pg] out1
      unfolding alloc_extend_program_def ps_def [symmetric] loads sumE sumP Let_def n1_def by simp
  next
    case False
    have p1: "min ?seq ?c = ?c" using False by simp
    have neq: "?pre + (?c - ?pre) \<noteq> ?seq" using False by simp
    have slots: "request_slots ps ?pre ?seq ?last ?pg
       = map (\<lambda>j. ?last + 1 + int j) [0..<n1]
         @ map (\<lambda>j. ?pg (int j div ps) * ps + int j mod ps) [0..<n2]
         @ map (\<lambda>j. ?pg (ceil_pages ps ?seq - ceil_pages ps ?pre - 1) * ps + int j) [0..<n3]"
      using request_slots_parts [OF ps0 c(1), of ?seq ?last ?pg] False p1
      unfolding n1_def n2_def n3_def by simp
    have seq_eq: "?seq div ps * ps = ?seq - ?seq mod ps" "0 \<le> ?seq mod ps" "?seq mod ps < ps"
      using ps0 by (simp_all add: minus_mod_eq_div_mult)
    have c_le: "?c \<le> ?seq div ps * ps"
      using False ps0 by (metis less_imp_le linorder_not_le mult_right_mono
          nonzero_mult_div_cancel_right order_less_irrefl zdiv_mono1)
    have ns: "int n1 = ?c - ?pre" "int n2 = ?seq div ps * ps - ?c" "int n3 = ?seq - ?seq div ps * ps"
      using n1(1) p1 c_le seq_eq by (simp_all add: n2_def n3_def)
    let ?o1 = "blit out (nat S) (map (\<lambda>j. ?last + 1 + int j) [0..<n1])"
    let ?g = "\<lambda>j. ?pg (int j div ps) * ps + int j mod ps"
    let ?K = "nat ((int n2 + int BLOCK_EXTEND - 1) div int BLOCK_EXTEND)"
    have room: "nat S + n1 + n2 + n3 \<le> length out" using S ns by linarith
    have len1: "length ?o1 = length out" using room by simp
    have K: "min (?K * BLOCK_EXTEND) n2 = n2"
    proof -
      have "int n2 \<le> ceil_pages (int BLOCK_EXTEND) (int n2) * int BLOCK_EXTEND"
        by (rule ceil_pages_bounds) (simp add: BLOCK_EXTEND_def)
      then have "int n2 \<le> int (?K * BLOCK_EXTEND)"
        unfolding ceil_pages_def by (simp add: pos_imp_zdiv_nonneg_iff BLOCK_EXTEND_def)
      then show ?thesis by linarith
    qed
    have out2: "fold (\<lambda>b o'. tl_store_block o' (int (nat S + n1) + int b * int BLOCK_EXTEND) BLOCK_EXTEND
          (\<lambda>j. int b * int BLOCK_EXTEND + int j < int n2) (\<lambda>j. ?g (b * BLOCK_EXTEND + j))) [0..<?K] ?o1
        = blit ?o1 (nat S + n1) (map ?g [0..<n2])"
      using fold_blocks_blit [of BLOCK_EXTEND "nat S + n1" n2 ?o1 ?g ?K] room len1 K
      by (simp add: BLOCK_EXTEND_def)
    have blit2: "blit ?o1 (nat S + n1) (map ?g [0..<n2])
        = blit out (nat S) (map (\<lambda>j. ?last + 1 + int j) [0..<n1] @ map ?g [0..<n2])"
      using blit_append [of "nat S" "map (\<lambda>j. ?last + 1 + int j) [0..<n1]" out] room by simp
    show ?thesis
    proof (cases "n3 = 0")
      case True
      then have "?pre + (?c - ?pre) + (?seq div ps * ps - ?c) = ?seq" using ns by linarith
      then show ?thesis
        using p1 neq out1 out2 blit2 slots True S(1)
        unfolding alloc_extend_program_def ps_def [symmetric] loads sumE sumP Let_def
        by (simp add: ns [symmetric])
    next
      case False
      then have neq2: "?pre + (?c - ?pre) + (?seq div ps * ps - ?c) \<noteq> ?seq" using ns by linarith
      have n3: "n3 \<le> page_sz" using ns(3) seq_eq by (simp add: ps_def)
      let ?h = "\<lambda>j. ?pg (ceil_pages ps ?seq - ceil_pages ps ?pre - 1) * ps + int j"
      let ?o2 = "blit out (nat S) (map (\<lambda>j. ?last + 1 + int j) [0..<n1] @ map ?g [0..<n2])"
      have "tl_store_block ?o2 (int (nat S + n1 + n2)) page_sz (\<lambda>j. int j < int n3) ?h
          = blit ?o2 (nat S + n1 + n2) (map ?h [0..<n3])"
        by (rule tl_store_block_blit) (use n3 room in simp_all)
      also have "\<dots> = blit out (nat S) (request_slots ps ?pre ?seq ?last ?pg)"
        using blit_append [of "nat S" "map (\<lambda>j. ?last + 1 + int j) [0..<n1] @ map ?g [0..<n2]" out] room
        unfolding slots by (simp add: add.assoc)
      finally have out3: "tl_store_block ?o2 (int (nat S + n1 + n2)) page_sz (\<lambda>j. int j < int n3) ?h
          = blit out (nat S) (request_slots ps ?pre ?seq ?last ?pg)" .
      have idx: "P + (ceil_pages ps ?seq - ceil_pages ps ?pre) - 1
          = P + (ceil_pages ps ?seq - ceil_pages ps ?pre - 1)" by simp
      show ?thesis
        using p1 neq neq2 out1 out2 blit2 out3 S(1)
        unfolding alloc_extend_program_def ps_def [symmetric] loads sumE sumP Let_def idx
        by (simp add: ns [symmetric])
    qed
  qed
qed

lemma extend_batchD:
  assumes "extend_batch pre seq lasts"
  shows "length seq = length pre" "length lasts = length pre" "i < length pre \<Longrightarrow> pre ! i \<le> seq ! i"
  using assms by (auto simp: extend_batch_def list_all2_conv_all_nth)

lemma extend_start_mono:
  "extend_batch pre seq lasts \<Longrightarrow> j \<le> k \<Longrightarrow> k \<le> length pre \<Longrightarrow> extend_start pre seq j \<le> extend_start pre seq k"
proof (induction k)
  case (Suc k)
  then show ?case
    by (cases "j = Suc k") (auto simp: extend_start_Suc dest!: extend_batchD(3) [of _ _ _ k] intro: order_trans)
qed simp

lemma extend_start_nonneg:
  "extend_batch pre seq lasts \<Longrightarrow> k \<le> length pre \<Longrightarrow> 0 \<le> extend_start pre seq k"
  using extend_start_mono [of pre seq lasts 0 k] by (simp add: extend_start_def)

lemma new_pages_mono:
  "0 < ps \<Longrightarrow> extend_batch pre seq lasts \<Longrightarrow> j \<le> k \<Longrightarrow> k \<le> length pre \<Longrightarrow>
   new_pages_before ps pre seq j \<le> new_pages_before ps pre seq k"
proof (induction k)
  case (Suc k)
  have "ceil_pages ps (pre ! k) \<le> ceil_pages ps (seq ! k)"
    using Suc.prems extend_batchD(3) [of pre seq lasts k] by (intro ceil_pages_mono) auto
  then show ?case
    using Suc by (cases "j = Suc k") (auto simp: new_pages_before_Suc)
qed simp

lemma new_pages_nonneg:
  "0 < ps \<Longrightarrow> extend_batch pre seq lasts \<Longrightarrow> k \<le> length pre \<Longrightarrow> 0 \<le> new_pages_before ps pre seq k"
  using new_pages_mono [of ps pre seq lasts 0 k] by (simp add: new_pages_before_def)

lemma length_request_slots [simp]: "length (request_slots ps p s l pg) = nat (s - p)"
  by (simp add: request_slots_def)

lemma request_slots_cong:
  assumes ps: "0 < ps" and eq: "\<And>k. 0 \<le> k \<Longrightarrow> k < ceil_pages ps s - ceil_pages ps p \<Longrightarrow> pg k = pg' k"
  shows "request_slots ps p s l pg = request_slots ps p s l pg'"
proof -
  have "pg ((p + int j - c) div ps) = pg' ((p + int j - c) div ps)"
    if j: "int j < s - p" and c: "c = ceil_pages ps p * ps" "\<not> p + int j < c" for j c
  proof (rule eq)
    have d: "(p + int j - c) div ps = (p + int j) div ps - ceil_pages ps p"
      unfolding c(1) using ps div_mult_self1 [of ps "p + int j" "- ceil_pages ps p"] by simp
    show "0 \<le> (p + int j - c) div ps" using c ps by (simp add: pos_imp_zdiv_nonneg_iff)
    have "(p + int j) div ps < ceil_pages ps s"
    proof -
      have "(p + int j) div ps * ps \<le> p + int j"
        using ps by (metis minus_mod_eq_div_mult pos_mod_sign diff_le_eq le_add_same_cancel1)
      also have "\<dots> < s" using j by simp
      also have "\<dots> \<le> ceil_pages ps s * ps" by (rule ceil_pages_bounds [OF ps])
      finally show ?thesis using ps by simp
    qed
    then show "(p + int j - c) div ps < ceil_pages ps s - ceil_pages ps p"
      by (simp add: d)
  qed
  then show ?thesis by (auto simp: request_slots_def position_slot_def Let_def)
qed

lemma length_concat_slots:
  "extend_batch pre seq lasts \<Longrightarrow> k \<le> length pre \<Longrightarrow>
   length (concat (map (\<lambda>i. request_slots ps (pre ! i) (seq ! i) (lasts ! i) (pg i)) [0..<k]))
   = nat (extend_start pre seq k)"
proof (induction k)
  case (Suc k)
  have "pre ! k \<le> seq ! k" using extend_batchD(3) Suc.prems by auto
  then show ?case
    using Suc.IH [OF Suc.prems(1)] Suc.prems extend_start_nonneg [of pre seq lasts k]
    by (simp add: extend_start_Suc nat_add_distrib)
qed (simp add: extend_start_def)

lemma alloc_extend_kernel_fold:
  assumes ps: "0 < page_sz" and b: "extend_batch pre seq lasts"
    and lanes: "length pre \<le> lanes" and len: "int (length out) = extend_start pre seq (length pre)"
  shows "k \<le> length pre \<Longrightarrow>
    fold (alloc_extend_program junk other pre seq lasts pages lanes page_sz) [0..<k] out
    = blit out 0 (concat (map (\<lambda>i. request_slots (int page_sz) (pre ! i) (seq ! i) (lasts ! i)
                        (\<lambda>j. tl_load junk pages (new_pages_before (int page_sz) pre seq i + j))) [0..<k]))"
    (is "_ \<Longrightarrow> _ = blit out 0 (concat (map ?R _))")
proof (induction k)
  case (Suc k)
  let ?done = "concat (map ?R [0..<k])"
  have k: "k < length pre" using Suc.prems by simp
  have ld: "length ?done = nat (extend_start pre seq k)"
    by (rule length_concat_slots [OF b]) (use k in simp)
  have nn: "0 \<le> extend_start pre seq k" using extend_start_nonneg [OF b] k by simp
  have room: "extend_start pre seq k + (seq ! k - pre ! k) \<le> int (length out)"
    using extend_start_mono [OF b, of "Suc k" "length pre"] k len by (simp add: extend_start_Suc)
  have le: "pre ! k \<le> seq ! k" by (rule extend_batchD(3) [OF b k])
  have len': "length (blit out 0 ?done) = length out"
    by (rule length_blit) (use ld nn room le in linarith)
  have "alloc_extend_program junk other pre seq lasts pages lanes page_sz k (blit out 0 ?done)
      = blit (blit out 0 ?done) (nat (extend_start pre seq k)) (?R k)"
    by (rule alloc_extend_program_blit [OF ps])
      (use extend_batchD(1,2) [OF b] k le nn room lanes len' in simp_all)
  also have "\<dots> = blit out 0 (?done @ ?R k)"
    unfolding ld [symmetric] by (rule blit_append [of 0 ?done out "?R k", simplified]) (use ld nn room le in linarith)
  finally show ?case using Suc by simp
qed simp

lemma alloc_extend_kernel_slots:
  assumes ps: "0 < page_sz" and b: "extend_batch pre seq lasts"
    and lanes: "length pre \<le> lanes" and len: "int (length out) = extend_start pre seq (length pre)"
    and enough: "new_pages_before (int page_sz) pre seq (length pre) \<le> int (length pages)"
  shows "alloc_extend_kernel junk other (length pre) pre seq lasts pages out lanes page_sz
       = extend_slots (int page_sz) pre seq lasts pages"
proof -
  let ?ps = "int page_sz"
  let ?R = "\<lambda>i. request_slots ?ps (pre ! i) (seq ! i) (lasts ! i)
                  (\<lambda>j. tl_load junk pages (new_pages_before ?ps pre seq i + j))"
  have "?R i = request_slots ?ps (pre ! i) (seq ! i) (lasts ! i)
                 (\<lambda>j. pages ! nat (new_pages_before ?ps pre seq i + j))" if i: "i < length pre" for i
  proof (rule request_slots_cong)
    fix k assume k: "0 \<le> k" "k < ceil_pages ?ps (seq ! i) - ceil_pages ?ps (pre ! i)"
    have "new_pages_before ?ps pre seq (Suc i) \<le> int (length pages)"
      using new_pages_mono [OF _ b, of ?ps "Suc i" "length pre"] i ps enough by simp
    moreover have "0 \<le> new_pages_before ?ps pre seq i"
      using new_pages_nonneg [OF _ b] i ps by simp
    ultimately show "tl_load junk pages (new_pages_before ?ps pre seq i + k)
        = pages ! nat (new_pages_before ?ps pre seq i + k)"
      using k by (simp add: tl_load_def new_pages_before_Suc)
  qed (use ps in simp)
  then have "concat (map ?R [0..<length pre]) = extend_slots ?ps pre seq lasts pages"
    unfolding extend_slots_def by (intro arg_cong [where f = concat] map_cong) auto
  moreover have "blit out 0 (concat (map ?R [0..<length pre])) = concat (map ?R [0..<length pre])"
    using length_concat_slots [OF b, of "length pre"] len by (simp add: blit_def)
  ultimately show ?thesis
    unfolding alloc_extend_kernel_def using alloc_extend_kernel_fold [OF ps b lanes len, of "length pre"]
    by simp
qed

lemma slice_assign_exact:
  "length vals = b - a \<Longrightarrow> b \<le> length out \<Longrightarrow> slice_assign out a b vals = Inr (blit out a vals)"
  by (simp add: slice_assign_def Let_def)

lemma concat_page_slots:
  assumes "s + m \<le> length pages"
  shows "concat (map (page_slots ps) (py_slice pages s (s + m)))
       = map (\<lambda>j. pages ! (s + j div ps) * int ps + int (j mod ps)) [0..<m * ps]"
  using assms
proof (induction m)
  case (Suc m)
  have "take (Suc m) (drop s pages) = take m (drop s pages) @ [pages ! (s + m)]"
    using Suc.prems by (simp add: take_Suc_conv_app_nth)
  then have "concat (map (page_slots ps) (py_slice pages s (s + Suc m)))
      = concat (map (page_slots ps) (py_slice pages s (s + m))) @ page_slots ps (pages ! (s + m))"
    by (simp add: py_slice_def)
  also have "page_slots ps (pages ! (s + m))
      = map (\<lambda>j. pages ! (s + j div ps) * int ps + int (j mod ps)) [m * ps..<Suc m * ps]"
  proof (rule nth_equalityI)
    fix i assume "i < length (page_slots ps (pages ! (s + m)))"
    then have i: "i < ps" by (simp add: page_slots_def)
    then have "(m * ps + i) div ps = m" "(m * ps + i) mod ps = i" by simp_all
    then show "page_slots ps (pages ! (s + m)) ! i
        = map (\<lambda>j. pages ! (s + j div ps) * int ps + int (j mod ps)) [m * ps..<Suc m * ps] ! i"
      using i by (simp add: page_slots_def)
  qed (simp add: page_slots_def)
  also have "concat (map (page_slots ps) (py_slice pages s (s + m))) @ \<dots>
      = map (\<lambda>j. pages ! (s + j div ps) * int ps + int (j mod ps)) ([0..<m * ps] @ [m * ps..<Suc m * ps])"
    using Suc by simp
  also have "[0..<m * ps] @ [m * ps..<Suc m * ps] = [0..<Suc m * ps]"
    by (metis add.commute mult_Suc upt_add_eq_append zero_le)
  finally show ?case .
qed (simp add: py_slice_def)

lemma alloc_extend_naive_rows:
  assumes "length seq = length pre" "length lasts = length pre"
  shows "alloc_extend_naive pre seq lasts pages out page_sz
       = alloc_extend_naive_loop (int page_sz)
           (map (naive_row (int page_sz) pre seq lasts) [0..<length pre]) pages out"
proof -
  let ?ps = "int page_sz"
  have take_map: "sum_list (take (Suc i) (map2 f seq pre)) = sum_list (map (\<lambda>j. f (seq ! j) (pre ! j)) [0..<Suc i])"
    if "i < length pre" for i and f :: "int \<Rightarrow> int \<Rightarrow> int"
  proof -
    have "take (Suc i) (map2 f seq pre) = map (\<lambda>j. f (seq ! j) (pre ! j)) [0..<Suc i]"
      using that assms by (intro nth_equalityI) (auto simp: less_Suc_eq nth_append)
    then show ?thesis by (rule arg_cong)
  qed
  have "zip pre (zip seq (zip lasts
      (zip (map2 (-) (torch_cumsum (map2 (-) seq pre)) (map2 (-) seq pre))
        (zip (torch_cumsum (map2 (-) seq pre))
          (zip (map2 (-) (torch_cumsum (map2 (\<lambda>s p. (s + ?ps - 1) div ?ps - (p + ?ps - 1) div ?ps) seq pre))
                  (map2 (\<lambda>s p. (s + ?ps - 1) div ?ps - (p + ?ps - 1) div ?ps) seq pre))
            (zip (torch_cumsum (map2 (\<lambda>s p. (s + ?ps - 1) div ?ps - (p + ?ps - 1) div ?ps) seq pre))
              (map2 (-) (map2 (\<lambda>s p. (s + ?ps - 1) div ?ps - (p + ?ps - 1) div ?ps) seq pre)
                 (map2 (\<lambda>s p. s div ?ps - (p + ?ps - 1) div ?ps) seq pre))))))))
    = map (naive_row ?ps pre seq lasts) [0..<length pre]"
    by (rule nth_equalityI)
      (use assms in \<open>simp_all add: naive_row_def torch_cumsum_nth take_map extend_start_def
         new_pages_before_def ceil_pages_def\<close>)
  then show ?thesis by (simp add: alloc_extend_naive_def Let_def)
qed

lemma alloc_extend_naive_loop_slots:
  fixes page_sz :: nat
  defines "ps \<equiv> int page_sz"
  assumes ps: "0 < page_sz" and b: "extend_batch pre seq lasts"
    and enough: "new_pages_before ps pre seq (length pre) \<le> int (length pages)"
    and len: "int (length out) = extend_start pre seq (length pre)"
    and i: "i < length pre"
  shows "alloc_extend_naive_loop ps (naive_row ps pre seq lasts i # rows) pages out
       = alloc_extend_naive_loop ps rows pages
           (blit out (nat (extend_start pre seq i))
              (request_slots ps (pre ! i) (seq ! i) (lasts ! i)
                 (\<lambda>k. pages ! nat (new_pages_before ps pre seq i + k))))"
proof -
  let ?pre = "pre ! i" and ?seq = "seq ! i" and ?last = "lasts ! i"
  let ?S = "extend_start pre seq i" and ?P = "new_pages_before ps pre seq i"
  let ?c = "ceil_pages ps ?pre * ps"
  let ?pg = "\<lambda>k. pages ! nat (?P + k)"
  have ps0: "0 < ps" using ps by (simp add: ps_def)
  have c: "?pre \<le> ?c" "?c < ?pre + ps" using ceil_pages_bounds [OF ps0] by blast+
  have le: "?pre \<le> ?seq" by (rule extend_batchD(3) [OF b i])
  have S: "0 \<le> ?S" "?S + (?seq - ?pre) \<le> int (length out)"
    using extend_start_nonneg [OF b] extend_start_mono [OF b, of "Suc i" "length pre"] i len
    by (simp_all add: extend_start_Suc)
  have P: "0 \<le> ?P" "?P + (ceil_pages ps ?seq - ceil_pages ps ?pre) \<le> int (length pages)"
    using new_pages_nonneg [OF ps0 b] new_pages_mono [OF ps0 b, of "Suc i" "length pre"] i enough
    by (simp_all add: new_pages_before_Suc)
  show ?thesis
  proof (cases "?seq \<le> ?c")
    case True
    then have m: "min ?seq ?c - ?pre = ?seq - ?pre" by simp
    have "(if ?seq - ?pre \<noteq> 0
         then slice_assign out (nat ?S) (nat (?S + (?seq - ?pre)))
                (map (\<lambda>j. ?last + 1 + int j) [0..<nat (?seq - ?pre)])
         else Inr out) = Inr (blit out (nat ?S) (map (\<lambda>j. ?last + 1 + int j) [0..<nat (?seq - ?pre)]))"
      using S le by (auto intro!: slice_assign_exact)
    then show ?thesis
      using True m request_slots_old_page [OF ps0 True, of ?last ?pg]
      unfolding naive_row_def alloc_extend_naive_loop.simps(2) ceil_pages_def [symmetric] Let_def
      by (auto split: if_splits)
  next
    case False
    then have m: "min ?seq ?c - ?pre = ?c - ?pre" and neq: "?pre + (?c - ?pre) \<noteq> ?seq" by simp_all
    define n1 where "n1 = nat (?c - ?pre)"
    define n2 where "n2 = nat (?seq div ps * ps - ?c)"
    define n3 where "n3 = nat (?seq - ?seq div ps * ps)"
    define full where "full = nat (?seq div ps - ceil_pages ps ?pre)"
    have seq_eq: "?seq div ps * ps = ?seq - ?seq mod ps" "0 \<le> ?seq mod ps" "?seq mod ps < ps"
      using ps0 by (simp_all add: minus_mod_eq_div_mult)
    have q_le: "ceil_pages ps ?pre \<le> ?seq div ps"
      using False ps0 by (metis less_imp_le linorder_not_le nonzero_mult_div_cancel_right
          order_less_irrefl zdiv_mono1)
    have n2eq: "(?seq div ps - ceil_pages ps ?pre) * ps = ?seq div ps * ps - ?c"
      by (simp add: algebra_simps)
    have ns: "int n1 = ?c - ?pre" "int n2 = ?seq div ps * ps - ?c" "int n3 = ?seq - ?seq div ps * ps"
      "int full = ?seq div ps - ceil_pages ps ?pre" "n2 = full * page_sz"
    proof -
      show "int n1 = ?c - ?pre" using c by (simp add: n1_def)
      show "int full = ?seq div ps - ceil_pages ps ?pre" using q_le by (simp add: full_def)
      then have "int (full * page_sz) = ?seq div ps * ps - ?c" using n2eq by (simp add: ps_def)
      then show "int n2 = ?seq div ps * ps - ?c" "n2 = full * page_sz" unfolding n2_def by linarith+
      show "int n3 = ?seq - ?seq div ps * ps" using seq_eq by (simp add: n3_def)
    qed
    have room: "nat ?S + n1 + n2 + n3 \<le> length out" using S ns by linarith
    let ?p1 = "map (\<lambda>j. ?last + 1 + int j) [0..<n1]"
    let ?p2 = "map (\<lambda>j. ?pg (int j div ps) * ps + int j mod ps) [0..<n2]"
    let ?p3 = "map (\<lambda>j. ?pg (ceil_pages ps ?seq - ceil_pages ps ?pre - 1) * ps + int j) [0..<n3]"
    have slots: "request_slots ps ?pre ?seq ?last ?pg = ?p1 @ ?p2 @ ?p3"
      using request_slots_parts [OF ps0 c(1), of ?seq ?last ?pg] False
      unfolding n1_def n2_def n3_def by simp
    have step1: "(if ?c - ?pre \<noteq> 0
         then slice_assign out (nat ?S) (nat (?S + (?c - ?pre)))
                (map (\<lambda>j. ?last + 1 + int j) [0..<nat (?c - ?pre)])
         else Inr out) = Inr (blit out (nat ?S) ?p1)"
      using S c False by (auto simp: n1_def intro!: slice_assign_exact)
    have lo1: "length (blit out (nat ?S) ?p1) = length out" using room by simp
    have fullP: "nat ?P + full \<le> length pages"
      using P ns(4) by (auto simp: ceil_pages_eq [OF ps0, of ?seq] split: if_splits)
    have p2: "concat (map (page_slots (nat ps)) (py_slice pages (nat ?P)
        (nat (new_pages_before ps pre seq (Suc i) - (ceil_pages ps ?seq - ?seq div ps))))) = ?p2"
    proof -
      have "nat (new_pages_before ps pre seq (Suc i) - (ceil_pages ps ?seq - ?seq div ps)) = nat ?P + full"
        using P ns(4) by (simp add: new_pages_before_Suc)
      moreover have "nat (?P + int j div ps) = nat ?P + j div page_sz" for j
        using P(1) by (simp add: ps_def nat_add_distrib zdiv_int [symmetric])
      ultimately show ?thesis
        using concat_page_slots [OF fullP, of page_sz] ns(5)
        by (simp add: ps_def zmod_int)
    qed
    have step2: "(if (?seq div ps - ceil_pages ps ?pre) * ps \<noteq> 0
         then slice_assign (blit out (nat ?S) ?p1) (nat (?S + (?c - ?pre)))
                (nat (?S + (?c - ?pre) + (?seq div ps - ceil_pages ps ?pre) * ps)) ?p2
         else Inr (blit out (nat ?S) ?p1)) = Inr (blit out (nat ?S) (?p1 @ ?p2))"
    proof -
      have a: "nat (?S + (?c - ?pre)) = nat ?S + n1"
        "nat (?S + (?c - ?pre) + (?seq div ps - ceil_pages ps ?pre) * ps) = nat ?S + n1 + n2"
        using S(1) ns unfolding n2eq by linarith+
      have "slice_assign (blit out (nat ?S) ?p1) (nat ?S + n1) (nat ?S + n1 + n2) ?p2
          = Inr (blit out (nat ?S) (?p1 @ ?p2))"
        using slice_assign_exact [of ?p2 "nat ?S + n1 + n2" "nat ?S + n1" "blit out (nat ?S) ?p1"]
          blit_append [of "nat ?S" ?p1 out ?p2] room lo1 by simp
      moreover have "?p2 = []" if "(?seq div ps - ceil_pages ps ?pre) * ps = 0"
      proof -
        have "int n2 = 0" using that ns(2) n2eq by linarith
        then show ?thesis by simp
      qed
      ultimately show ?thesis unfolding a by auto
    qed
    have lo2: "length (blit out (nat ?S) (?p1 @ ?p2)) = length out" using room by simp
    show ?thesis
    proof (cases "n3 = 0")
      case True
      then have eq2: "?pre + (?c - ?pre) + (?seq div ps - ceil_pages ps ?pre) * ps = ?seq"
        unfolding n2eq using ns by linarith
      show ?thesis
        unfolding naive_row_def alloc_extend_naive_loop.simps(2) ceil_pages_def [symmetric] Let_def
          m step1 rbind_simps if_not_P [OF neq] p2 step2 if_P [OF eq2] slots
        using True by simp
    next
      case False
      then have neq2: "?pre + (?c - ?pre) + (?seq div ps - ceil_pages ps ?pre) * ps \<noteq> ?seq"
        and n3pos: "?seq - ?seq div ps * ps \<noteq> 0"
        unfolding n2eq using ns by linarith+
      have cs: "ceil_pages ps ?seq = ?seq div ps + 1"
        using n3pos seq_eq by (simp add: ceil_pages_eq [OF ps0])
      have idx: "nat (new_pages_before ps pre seq (Suc i) - 1) = nat (?P + (ceil_pages ps ?seq - ceil_pages ps ?pre - 1))"
        "nat (?P + (ceil_pages ps ?seq - ceil_pages ps ?pre - 1)) < length pages"
        using P q_le cs by (simp_all add: new_pages_before_Suc algebra_simps)
      have ends: "nat (extend_start pre seq (Suc i) - (?seq - ?seq div ps * ps)) = nat ?S + n1 + n2"
        "nat (extend_start pre seq (Suc i)) = nat ?S + n1 + n2 + n3"
        "nat (?seq - ?seq div ps * ps) = n3"
        using S(1) ns(1,2,3) unfolding extend_start_Suc by linarith+
      have "slice_assign (blit out (nat ?S) (?p1 @ ?p2)) (nat ?S + n1 + n2) (nat ?S + n1 + n2 + n3) ?p3
          = Inr (blit out (nat ?S) (?p1 @ ?p2 @ ?p3))"
        using slice_assign_exact [of ?p3 "nat ?S + n1 + n2 + n3" "nat ?S + n1 + n2" "blit out (nat ?S) (?p1 @ ?p2)"]
          blit_append [of "nat ?S" "?p1 @ ?p2" out ?p3] room lo2 by (simp add: add.assoc)
      then show ?thesis
        unfolding naive_row_def alloc_extend_naive_loop.simps(2) ceil_pages_def [symmetric] Let_def
          m step1 rbind_simps if_not_P [OF neq] p2 step2 if_not_P [OF neq2] if_P [OF n3pos] ends slots
        by (simp add: py_nth_def idx)
    qed
  qed
qed

lemma alloc_extend_naive_fold:
  assumes ps: "0 < page_sz" and b: "extend_batch pre seq lasts"
    and enough: "new_pages_before (int page_sz) pre seq (length pre) \<le> int (length pages)"
  shows "k \<le> length pre \<Longrightarrow> int (length out) = extend_start pre seq (length pre) \<Longrightarrow>
    alloc_extend_naive_loop (int page_sz) (map (naive_row (int page_sz) pre seq lasts) [k..<length pre]) pages out
    = Inr (blit out (nat (extend_start pre seq k))
        (concat (map (\<lambda>i. request_slots (int page_sz) (pre ! i) (seq ! i) (lasts ! i)
           (\<lambda>j. pages ! nat (new_pages_before (int page_sz) pre seq i + j))) [k..<length pre])))"
    (is "_ \<Longrightarrow> _ \<Longrightarrow> _ = Inr (blit _ _ (concat (map ?R _)))")
proof (induction "length pre - k" arbitrary: k out)
  case 0
  then show ?case by simp
next
  case (Suc m)
  let ?S = "extend_start pre seq"
  from Suc.hyps(2) have k: "k < length pre" by simp
  then have up: "[k..<length pre] = k # [Suc k..<length pre]" by (simp add: upt_conv_Cons)
  have le: "pre ! k \<le> seq ! k" by (rule extend_batchD(3) [OF b k])
  have nn: "0 \<le> ?S k" using extend_start_nonneg [OF b] k by simp
  have room: "?S (Suc k) \<le> int (length out)"
    using extend_start_mono [OF b, of "Suc k" "length pre"] k Suc.prems(2) by simp
  let ?out = "blit out (nat (?S k)) (?R k)"
  have lR: "nat (?S k) + length (?R k) = nat (?S (Suc k))"
    using nn le by (simp add: extend_start_Suc)
  have lo: "length ?out = length out" by (rule length_blit) (use lR room in linarith)
  have "alloc_extend_naive_loop (int page_sz) (map (naive_row (int page_sz) pre seq lasts) [k..<length pre]) pages out
      = alloc_extend_naive_loop (int page_sz) (map (naive_row (int page_sz) pre seq lasts) [Suc k..<length pre]) pages ?out"
    unfolding up list.map by (rule alloc_extend_naive_loop_slots [OF ps b enough Suc.prems(2) k])
  also have "\<dots> = Inr (blit ?out (nat (?S (Suc k))) (concat (map ?R [Suc k..<length pre])))"
    using Suc.hyps(1) [of "Suc k" ?out] Suc.hyps(2) k lo Suc.prems(2) by simp
  also have "blit ?out (nat (?S (Suc k))) (concat (map ?R [Suc k..<length pre]))
      = blit out (nat (?S k)) (?R k @ concat (map ?R [Suc k..<length pre]))"
    unfolding lR [symmetric] by (rule blit_append) (use lR room in linarith)
  finally show ?case unfolding up by simp
qed

lemma alloc_extend_naive_slots:
  assumes ps: "0 < page_sz" and b: "extend_batch pre seq lasts"
    and len: "int (length out) = extend_start pre seq (length pre)"
    and enough: "new_pages_before (int page_sz) pre seq (length pre) \<le> int (length pages)"
  shows "alloc_extend_naive pre seq lasts pages out page_sz
       = Inr (extend_slots (int page_sz) pre seq lasts pages)"
proof -
  let ?R = "\<lambda>i. request_slots (int page_sz) (pre ! i) (seq ! i) (lasts ! i)
                  (\<lambda>j. pages ! nat (new_pages_before (int page_sz) pre seq i + j))"
  have "length (concat (map ?R [0..<length pre])) = length out"
    using length_concat_slots [OF b order_refl] len by simp
  then have "blit out 0 (concat (map ?R [0..<length pre])) = extend_slots (int page_sz) pre seq lasts pages"
    unfolding extend_slots_def blit_def by simp
  then show ?thesis
    using alloc_extend_naive_fold [OF ps b enough, of 0 out] len
    unfolding alloc_extend_naive_rows [OF extend_batchD(1,2) [OF b]]
    by (simp add: extend_start_def)
qed

section \<open>Decode\<close>

lemma ceil_pages_pred:
  assumes "0 < ps"
  shows "ceil_pages ps s - ceil_pages ps (s - 1) = (if (s - 1) mod ps = 0 then 1 else 0)"
proof -
  have "ceil_pages ps s = (s - 1) div ps + 1"
    unfolding ceil_pages_def using assms div_add_self2 [of ps "s - 1"] by (simp add: algebra_simps)
  then show ?thesis by (simp add: ceil_pages_eq [OF assms, of "s - 1"])
qed

lemma request_slots_decode:
  assumes ps: "0 < ps"
  shows "request_slots ps (s - 1) s l pg =
     [if ceil_pages ps s - ceil_pages ps (s - 1) = 0 then l + 1 else pg 0 * ps]"
proof (cases "(s - 1) mod ps = 0")
  case True
  then have "ceil_pages ps (s - 1) * ps = s - 1"
    using ceil_pages_eq [OF ps, of "s - 1"] minus_mod_eq_div_mult [of "s - 1" ps] by simp
  then show ?thesis
    using True ceil_pages_pred [OF ps, of s] by (simp add: request_slots_def position_slot_def Let_def)
next
  case False
  have "s - 1 \<noteq> ceil_pages ps (s - 1) * ps"
  proof
    assume "s - 1 = ceil_pages ps (s - 1) * ps"
    then have "(s - 1) mod ps = (ceil_pages ps (s - 1) * ps) mod ps" by (rule arg_cong)
    with False show False by simp
  qed
  then have "s - 1 < ceil_pages ps (s - 1) * ps"
    using ceil_pages_bounds(1) [OF ps, of "s - 1"] by linarith
  then show ?thesis
    using False ceil_pages_pred [OF ps, of s] by (simp add: request_slots_def position_slot_def Let_def)
qed

lemma decode_pre_simps [simp]:
  "length (decode_pre seq) = length seq"
  "i < length seq \<Longrightarrow> decode_pre seq ! i = seq ! i - 1"
  by (simp_all add: decode_pre_def)

lemma extend_batch_decode: "length lasts = length seq \<Longrightarrow> extend_batch (decode_pre seq) seq lasts"
  by (simp add: extend_batch_def list_all2_conv_all_nth)

lemma extend_start_decode: "k \<le> length seq \<Longrightarrow> extend_start (decode_pre seq) seq k = int k"
  by (induction k) (simp_all add: extend_start_Suc, simp add: extend_start_def)

lemma alloc_decode_program_store:
  fixes page_sz :: nat
  defines "ps \<equiv> int page_sz"
  assumes ps: "0 < page_sz" and len: "pid < length seq" "length lasts = length seq" and lanes: "pid < lanes"
  shows "alloc_decode_program junk other seq lasts pages lanes page_sz pid out =
     tl_store out (int pid)
       (hd (request_slots ps (seq ! pid - 1) (seq ! pid) (lasts ! pid)
          (\<lambda>k. tl_load junk pages (new_pages_before ps (decode_pre seq) seq pid + k))))"
proof -
  let ?f = "\<lambda>s p. ceil_pages ps s - ceil_pages ps p"
  let ?lanes = "tl_load_masked junk other seq lanes (\<lambda>j. j \<le> pid)"
  have split: "[0..<lanes] = [0..<Suc pid] @ [Suc pid..<lanes]"
    using lanes by (metis Suc_leI le_add_diff_inverse upt_add_eq_append zero_le)
  have e1: "map2 ?f ?lanes (map2 (\<lambda>j s. if j \<le> pid then s - 1 else s) [0..<lanes] ?lanes)
      = map (\<lambda>j. if j \<le> pid then ?f (seq ! j) (seq ! j - 1) else 0) [0..<lanes]"
    by (rule nth_equalityI) (use len in \<open>auto simp: tl_load_masked_def tl_load_def\<close>)
  have e2: "map (\<lambda>j. if j \<le> pid then ?f (seq ! j) (seq ! j - 1) else 0) [0..<Suc pid]
      = map (\<lambda>j. ?f (seq ! j) (decode_pre seq ! j)) [0..<Suc pid]"
    using len by (intro map_cong) auto
  have e3: "map (\<lambda>j. if j \<le> pid then ?f (seq ! j) (seq ! j - 1) else 0) [Suc pid..<lanes]
      = map (\<lambda>_. 0) [Suc pid..<lanes]"
    by (intro map_cong) auto
  have sumP: "sum_list (map2 ?f ?lanes (map2 (\<lambda>j s. if j \<le> pid then s - 1 else s) [0..<lanes] ?lanes))
      = new_pages_before ps (decode_pre seq) seq (Suc pid)"
    unfolding e1 unfolding split map_append sum_list_append e2 e3 new_pages_before_def by simp
  have loads: "tl_load junk seq (int pid) = seq ! pid" "tl_load junk lasts (int pid) = lasts ! pid"
    using len by (simp_all add: tl_load_def)
  show ?thesis
    unfolding alloc_decode_program_def ps_def [symmetric] Let_def sumP loads
    using request_slots_decode [of ps "seq ! pid"] ps len
    by (simp add: ps_def new_pages_before_Suc)
qed

lemma alloc_decode_kernel_slots:
  assumes ps: "0 < page_sz" and len: "length lasts = length seq" "length out = length seq"
    and lanes: "length seq \<le> lanes"
    and enough: "new_pages_before (int page_sz) (decode_pre seq) seq (length seq) \<le> int (length pages)"
  shows "alloc_decode_kernel junk other (length seq) seq lasts pages out lanes page_sz
       = extend_slots (int page_sz) (decode_pre seq) seq lasts pages"
proof -
  let ?ps = "int page_sz" and ?pre = "decode_pre seq"
  have b: "extend_batch ?pre seq lasts" by (rule extend_batch_decode [OF len(1)])
  let ?h = "\<lambda>i. hd (request_slots ?ps (seq ! i - 1) (seq ! i) (lasts ! i)
                  (\<lambda>k. tl_load junk pages (new_pages_before ?ps ?pre seq i + k)))"
  have "fold (alloc_decode_program junk other seq lasts pages lanes page_sz) [0..<length seq] out
      = fold (\<lambda>j o'. tl_store o' (int 0 + int j) (?h j)) [0..<length seq] out"
    by (rule fold_cong) (use len lanes in \<open>auto simp: fun_eq_iff intro!: alloc_decode_program_store [OF ps]\<close>)
  also have "\<dots> = blit out 0 (map ?h [0..<length seq])"
    by (rule fold_stores_blit) (use len in simp)
  also have "\<dots> = map ?h [0..<length seq]" using len by (simp add: blit_def)
  also have "\<dots> = concat (map (\<lambda>i. [?h i]) [0..<length seq])" by simp
  also have "\<dots> = extend_slots ?ps ?pre seq lasts pages"
    unfolding extend_slots_def
  proof (intro arg_cong [where f = concat] map_cong)
    fix i assume "i \<in> set [0..<length (decode_pre seq)]"
    then have i: "i < length seq" by simp
    have "request_slots ?ps (seq ! i - 1) (seq ! i) (lasts ! i)
            (\<lambda>k. tl_load junk pages (new_pages_before ?ps ?pre seq i + k))
        = request_slots ?ps (seq ! i - 1) (seq ! i) (lasts ! i)
            (\<lambda>k. pages ! nat (new_pages_before ?ps ?pre seq i + k))"
    proof (rule request_slots_cong)
      fix k assume k: "0 \<le> k" "k < ceil_pages ?ps (seq ! i) - ceil_pages ?ps (seq ! i - 1)"
      have "new_pages_before ?ps ?pre seq (Suc i) \<le> int (length pages)"
        using new_pages_mono [OF _ b, of ?ps "Suc i" "length seq"] i ps enough by simp
      moreover have "0 \<le> new_pages_before ?ps ?pre seq i"
        using new_pages_nonneg [OF _ b, of ?ps i] i ps by simp
      ultimately show "tl_load junk pages (new_pages_before ?ps ?pre seq i + k)
          = pages ! nat (new_pages_before ?ps ?pre seq i + k)"
        using k i by (simp add: tl_load_def new_pages_before_Suc)
    qed (use ps in simp)
    moreover have "[hd (request_slots ?ps (seq ! i - 1) (seq ! i) l pg)]
        = request_slots ?ps (seq ! i - 1) (seq ! i) l pg" for l pg
      using ps by (subst (1 2) request_slots_decode) simp_all
    ultimately show "[?h i] = request_slots ?ps (?pre ! i) (seq ! i) (lasts ! i)
        (\<lambda>k. pages ! nat (new_pages_before ?ps ?pre seq i + k))"
      using i by (simp only: decode_pre_simps)
  qed simp
  finally show ?thesis unfolding alloc_decode_kernel_def .
qed

declare bit_length.simps [simp del]

lemma bit_length_bound: "n < 2 ^ bit_length n"
proof (induction n rule: bit_length.induct)
  case (1 n)
  show ?case
  proof (cases "n = 0")
    case False
    then have "n div 2 < 2 ^ bit_length (n div 2)" using 1 by simp
    then show ?thesis using False by (subst bit_length.simps) simp
  qed (simp add: bit_length.simps)
qed

lemma next_power_of_2_ge: "n \<le> next_power_of_2 n"
  using bit_length_bound [of "n - 1"] by (auto simp: next_power_of_2_def)

lemma get_num_new_pages_extend:
  assumes "length pre = length seq"
  shows "get_num_new_pages seq page_sz (Some pre) False = Inr (new_pages_before (int page_sz) pre seq (length pre))"
proof -
  have "map2 (\<lambda>s p. ceil_pages (int page_sz) s - ceil_pages (int page_sz) p) seq pre
      = map (\<lambda>j. ceil_pages (int page_sz) (seq ! j) - ceil_pages (int page_sz) (pre ! j)) [0..<length pre]"
    by (rule nth_equalityI) (use assms in simp_all)
  then show ?thesis by (simp add: get_num_new_pages_def new_pages_before_def)
qed

lemma get_num_new_pages_decode:
  assumes "1 < page_sz"
  shows "get_num_new_pages seq page_sz pre True
       = Inr (new_pages_before (int page_sz) (decode_pre seq) seq (length seq))"
proof -
  let ?ps = "int page_sz"
  have one: "(s mod ?ps = 1) \<longleftrightarrow> (s - 1) mod ?ps = 0" for s
    using assms mod_eq_dvd_iff [of s ?ps 1] by (simp add: mod_eq_0_iff_dvd)
  have "new_pages_before ?ps (decode_pre seq) seq k = int (length (filter (\<lambda>s. s mod ?ps = 1) (take k seq)))"
    if "k \<le> length seq" for k
    using that
  proof (induction k)
    case (Suc k)
    then have "ceil_pages ?ps (seq ! k) - ceil_pages ?ps (decode_pre seq ! k)
        = (if seq ! k mod ?ps = 1 then 1 else 0)"
      using assms ceil_pages_pred [of ?ps "seq ! k"] by (simp only: one decode_pre_simps)
    with Suc show ?case
      by (simp add: new_pages_before_Suc take_Suc_conv_app_nth del: decode_pre_simps(2))
  qed (simp add: new_pages_before_def)
  then show ?thesis by (simp add: get_num_new_pages_def)
qed

lemma position_slot_page:
  assumes ps: "0 < ps" and row: "(last_loc + 1) mod ps = pre_len mod ps" and p: "pre_len \<le> p"
  shows "position_slot ps pre_len last_loc page p mod ps = p mod ps"
    and "position_slot ps pre_len last_loc page p div ps =
         (if p < ceil_pages ps pre_len * ps then last_loc div ps
          else page ((p - ceil_pages ps pre_len * ps) div ps))"
proof -
  let ?c = "ceil_pages ps pre_len * ps"
  define r where "r = pre_len mod ps"
  have r: "0 \<le> r" "r < ps" using ps by (simp_all add: r_def)
  have "(last_loc + 1 + (p - pre_len)) mod ps = (pre_len + (p - pre_len)) mod ps"
    by (rule mod_add_cong [OF row refl])
  then show "position_slot ps pre_len last_loc page p mod ps = p mod ps"
    by (simp add: position_slot_def Let_def)
  have "position_slot ps pre_len last_loc page p div ps = last_loc div ps" if lt: "p < ?c"
  proof -
    have pre: "pre_len div ps * ps = pre_len - r" unfolding r_def by (rule minus_mod_eq_div_mult [symmetric])
    have "r \<noteq> 0" using lt p ceil_pages_eq [OF ps, of pre_len] pre by (auto simp: r_def)
    have c: "?c = pre_len - r + ps"
      using \<open>r \<noteq> 0\<close> pre by (simp add: ceil_pages_eq [OF ps, of pre_len] r_def algebra_simps)
    define q where "q = (last_loc + 1) div ps"
    have l: "last_loc + 1 = q * ps + r" unfolding q_def r_def row [symmetric] by simp
    have dm: "(x + q * ps) div ps = q + x div ps" for x
      by (rule div_mult_self1) (use ps in simp)
    have "last_loc = (r - 1) + q * ps" using l by simp
    then have "last_loc div ps = q + (r - 1) div ps" by (simp only: dm)
    moreover have "(r - 1) div ps = 0" using r \<open>r \<noteq> 0\<close> by (intro div_pos_pos_trivial) linarith+
    moreover have "last_loc + 1 + (p - pre_len) = (r + (p - pre_len)) + q * ps" using l by simp
    then have "(last_loc + 1 + (p - pre_len)) div ps = q + (r + (p - pre_len)) div ps" by (simp only: dm)
    moreover have "(r + (p - pre_len)) div ps = 0"
      using r p lt c by (intro div_pos_pos_trivial) linarith+
    ultimately show ?thesis using lt by (simp add: position_slot_def Let_def)
  qed
  moreover have "position_slot ps pre_len last_loc page p div ps = page ((p - ?c) div ps)" if "\<not> p < ?c"
    using that ps by (simp add: position_slot_def Let_def)
  ultimately show "position_slot ps pre_len last_loc page p div ps =
      (if p < ?c then last_loc div ps else page ((p - ?c) div ps))" by simp
qed

end
