(* ===== verification/Allocator.thy ===== *)
theory Allocator
  imports PagedKernels
begin

text \<open>
  The KV-slot allocators of \<open>srt/mem_cache/allocator\<close>: the base class, the token
  allocator (page size one) and the paged allocator, over the kernels of \<open>PagedKernels\<close>.
  Page ids and slot indices are \<open>int\<close>, a tensor of them is a list; page 0 is never
  handed out. The subclass extends the base class's record, so a base method works on both.
  The allocator of a cache is one of the two classes (\<open>kv_allocator\<close>), and a call on it
  dispatches on the class.
\<close>

section \<open>State\<close>

record base_allocator =
  alloc_size :: nat
  page_size :: nat
  need_sort :: bool
  free_pages :: "int list"
  release_pages :: "int list"
  free_group :: "int list list option"

record paged_allocator = base_allocator +
  num_pages :: nat
  debug_mode :: bool
  free_page_reps_group :: "int list list"

section \<open>Base class\<close>

definition base_available_size :: "'a base_allocator_scheme \<Rightarrow> nat" where
  "base_available_size a =
     (length (free_pages a) + length (release_pages a)) * page_size a"

definition base_free_group_begin :: "'a base_allocator_scheme \<Rightarrow> 'a base_allocator_scheme" where
  "base_free_group_begin a = a\<lparr>free_group := Some []\<rparr>"

definition merge_and_sort_free :: "'a base_allocator_scheme \<Rightarrow> 'a base_allocator_scheme" where
  "merge_and_sort_free a =
     (if length (release_pages a) > 0
      then a\<lparr>free_pages := sort (free_pages a @ release_pages a), release_pages := []\<rparr>
      else a)"

text \<open>
  \<open>free_segments\<close>: the loop over \<open>(free_index, start_pos)\<close> segments. It calls the
  class's own \<open>free_segment\<close>, here the argument \<open>seg\<close>.
\<close>

fun free_segments_loop ::
  "nat \<Rightarrow> ('s \<Rightarrow> int list \<Rightarrow> nat \<Rightarrow> 's result) \<Rightarrow> nat option \<Rightarrow> (int list \<times> nat) list \<Rightarrow> 's \<Rightarrow> 's result"
where
  "free_segments_loop ps seg prev_end [] a = Inr a"
| "free_segments_loop ps seg prev_end ((free_index, start_pos) # segments) a =
     (let n = length free_index
      in if n = 0 then free_segments_loop ps seg prev_end segments a
         else
           let seg_end = start_pos + n;
               (idx, st) =
                 (case prev_end of
                    Some e \<Rightarrow>
                      if start_pos div ps = (e - 1) div ps
                      then let boundary = (start_pos div ps + 1) * ps
                           in (drop (boundary - start_pos) free_index, boundary)
                      else (free_index, start_pos)
                  | None \<Rightarrow> (free_index, start_pos))
           in rbind (seg a idx st) (\<lambda>a'. free_segments_loop ps seg (Some seg_end) segments a'))"

section \<open>Token allocator\<close>

definition token_clear :: "base_allocator \<Rightarrow> base_allocator" where
  "token_clear a =
     a\<lparr>free_pages := torch_arange 1 (alloc_size a + 1), free_group := None, release_pages := []\<rparr>"

definition token_init :: "nat \<Rightarrow> bool \<Rightarrow> base_allocator" where
  "token_init sz sorting =
     token_clear \<lparr>alloc_size = sz, page_size = 1, need_sort = sorting,
       free_pages = [], release_pages = [], free_group = None\<rparr>"

definition token_available_size :: "base_allocator \<Rightarrow> nat" where
  "token_available_size a = length (free_pages a) + length (release_pages a)"

definition token_alloc :: "base_allocator \<Rightarrow> nat \<Rightarrow> int list option \<times> base_allocator" where
  "token_alloc a need_size =
     (let a1 = (if need_sort a \<and> need_size > length (free_pages a)
                then merge_and_sort_free a else a)
      in if need_size > length (free_pages a1) then (None, a1)
         else (Some (take need_size (free_pages a1)),
               a1\<lparr>free_pages := drop need_size (free_pages a1)\<rparr>))"

definition token_free :: "base_allocator \<Rightarrow> int list \<Rightarrow> base_allocator" where
  "token_free a free_index =
     (if free_index = [] then a
      else case free_group a of
        None \<Rightarrow>
          if need_sort a then a\<lparr>release_pages := release_pages a @ free_index\<rparr>
          else a\<lparr>free_pages := free_pages a @ free_index\<rparr>
      | Some g \<Rightarrow> a\<lparr>free_group := Some (g @ [free_index])\<rparr>)"

definition token_free_group_end :: "base_allocator \<Rightarrow> base_allocator" where
  "token_free_group_end a =
     (let pending = free_group a; a1 = a\<lparr>free_group := None\<rparr>
      in case pending of
           None \<Rightarrow> a1
         | Some g \<Rightarrow> if g = [] then a1 else token_free a1 (concat g))"

definition token_free_segment :: "base_allocator \<Rightarrow> int list \<Rightarrow> nat \<Rightarrow> base_allocator" where
  "token_free_segment a free_index start_pos = token_free a free_index"

section \<open>Paged allocator\<close>

definition paged_clear :: "paged_allocator \<Rightarrow> paged_allocator" where
  "paged_clear a =
     a\<lparr>free_pages := torch_arange 1 (num_pages a + 1), free_group := None,
       free_page_reps_group := [], release_pages := []\<rparr>"

definition paged_init :: "nat \<Rightarrow> nat \<Rightarrow> bool \<Rightarrow> bool \<Rightarrow> paged_allocator" where
  "paged_init sz ps sorting debug =
     paged_clear \<lparr>alloc_size = sz, page_size = ps, need_sort = sorting,
       free_pages = [], release_pages = [], free_group = None,
       num_pages = sz div ps, debug_mode = debug, free_page_reps_group = []\<rparr>"

definition paged_alloc ::
  "paged_allocator \<Rightarrow> nat \<Rightarrow> (int list option \<times> paged_allocator) result" where
  "paged_alloc a need_size =
     rbind (assert_that (\<not> debug_mode a \<or> need_size mod page_size a = 0)) (\<lambda>_.
       let num = need_size div page_size a;
           a1 = (if need_sort a \<and> num > length (free_pages a) then merge_and_sort_free a else a)
       in if num > length (free_pages a1) then Inr (None, a1)
          else let out_pages = take num (free_pages a1);
                   a2 = a1\<lparr>free_pages := drop num (free_pages a1)\<rparr>
               in Inr (Some (concat (map (page_slots (page_size a2)) out_pages)), a2))"

definition debug_check_no_duplicate_pages :: "paged_allocator \<Rightarrow> unit result" where
  "debug_check_no_duplicate_pages a =
     (let pages = free_pages a @ release_pages a
      in assert_that (length (torch_unique pages) = length pages))"

definition release_page_ids :: "paged_allocator \<Rightarrow> int list list \<Rightarrow> paged_allocator" where
  "release_page_ids a page_ids =
     (if need_sort a then a\<lparr>release_pages := concat page_ids @ release_pages a\<rparr>
      else a\<lparr>free_pages := concat page_ids @ free_pages a\<rparr>)"

definition pages_of :: "nat \<Rightarrow> int list \<Rightarrow> int list" where
  "pages_of ps xs = map (\<lambda>i. i div int ps) xs"

definition check_if_debug :: "paged_allocator \<Rightarrow> paged_allocator result" where
  "check_if_debug a =
     (if debug_mode a then rbind (debug_check_no_duplicate_pages a) (\<lambda>_. Inr a) else Inr a)"

definition paged_free :: "paged_allocator \<Rightarrow> int list \<Rightarrow> paged_allocator result" where
  "paged_free a free_index =
     (if free_index = [] then Inr a
      else
        check_if_debug
          (case free_group a of
             None \<Rightarrow> release_page_ids a [torch_unique (pages_of (page_size a) free_index)]
           | Some g \<Rightarrow> a\<lparr>free_group := Some (g @ [free_index])\<rparr>))"

definition segment_pieces :: "nat \<Rightarrow> int list \<Rightarrow> nat \<Rightarrow> int list list" where
  "segment_pieces ps free_index start_pos =
     (let offset = start_pos mod ps
      in if offset = 0 then [stride ps free_index]
         else [take 1 free_index, stride ps (drop (ps - offset) free_index)])"

definition paged_free_segment ::
  "paged_allocator \<Rightarrow> int list \<Rightarrow> nat \<Rightarrow> paged_allocator result" where
  "paged_free_segment a free_index start_pos =
     (if free_index = [] then Inr a
      else
        let ps = page_size a; pieces = segment_pieces ps free_index start_pos
        in rbind
             (assert_that (\<not> debug_mode a \<or>
                sort (concat (map (pages_of ps) pieces)) = torch_unique (pages_of ps free_index)))
             (\<lambda>_. if free_group a = None
                  then check_if_debug (release_page_ids a (map (pages_of ps) pieces))
                  else Inr (a\<lparr>free_page_reps_group := free_page_reps_group a @ pieces\<rparr>)))"

definition paged_free_group_begin :: "paged_allocator \<Rightarrow> paged_allocator" where
  "paged_free_group_begin a = (base_free_group_begin a)\<lparr>free_page_reps_group := []\<rparr>"

definition paged_free_group_end :: "paged_allocator \<Rightarrow> paged_allocator result" where
  "paged_free_group_end a =
     (let pending = free_group a; a1 = a\<lparr>free_group := None\<rparr>
      in rbind
           (case pending of
              None \<Rightarrow> Inr a1
            | Some g \<Rightarrow> if g = [] then Inr a1 else paged_free a1 (concat g))
           (\<lambda>a2. check_if_debug
              (if free_page_reps_group a2 \<noteq> []
               then (release_page_ids a2
                       [pages_of (page_size a2) (concat (free_page_reps_group a2))])
                      \<lparr>free_page_reps_group := []\<rparr>
               else a2)))"

section \<open>Allocation for prefill and decode\<close>

definition paged_alloc_extend ::
  "(int \<Rightarrow> int) \<Rightarrow> int \<Rightarrow> paged_allocator \<Rightarrow> int list \<Rightarrow> int list \<Rightarrow> int list \<Rightarrow> nat \<Rightarrow> int option
    \<Rightarrow> (int list option \<times> paged_allocator) result" where
  "paged_alloc_extend junk other a prefix_lens seq_lens last_loc extend_num_tokens num_new =
     rbind
       (assert_that (\<not> debug_mode a \<or>
          list_all2 (\<lambda>l p. (l + 1) mod int (page_size a) = p mod int (page_size a))
            last_loc prefix_lens))
     (\<lambda>_.
       let bs = length prefix_lens;
           a1 = (if need_sort a \<and> extend_num_tokens div page_size a + bs + 1 > length (free_pages a)
                 then merge_and_sort_free a else a);
           out_indices = alloc_extend_kernel junk other bs prefix_lens seq_lens last_loc
             (free_pages a1) (map (\<lambda>i. junk (int i)) [0..<extend_num_tokens])
             (next_power_of_2 bs) (page_size a1)
       in rbind (assert_that (\<not> debug_mode a \<or> length (torch_unique out_indices) = length out_indices))
     (\<lambda>_. rbind
            (case num_new of Some n \<Rightarrow> Inr n
             | None \<Rightarrow> get_num_new_pages seq_lens (page_size a1) (Some prefix_lens) False)
     (\<lambda>n. if n > int (length (free_pages a1)) then Inr (None, a1)
          else Inr (Some out_indices, a1\<lparr>free_pages := drop (nat n) (free_pages a1)\<rparr>))))"

definition paged_alloc_decode ::
  "(int \<Rightarrow> int) \<Rightarrow> int \<Rightarrow> paged_allocator \<Rightarrow> int list \<Rightarrow> int list
    \<Rightarrow> (int list option \<times> paged_allocator) result" where
  "paged_alloc_decode junk other a seq_lens last_loc =
     rbind
       (assert_that (\<not> debug_mode a \<or>
          list_all2 (\<lambda>l s. (l + 2) mod int (page_size a) = s mod int (page_size a))
            last_loc seq_lens))
     (\<lambda>_.
       let bs = length seq_lens;
           a1 = (if need_sort a \<and> bs > length (free_pages a) then merge_and_sort_free a else a);
           out_indices = alloc_decode_kernel junk other bs seq_lens last_loc
             (free_pages a1) (map (\<lambda>i. junk (int i)) [0..<bs]) (next_power_of_2 bs) (page_size a1)
       in rbind (assert_that (\<not> debug_mode a \<or> length (torch_unique out_indices) = length out_indices))
     (\<lambda>_. rbind (get_num_new_pages seq_lens (page_size a1) None True)
     (\<lambda>n. if n > int (length (free_pages a1)) then Inr (None, a1)
          else Inr (Some out_indices, a1\<lparr>free_pages := drop (nat n) (free_pages a1)\<rparr>))))"

section \<open>Either class behind one interface\<close>

datatype kv_allocator = TokenAlloc base_allocator | PagedAlloc paged_allocator

definition kv_free_segment :: "kv_allocator \<Rightarrow> int list \<Rightarrow> nat \<Rightarrow> kv_allocator result" where
  "kv_free_segment al free_index start_pos =
     (case al of
        TokenAlloc a \<Rightarrow> Inr (TokenAlloc (token_free_segment a free_index start_pos))
      | PagedAlloc a \<Rightarrow> map_sum id PagedAlloc (paged_free_segment a free_index start_pos))"

definition kv_free :: "kv_allocator \<Rightarrow> int list \<Rightarrow> kv_allocator result" where
  "kv_free al free_index =
     (case al of
        TokenAlloc a \<Rightarrow> Inr (TokenAlloc (token_free a free_index))
      | PagedAlloc a \<Rightarrow> map_sum id PagedAlloc (paged_free a free_index))"

definition kv_page_size :: "kv_allocator \<Rightarrow> nat" where
  "kv_page_size al = (case al of TokenAlloc a \<Rightarrow> page_size a | PagedAlloc a \<Rightarrow> page_size a)"

definition kv_free_segments :: "kv_allocator \<Rightarrow> (int list \<times> nat) list \<Rightarrow> kv_allocator result" where
  "kv_free_segments al segments =
     free_segments_loop (kv_page_size al) kv_free_segment None segments al"

definition kv_alloc :: "kv_allocator \<Rightarrow> nat \<Rightarrow> (int list option \<times> kv_allocator) result" where
  "kv_alloc al need_size =
     (case al of
        TokenAlloc a \<Rightarrow> Inr (map_prod id TokenAlloc (token_alloc a need_size))
      | PagedAlloc a \<Rightarrow> map_sum id (map_prod id PagedAlloc) (paged_alloc a need_size))"

definition kv_available_size :: "kv_allocator \<Rightarrow> nat" where
  "kv_available_size al =
     (case al of TokenAlloc a \<Rightarrow> token_available_size a | PagedAlloc a \<Rightarrow> base_available_size a)"

section \<open>Specification\<close>

text \<open>
  A stretch of a request's KV row that starts at token position \<open>start\<close>: position \<open>p\<close> of
  the row lives in the page \<open>T (p div ps)\<close> at offset \<open>p mod ps\<close>.
\<close>

definition paged_row :: "nat \<Rightarrow> (nat \<Rightarrow> int) \<Rightarrow> nat \<Rightarrow> int list \<Rightarrow> bool" where
  "paged_row ps T start xs \<longleftrightarrow>
     (\<forall>i < length xs. xs ! i = T ((start + i) div ps) * int ps + int ((start + i) mod ps))"

definition row_pages :: "nat \<Rightarrow> (nat \<Rightarrow> int) \<Rightarrow> nat \<Rightarrow> nat \<Rightarrow> int list" where
  "row_pages ps T start n = map T [start div ps..<ceil_div (start + n) ps]"

text \<open>
  The invariant of the free lists: no page twice, none out of range, nothing queued in a
  free group, and pages wait in \<open>release_pages\<close> only under \<open>need_sort\<close>.
\<close>

abbreviation held_free :: "'a base_allocator_scheme \<Rightarrow> int list" where
  "held_free a \<equiv> free_pages a @ release_pages a"

definition base_inv :: "nat \<Rightarrow> 'a base_allocator_scheme \<Rightarrow> bool" where
  "base_inv n a \<longleftrightarrow>
     0 < page_size a \<and> free_group a = None \<and> distinct (held_free a) \<and>
     set (held_free a) \<subseteq> {1..int n} \<and> (need_sort a \<or> release_pages a = [])"

definition token_inv :: "base_allocator \<Rightarrow> bool" where
  "token_inv a \<longleftrightarrow> base_inv (alloc_size a) a \<and> page_size a = 1"

definition paged_inv :: "paged_allocator \<Rightarrow> bool" where
  "paged_inv a \<longleftrightarrow> base_inv (num_pages a) a \<and> free_page_reps_group a = []"

definition slot_pages :: "nat \<Rightarrow> int list \<Rightarrow> int set" where
  "slot_pages ps xs = (\<lambda>i. i div int ps) ` set xs"

text \<open>A client of the pool: a list of allocations and of releases of a block it still holds.\<close>

datatype pool_op = PAlloc nat | PFree nat

fun pool_run ::
  "('a \<Rightarrow> nat \<Rightarrow> (int list option \<times> 'a) result) \<Rightarrow> ('a \<Rightarrow> int list \<Rightarrow> 'a result)
    \<Rightarrow> pool_op list \<Rightarrow> 'a \<times> int list list \<Rightarrow> ('a \<times> int list list) result"
where
  "pool_run al fr [] s = Inr s"
| "pool_run al fr (PAlloc n # ops) (a, held) =
     rbind (al a n) (\<lambda>(out, a').
       pool_run al fr ops (a', case out of None \<Rightarrow> held | Some xs \<Rightarrow> held @ [xs]))"
| "pool_run al fr (PFree i # ops) (a, held) =
     rbind (py_nth held i) (\<lambda>xs. rbind (fr a xs)
       (\<lambda>a'. pool_run al fr ops (a', take i held @ drop (Suc i) held)))"

definition ledger :: "nat \<Rightarrow> int set \<Rightarrow> int set \<Rightarrow> int list list \<Rightarrow> bool" where
  "ledger ps cap av held \<longleftrightarrow>
     av \<union> slot_pages ps (concat held) = cap \<and> av \<inter> slot_pages ps (concat held) = {} \<and>
     sorted_wrt (\<lambda>xs ys. slot_pages ps xs \<inter> slot_pages ps ys = {}) held \<and> list_all distinct held"

definition kv_inv :: "kv_allocator \<Rightarrow> bool" where
  "kv_inv al = (case al of TokenAlloc a \<Rightarrow> token_inv a | PagedAlloc a \<Rightarrow> paged_inv a)"

definition kv_capacity :: "kv_allocator \<Rightarrow> int set" where
  "kv_capacity al =
     (case al of TokenAlloc a \<Rightarrow> {1..int (alloc_size a)} | PagedAlloc a \<Rightarrow> {1..int (num_pages a)})"

definition kv_avail :: "kv_allocator \<Rightarrow> int set" where
  "kv_avail al = (case al of TokenAlloc a \<Rightarrow> set (held_free a) | PagedAlloc a \<Rightarrow> set (held_free a))"

section \<open>Rows laid out in pages\<close>

lemma paged_row_page:
  "0 < ps \<Longrightarrow> paged_row ps T start xs \<Longrightarrow> i < length xs \<Longrightarrow> xs ! i div int ps = T ((start + i) div ps)"
  by (simp add: paged_row_def)

lemma paged_row_drop: "paged_row ps T start xs \<Longrightarrow> paged_row ps T (start + k) (drop k xs)"
  by (simp add: paged_row_def add.assoc)

lemma paged_row_take: "paged_row ps T start xs \<Longrightarrow> paged_row ps T start (take k xs)"
  by (simp add: paged_row_def)

lemma div_image_range:
  assumes ps: "0 < ps" and n: "0 < n"
  shows "(\<lambda>i. (start + i) div ps) ` {..<n} = {start div ps..<ceil_div (start + n) ps}"
proof (intro equalityI subsetI)
  fix q assume "q \<in> (\<lambda>i. (start + i) div ps) ` {..<n}"
  then obtain i where i: "i < n" "q = (start + i) div ps" by auto
  have "(start + i) div ps * ps \<le> start + i" by simp
  also have "\<dots> < start + n" using i by simp
  finally have "q * ps < start + n" by (simp only: i)
  with i show "q \<in> {start div ps..<ceil_div (start + n) ps}"
    by (simp add: less_ceil_div [OF ps] div_le_mono)
next
  fix q assume q: "q \<in> {start div ps..<ceil_div (start + n) ps}"
  then have lt: "q * ps < start + n" by (simp add: less_ceil_div [OF ps])
  show "q \<in> (\<lambda>i. (start + i) div ps) ` {..<n}"
  proof (cases "q * ps \<le> start")
    case True
    then have "q \<le> start div ps" using ps by (simp add: less_eq_div_iff_mult_less_eq)
    then have "q = start div ps" using q by simp
    then show ?thesis using n by (auto intro!: image_eqI [where x = 0])
  next
    case False
    then show ?thesis using lt ps by (auto intro!: image_eqI [where x = "q * ps - start"])
  qed
qed

lemma set_pages_of_row:
  assumes ps: "0 < ps" and row: "paged_row ps T start xs" and ne: "xs \<noteq> []"
  shows "set (pages_of ps xs) = set (row_pages ps T start (length xs))"
proof -
  have "pages_of ps xs = map (\<lambda>i. T ((start + i) div ps)) [0..<length xs]"
    by (rule nth_equalityI) (simp_all add: pages_of_def paged_row_page [OF ps row])
  then have "set (pages_of ps xs) = T ` (\<lambda>i. (start + i) div ps) ` {..<length xs}"
    by (auto simp: image_image atLeast0LessThan)
  then show ?thesis using div_image_range [OF ps, of "length xs" start] ne by (simp add: row_pages_def)
qed

lemma stride_pages_aligned:
  assumes ps: "0 < ps" and row: "paged_row ps T (q * ps) xs"
  shows "pages_of ps (stride ps xs) = map T [q..<q + ceil_div (length xs) ps]"
proof -
  have "pages_of ps (stride ps xs) = map (\<lambda>i. T (i + q)) [0..<ceil_div (length xs) ps]"
    unfolding stride_nth [OF ps] pages_of_def map_map comp_def
  proof (rule map_cong [OF refl])
    fix i assume "i \<in> set [0..<ceil_div (length xs) ps]"
    then have "i * ps < length xs" by (simp add: less_ceil_div [OF ps])
    from paged_row_page [OF ps row this] show "xs ! (i * ps) div int ps = T (i + q)"
      using ps by (simp add: add.commute flip: add_mult_distrib)
  qed
  also have "\<dots> = map T (map (\<lambda>i. i + q) [0..<ceil_div (length xs) ps])" by simp
  finally show ?thesis by (simp only: map_add_upt add.commute)
qed

lemma segment_pieces_pages:
  assumes ps: "0 < ps" and row: "paged_row ps T start xs" and ne: "xs \<noteq> []"
  shows "concat (map (pages_of ps) (segment_pieces ps xs start)) = row_pages ps T start (length xs)"
proof (cases "start mod ps = 0")
  case True
  define q where "q = start div ps"
  have s: "start = q * ps" using True by (auto simp: q_def)
  have "ceil_div (start + length xs) ps = q + ceil_div (length xs) ps"
    using ceil_div_add_mult [OF ps, of q "length xs"] ne by (simp add: s)
  then show ?thesis
    using True row stride_pages_aligned [OF ps, of T q xs] ps
    by (simp add: segment_pieces_def row_pages_def s)
next
  case False
  define q where "q = start div ps"
  define k where "k = ps - start mod ps"
  have s: "start + k = Suc q * ps" "0 < k" "k < ps"
  proof -
    have "start = q * ps + start mod ps" by (simp add: q_def)
    moreover have "start mod ps < ps" using ps by simp
    ultimately show "start + k = Suc q * ps" "0 < k" "k < ps" using False by (auto simp: k_def)
  qed
  have hd: "pages_of ps (take 1 xs) = [T q]"
    using paged_row_page [OF ps row, of 0] ne by (cases xs) (simp_all add: pages_of_def q_def)
  have tl: "pages_of ps (stride ps (drop k xs)) = map T [Suc q..<Suc q + ceil_div (length xs - k) ps]"
    using stride_pages_aligned [OF ps, of T "Suc q" "drop k xs"] paged_row_drop [OF row, of k] s by simp
  have "ceil_div (start + length xs) ps = Suc q + ceil_div (length xs - k) ps"
  proof (cases "k < length xs")
    case True
    then have "start + length xs = Suc q * ps + (length xs - k)" using s by simp
    then show ?thesis using ceil_div_add_mult [OF ps, of "Suc q" "length xs - k"] True by simp
  next
    case False
    have e: "start + length xs = q * ps + (start mod ps + length xs)" by (simp add: q_def)
    have r: "0 < start mod ps + length xs" "start mod ps + length xs \<le> ps"
      using False ne mod_less_divisor [OF ps, of start] unfolding k_def by (simp, linarith)
    then show ?thesis
      unfolding e ceil_div_add_mult [OF ps] ceil_div_small [OF r] using False ps by simp
  qed
  then have "row_pages ps T start (length xs) = T q # map T [Suc q..<Suc q + ceil_div (length xs - k) ps]"
    by (simp add: row_pages_def upt_conv_Cons q_def [symmetric] del: upt_Suc)
  then show ?thesis
    using False hd tl by (simp add: segment_pieces_def k_def Let_def)
qed

section \<open>Keeping the invariant\<close>

lemma set_pages_of [simp]: "set (pages_of ps xs) = slot_pages ps xs"
  by (simp add: pages_of_def slot_pages_def)

lemma slot_pages_append [simp]: "slot_pages ps (xs @ ys) = slot_pages ps xs \<union> slot_pages ps ys"
  by (simp add: slot_pages_def image_Un)

lemma slot_pages_Nil [simp]: "slot_pages ps [] = {}"
  by (simp add: slot_pages_def)

lemma slot_pages_1 [simp]: "slot_pages (Suc 0) xs = set xs"
  by (simp add: slot_pages_def)

lemma slot_pages_page_slots:
  assumes "0 < ps"
  shows "slot_pages ps (page_slots ps p) = {p}"
proof -
  have "(p * int ps + int j) div int ps = p" if "j < ps" for j
    using that assms by simp
  then show ?thesis
    using assms by (auto simp: slot_pages_def page_slots_def image_iff intro!: bexI [where x = 0])
qed

lemma slot_pages_concat:
  "0 < ps \<Longrightarrow> slot_pages ps (concat (map (page_slots ps) qs)) = set qs"
  by (induction qs) (simp_all add: slot_pages_page_slots)

lemma distinct_concat_page_slots:
  assumes "0 < ps" "distinct qs"
  shows "distinct (concat (map (page_slots ps) qs))"
  using assms(2)
proof (induction qs)
  case (Cons q qs)
  have "set (page_slots ps q) \<inter> set (concat (map (page_slots ps) qs)) = {}"
  proof (rule ccontr)
    assume "\<not> ?thesis"
    then obtain x where "x \<in> set (page_slots ps q)" "x \<in> set (concat (map (page_slots ps) qs))" by blast
    then have "x div int ps \<in> slot_pages ps (page_slots ps q)"
      "x div int ps \<in> slot_pages ps (concat (map (page_slots ps) qs))"
      unfolding slot_pages_def by (auto intro: imageI)
    then show False using Cons.prems assms(1) by (simp add: slot_pages_page_slots slot_pages_concat)
  qed
  moreover have "distinct (page_slots ps q)"
    by (simp add: page_slots_def distinct_map inj_on_def)
  ultimately show ?case using Cons by simp
qed simp

lemma length_concat_page_slots: "length (concat (map (page_slots ps) qs)) = length qs * ps"
  by (induction qs) (simp_all add: page_slots_def)

lemma merge_and_sort_free_facts:
  shows "mset (held_free (merge_and_sort_free a)) = mset (held_free a)"
    and "set (held_free (merge_and_sort_free a)) = set (held_free a)"
    and "distinct (held_free (merge_and_sort_free a)) \<longleftrightarrow> distinct (held_free a)"
    and "release_pages (merge_and_sort_free a) = []"
    and "page_size (merge_and_sort_free a) = page_size a"
    and "alloc_size (merge_and_sort_free a) = alloc_size a"
    and "free_group (merge_and_sort_free a) = free_group a"
    and "need_sort (merge_and_sort_free a) = need_sort a"
    and "length (free_pages (merge_and_sort_free a)) = length (held_free a)"
  by (auto simp: merge_and_sort_free_def)

lemma merge_and_sort_free_paged:
  fixes a :: paged_allocator
  shows "num_pages (merge_and_sort_free a) = num_pages a"
    and "debug_mode (merge_and_sort_free a) = debug_mode a"
    and "free_page_reps_group (merge_and_sort_free a) = free_page_reps_group a"
  by (auto simp: merge_and_sort_free_def)

lemmas merge_facts = merge_and_sort_free_facts merge_and_sort_free_paged

lemma base_inv_merge: "base_inv n a \<Longrightarrow> base_inv n (merge_and_sort_free a)"
  using merge_and_sort_free_facts [of a] by (simp add: base_inv_def)

text \<open>Taking a prefix of the free pages.\<close>

lemma base_inv_take:
  assumes "base_inv n a" "k \<le> length (free_pages a)"
  shows "base_inv n (a\<lparr>free_pages := drop k (free_pages a)\<rparr>)"
    and "set (held_free (a\<lparr>free_pages := drop k (free_pages a)\<rparr>))
         = set (held_free a) - set (take k (free_pages a))"
    and "distinct (take k (free_pages a))"
    and "set (take k (free_pages a)) \<subseteq> set (held_free a)"
proof -
  have split: "free_pages a = take k (free_pages a) @ drop k (free_pages a)" by simp
  have d: "distinct (take k (free_pages a) @ drop k (free_pages a) @ release_pages a)"
    using assms(1) by (simp add: base_inv_def del: distinct_append) (simp flip: append_assoc)
  then show "distinct (take k (free_pages a))" by simp
  show "set (take k (free_pages a)) \<subseteq> set (held_free a)" by (auto dest: in_set_takeD)
  show "base_inv n (a\<lparr>free_pages := drop k (free_pages a)\<rparr>)"
    using assms(1) d by (auto simp: base_inv_def dest: in_set_dropD)
  have "set (held_free a) = set (take k (free_pages a)) \<union> set (drop k (free_pages a)) \<union> set (release_pages a)"
    by (metis set_append split append_assoc)
  then show "set (held_free (a\<lparr>free_pages := drop k (free_pages a)\<rparr>))
         = set (held_free a) - set (take k (free_pages a))"
    using d by auto
qed

section \<open>The interface a cache relies on\<close>

locale slot_pool =
  fixes pool_inv :: "'a \<Rightarrow> bool"
    and capacity :: "'a \<Rightarrow> int set"
    and avail :: "'a \<Rightarrow> int set"
    and psize :: "'a \<Rightarrow> nat"
    and alloc :: "'a \<Rightarrow> nat \<Rightarrow> (int list option \<times> 'a) result"
    and free :: "'a \<Rightarrow> int list \<Rightarrow> 'a result"
  assumes psize_pos: "pool_inv a \<Longrightarrow> 0 < psize a"
    and avail_capacity: "pool_inv a \<Longrightarrow> finite (avail a) \<and> avail a \<subseteq> capacity a"
    and alloc_ok: "pool_inv a \<Longrightarrow> n mod psize a = 0 \<Longrightarrow> \<exists>r. alloc a n = Inr r"
    and alloc_keeps:
      "pool_inv a \<Longrightarrow> alloc a n = Inr (res, a') \<Longrightarrow>
       pool_inv a' \<and> capacity a' = capacity a \<and> psize a' = psize a"
    and alloc_none:
      "pool_inv a \<Longrightarrow> alloc a n = Inr (None, a') \<Longrightarrow> avail a' = avail a \<and> card (avail a) * psize a < n"
    and alloc_some:
      "pool_inv a \<Longrightarrow> alloc a n = Inr (Some out, a') \<Longrightarrow>
       distinct out \<and> length out = n div psize a * psize a \<and>
       slot_pages (psize a) out \<subseteq> avail a \<and> avail a' = avail a - slot_pages (psize a) out"
    and free_ok:
      "pool_inv a \<Longrightarrow> distinct xs \<Longrightarrow> slot_pages (psize a) xs \<inter> avail a = {} \<Longrightarrow>
       slot_pages (psize a) xs \<subseteq> capacity a \<Longrightarrow>
       \<exists>a'. free a xs = Inr a' \<and> pool_inv a' \<and> capacity a' = capacity a \<and> psize a' = psize a \<and>
            avail a' = avail a \<union> slot_pages (psize a) xs"
begin

lemma alloc_free_restores:
  assumes "pool_inv a" "alloc a n = Inr (Some out, a1)"
  shows "\<exists>a2. free a1 out = Inr a2 \<and> pool_inv a2 \<and> avail a2 = avail a"
proof -
  note k = alloc_keeps [OF assms] and s = alloc_some [OF assms]
  have "distinct out" "slot_pages (psize a1) out \<inter> avail a1 = {}" "slot_pages (psize a1) out \<subseteq> capacity a1"
    using k s avail_capacity [OF assms(1)] by auto
  from free_ok [OF conjunct1 [OF k] this] show ?thesis using k s by auto
qed

lemma run_ledger:
  "pool_inv a \<Longrightarrow> ledger (psize a) (capacity a) (avail a) held \<Longrightarrow>
   pool_run alloc free ops (a, held) = Inr (a', held') \<Longrightarrow>
   pool_inv a' \<and> capacity a' = capacity a \<and> psize a' = psize a \<and>
   ledger (psize a) (capacity a) (avail a') held'"
proof (induction ops arbitrary: a held)
  case (Cons op ops)
  show ?case
  proof (cases op)
    case (PAlloc n)
    from Cons.prems(3) obtain out a1 where al: "alloc a n = Inr (out, a1)"
      and rest: "pool_run alloc free ops
        (a1, case out of None \<Rightarrow> held | Some xs \<Rightarrow> held @ [xs]) = Inr (a', held')"
      by (auto simp: PAlloc rbind_eq_Inr)
    note k = alloc_keeps [OF Cons.prems(1) al]
    have "ledger (psize a1) (capacity a1) (avail a1) (case out of None \<Rightarrow> held | Some xs \<Rightarrow> held @ [xs])"
    proof (cases out)
      case None
      then show ?thesis using alloc_none [OF Cons.prems(1)] al k Cons.prems(2) by simp
    next
      case (Some xs)
      note s = alloc_some [OF Cons.prems(1) al [unfolded Some]]
      have "slot_pages (psize a) ys \<inter> slot_pages (psize a) xs = {}" if "ys \<in> set held" for ys
      proof -
        have "slot_pages (psize a) ys \<subseteq> slot_pages (psize a) (concat held)"
          using that by (auto simp: slot_pages_def)
        then show ?thesis using s Cons.prems(2) unfolding ledger_def by blast
      qed
      then show ?thesis
        using s k Cons.prems(2) Some unfolding ledger_def by (auto simp: sorted_wrt_append)
    qed
    from Cons.IH [OF conjunct1 [OF k] this rest] show ?thesis using k by simp
  next
    case (PFree i)
    from Cons.prems(3) obtain a1 where i: "i < length held" and fr: "free a (held ! i) = Inr a1"
      and rest: "pool_run alloc free ops (a1, take i held @ drop (Suc i) held) = Inr (a', held')"
      by (auto simp: PFree rbind_eq_Inr py_nth_def split: if_splits)
    let ?ps = "psize a" and ?pre = "take i held" and ?post = "drop (Suc i) held"
    have split: "held = ?pre @ held ! i # ?post" using i by (simp add: id_take_nth_drop)
    have srt: "sorted_wrt (\<lambda>xs ys. slot_pages ?ps xs \<inter> slot_pages ?ps ys = {}) (?pre @ held ! i # ?post)"
      and un: "avail a \<union> slot_pages ?ps (concat (?pre @ held ! i # ?post)) = capacity a"
      and dj: "avail a \<inter> slot_pages ?ps (concat (?pre @ held ! i # ?post)) = {}"
      using Cons.prems(2) split unfolding ledger_def by simp_all
    have dist: "list_all distinct (?pre @ held ! i # ?post)"
      using Cons.prems(2) split unfolding ledger_def by simp
    have "slot_pages ?ps (held ! i) \<inter> slot_pages ?ps (concat (?pre @ ?post)) = {}"
      using srt unfolding sorted_wrt_append by (auto simp: slot_pages_def)
    moreover obtain a2 where a2: "free a (held ! i) = Inr a2" "pool_inv a2" "capacity a2 = capacity a"
        "psize a2 = ?ps" "avail a2 = avail a \<union> slot_pages ?ps (held ! i)"
      using free_ok [OF Cons.prems(1), of "held ! i"] un dj dist by auto
    moreover have "sorted_wrt (\<lambda>xs ys. slot_pages ?ps xs \<inter> slot_pages ?ps ys = {}) (?pre @ ?post)"
      using srt by (simp add: sorted_wrt_append)
    ultimately have "ledger (psize a2) (capacity a2) (avail a2) (?pre @ ?post)"
      unfolding ledger_def using un dj dist by auto
    moreover have "a1 = a2" using fr a2(1) by simp
    ultimately show ?thesis
      using Cons.IH [of a1 "?pre @ ?post"] rest a2 by simp
  qed
qed auto

end

section \<open>Both classes provide it\<close>

lemmas kv_defs = kv_inv_def kv_capacity_def kv_avail_def kv_page_size_def

lemma token_alloc_cases:
  assumes "token_inv a"
  shows "(case token_alloc a n of
     (None, a') \<Rightarrow> token_inv a' \<and> alloc_size a' = alloc_size a \<and> set (held_free a') = set (held_free a) \<and>
                   card (set (held_free a)) < n
   | (Some out, a') \<Rightarrow> token_inv a' \<and> alloc_size a' = alloc_size a \<and> distinct out \<and> length out = n \<and>
                   set out \<subseteq> set (held_free a) \<and> set (held_free a') = set (held_free a) - set out)"
proof -
  define a1 where "a1 = (if need_sort a \<and> n > length (free_pages a) then merge_and_sort_free a else a)"
  have inv: "base_inv (alloc_size a) a1" "page_size a1 = 1" "alloc_size a1 = alloc_size a"
    "set (held_free a1) = set (held_free a)"
    using assms base_inv_merge [of "alloc_size a" a] merge_and_sort_free_facts [of a]
    unfolding a1_def token_inv_def by auto
  show ?thesis
  proof (cases "n > length (free_pages a1)")
    case True
    have "length (free_pages a1) = length (held_free a)"
      using True assms merge_and_sort_free_facts(9) [of a]
      unfolding a1_def token_inv_def base_inv_def by (auto split: if_splits)
    then have "card (set (held_free a)) < n"
      using True assms by (metis distinct_card token_inv_def base_inv_def)
    moreover have "token_alloc a n = (None, a1)"
      using True by (simp add: token_alloc_def a1_def [symmetric])
    ultimately show ?thesis using inv by (simp add: token_inv_def)
  next
    case False
    then have "token_alloc a n = (Some (take n (free_pages a1)), a1\<lparr>free_pages := drop n (free_pages a1)\<rparr>)"
      by (simp add: token_alloc_def a1_def [symmetric])
    then show ?thesis
      using base_inv_take [OF inv(1), of n] False inv by (simp add: token_inv_def)
  qed
qed

lemma token_free_facts:
  assumes "token_inv a" "set xs \<inter> set (held_free a) = {}" "set xs \<subseteq> {1..int (alloc_size a)}" "distinct xs"
  shows "token_inv (token_free a xs) \<and> alloc_size (token_free a xs) = alloc_size a \<and>
     set (held_free (token_free a xs)) = set (held_free a) \<union> set xs"
  using assms by (auto simp: token_free_def token_inv_def base_inv_def split: option.splits)

lemma paged_alloc_cases:
  assumes "paged_inv a" "paged_alloc a n = Inr (res, a')"
  shows "paged_inv a' \<and> num_pages a' = num_pages a \<and> page_size a' = page_size a \<and>
    (case res of
       None \<Rightarrow> set (held_free a') = set (held_free a) \<and> card (set (held_free a)) < n div page_size a
     | Some out \<Rightarrow> distinct out \<and> length out = n div page_size a * page_size a \<and>
         slot_pages (page_size a) out \<subseteq> set (held_free a) \<and>
         set (held_free a') = set (held_free a) - slot_pages (page_size a) out)"
proof -
  let ?ps = "page_size a"
  define k where "k = n div ?ps"
  define a1 where "a1 = (if need_sort a \<and> k > length (free_pages a) then merge_and_sort_free a else a)"
  have ps: "0 < ?ps" using assms(1) by (simp add: paged_inv_def base_inv_def)
  have inv: "base_inv (num_pages a) a1" "page_size a1 = ?ps" "num_pages a1 = num_pages a"
    "free_page_reps_group a1 = []" "set (held_free a1) = set (held_free a)"
    using assms(1) base_inv_merge [of "num_pages a" a] merge_facts [of a]
    unfolding a1_def paged_inv_def by auto
  show ?thesis
  proof (cases "k > length (free_pages a1)")
    case True
    have "length (free_pages a1) = length (held_free a)"
      using True assms merge_and_sort_free_facts(9) [of a]
      unfolding a1_def paged_inv_def base_inv_def by (auto split: if_splits)
    then have "card (set (held_free a)) < k"
      using True assms(1) by (metis distinct_card paged_inv_def base_inv_def)
    moreover have "res = None" "a' = a1"
      using True assms(2) by (auto simp: paged_alloc_def a1_def [symmetric] k_def [symmetric] Let_def rbind_eq_Inr)
    ultimately show ?thesis using inv by (simp add: paged_inv_def k_def)
  next
    case False
    let ?t = "take k (free_pages a1)"
    have r: "res = Some (concat (map (page_slots ?ps) ?t))" "a' = a1\<lparr>free_pages := drop k (free_pages a1)\<rparr>"
      using False assms(2) inv(2)
      by (auto simp: paged_alloc_def a1_def [symmetric] k_def [symmetric] Let_def rbind_eq_Inr)
    note t = base_inv_take [OF inv(1), of k]
    show ?thesis
      using t False inv unfolding r
      by (simp add: paged_inv_def slot_pages_concat [OF ps] distinct_concat_page_slots [OF ps]
          length_concat_page_slots k_def)
  qed
qed

lemma release_page_ids_facts:
  assumes "paged_inv a" "distinct (concat qs)" "set (concat qs) \<inter> set (held_free a) = {}"
    "set (concat qs) \<subseteq> {1..int (num_pages a)}"
  shows "paged_inv (release_page_ids a qs)" "num_pages (release_page_ids a qs) = num_pages a"
    "page_size (release_page_ids a qs) = page_size a"
    "set (held_free (release_page_ids a qs)) = set (held_free a) \<union> set (concat qs)"
  using assms by (auto simp: release_page_ids_def paged_inv_def base_inv_def)

lemma check_if_debug_ok: "paged_inv a \<Longrightarrow> check_if_debug a = Inr a"
  by (simp add: check_if_debug_def debug_check_no_duplicate_pages_def paged_inv_def base_inv_def
      torch_unique_def distinct_remdups_id del: distinct_append)

lemma paged_free_facts:
  assumes "paged_inv a" "slot_pages (page_size a) xs \<inter> set (held_free a) = {}"
    "slot_pages (page_size a) xs \<subseteq> {1..int (num_pages a)}"
  shows "\<exists>a'. paged_free a xs = Inr a' \<and> paged_inv a' \<and> num_pages a' = num_pages a \<and>
    page_size a' = page_size a \<and> set (held_free a') = set (held_free a) \<union> slot_pages (page_size a) xs"
proof (cases "xs = []")
  case False
  let ?q = "[torch_unique (pages_of (page_size a) xs)]"
  note r = release_page_ids_facts [OF assms(1), of ?q]
  have "free_group a = None" using assms(1) by (simp add: paged_inv_def base_inv_def)
  then have "paged_free a xs = check_if_debug (release_page_ids a ?q)" using False by (simp add: paged_free_def)
  then show ?thesis using r assms check_if_debug_ok [OF r(1)] by auto
qed (use assms in \<open>simp add: paged_free_def\<close>)

lemma kv_alloc_cases:
  assumes "kv_inv al" "kv_alloc al n = Inr (res, al')"
  shows "kv_inv al' \<and> kv_capacity al' = kv_capacity al \<and> kv_page_size al' = kv_page_size al \<and>
    (case res of
       None \<Rightarrow> kv_avail al' = kv_avail al \<and> card (kv_avail al) < n div kv_page_size al
     | Some out \<Rightarrow> distinct out \<and> length out = n div kv_page_size al * kv_page_size al \<and>
         slot_pages (kv_page_size al) out \<subseteq> kv_avail al \<and>
         kv_avail al' = kv_avail al - slot_pages (kv_page_size al) out)"
proof (cases al)
  case (TokenAlloc a)
  obtain a' where a': "token_alloc a n = (res, a')" "al' = TokenAlloc a'"
    using assms(2) TokenAlloc by (cases "token_alloc a n") (auto simp: kv_alloc_def)
  have inv: "token_inv a" using assms(1) TokenAlloc by (simp add: kv_inv_def)
  then have "page_size a = 1" by (simp add: token_inv_def)
  then show ?thesis
    using token_alloc_cases [OF inv, of n] a' TokenAlloc
    by (cases res) (auto simp: kv_defs token_inv_def simp del: set_append)
next
  case (PagedAlloc a)
  obtain a' where a': "paged_alloc a n = Inr (res, a')" "al' = PagedAlloc a'"
    using assms(2) PagedAlloc by (cases "paged_alloc a n") (auto simp: kv_alloc_def)
  have inv: "paged_inv a" using assms(1) PagedAlloc by (simp add: kv_inv_def)
  show ?thesis
    using paged_alloc_cases [OF inv a'(1)] a'(2) PagedAlloc
    by (cases res) (simp_all add: kv_defs del: set_append)
qed

lemma kv_alloc_ok: "n mod kv_page_size al = 0 \<Longrightarrow> \<exists>r. kv_alloc al n = Inr r"
  by (cases al) (auto simp: kv_page_size_def kv_alloc_def paged_alloc_def Let_def)

lemma kv_free_facts:
  assumes "kv_inv al" "distinct xs" "slot_pages (kv_page_size al) xs \<inter> kv_avail al = {}"
    "slot_pages (kv_page_size al) xs \<subseteq> kv_capacity al"
  shows "\<exists>al'. kv_free al xs = Inr al' \<and> kv_inv al' \<and> kv_capacity al' = kv_capacity al \<and>
    kv_page_size al' = kv_page_size al \<and> kv_avail al' = kv_avail al \<union> slot_pages (kv_page_size al) xs"
proof (cases al)
  case (TokenAlloc a)
  then have "page_size a = 1" using assms(1) by (simp add: kv_inv_def token_inv_def)
  then show ?thesis
    using token_free_facts [of a xs] assms TokenAlloc
    by (auto simp: kv_defs kv_free_def token_inv_def simp del: set_append)
next
  case (PagedAlloc a)
  then show ?thesis
    using paged_free_facts [of a xs] assms by (auto simp: kv_defs kv_free_def simp del: set_append)
qed

lemma kv_inv_basic: "kv_inv al \<Longrightarrow> 0 < kv_page_size al \<and> finite (kv_avail al) \<and> kv_avail al \<subseteq> kv_capacity al"
  by (cases al) (auto simp: kv_defs token_inv_def paged_inv_def base_inv_def)

interpretation kvp: slot_pool kv_inv kv_capacity kv_avail kv_page_size kv_alloc kv_free
proof (unfold_locales, goal_cases)
  case (5 a n a')
  have "card (kv_avail a) < n div kv_page_size a" using kv_alloc_cases [OF 5] by simp
  then have "card (kv_avail a) * kv_page_size a < n div kv_page_size a * kv_page_size a"
    using kv_inv_basic [OF 5(1)] by simp
  also have "\<dots> \<le> n" by simp
  finally show ?case using kv_alloc_cases [OF 5] by simp
next
  case (4 a n res a')
  then show ?case using kv_alloc_cases by blast
next
  case (6 a n out a')
  then show ?case using kv_alloc_cases [OF 6] by simp
qed (use kv_inv_basic kv_alloc_ok kv_free_facts in \<open>simp_all\<close>)

section \<open>Freeing the rows of a request\<close>

lemma segment_pieces_unique:
  assumes ps: "0 < ps" and row: "paged_row ps T start xs" and ne: "xs \<noteq> []"
    and inj: "inj_on T {start div ps..<ceil_div (start + length xs) ps}"
  shows "distinct (concat (map (pages_of ps) (segment_pieces ps xs start)))"
    and "sort (concat (map (pages_of ps) (segment_pieces ps xs start))) = torch_unique (pages_of ps xs)"
proof -
  show d: "distinct (concat (map (pages_of ps) (segment_pieces ps xs start)))"
    unfolding segment_pieces_pages [OF ps row ne] row_pages_def distinct_map using inj by simp
  show "sort (concat (map (pages_of ps) (segment_pieces ps xs start))) = torch_unique (pages_of ps xs)"
    by (rule torch_unique_of_distinct [OF d])
      (simp only: segment_pieces_pages [OF ps row ne] set_pages_of_row [OF ps row ne])
qed

lemma set_segment_pages:
  assumes "0 < ps" "paged_row ps T start xs" "xs \<noteq> []"
  shows "set (concat (map (pages_of ps) (segment_pieces ps xs start))) = slot_pages ps xs"
  unfolding segment_pieces_pages [OF assms] using set_pages_of_row [OF assms] by simp

lemma paged_free_segment_facts:
  assumes inv: "paged_inv a" and row: "paged_row (page_size a) T start xs"
    and inj: "inj_on T {start div page_size a..<ceil_div (start + length xs) (page_size a)}"
    and dj: "slot_pages (page_size a) xs \<inter> set (held_free a) = {}"
    and cap: "slot_pages (page_size a) xs \<subseteq> {1..int (num_pages a)}"
  shows "\<exists>a'. paged_free_segment a xs start = Inr a' \<and> paged_inv a' \<and> num_pages a' = num_pages a \<and>
    page_size a' = page_size a \<and> set (held_free a') = set (held_free a) \<union> slot_pages (page_size a) xs"
proof (cases "xs = []")
  case False
  let ?ps = "page_size a"
  let ?q = "map (pages_of ?ps) (segment_pieces ?ps xs start)"
  have ps: "0 < ?ps" and g: "free_group a = None" using inv by (simp_all add: paged_inv_def base_inv_def)
  note sp = segment_pieces_unique [OF ps row False inj] and st = set_segment_pages [OF ps row False]
  note r = release_page_ids_facts [OF inv sp(1), unfolded st, OF dj cap]
  have "paged_free_segment a xs start = Inr (release_page_ids a ?q)"
    using False g sp check_if_debug_ok [OF r(1)] by (simp add: paged_free_segment_def Let_def)
  then show ?thesis using r by simp
qed (use inv in \<open>simp add: paged_free_segment_def\<close>)

lemma paged_row_1: "paged_row (Suc 0) T start xs \<Longrightarrow> xs = map T [start..<start + length xs]"
  by (rule nth_equalityI) (simp_all add: paged_row_def)

lemma kv_free_segment_facts:
  assumes inv: "kv_inv al" and row: "paged_row (kv_page_size al) T start xs"
    and inj: "inj_on T {start div kv_page_size al..<ceil_div (start + length xs) (kv_page_size al)}"
    and dj: "slot_pages (kv_page_size al) xs \<inter> kv_avail al = {}"
    and cap: "slot_pages (kv_page_size al) xs \<subseteq> kv_capacity al"
  shows "\<exists>al'. kv_free_segment al xs start = Inr al' \<and> kv_inv al' \<and> kv_capacity al' = kv_capacity al \<and>
    kv_page_size al' = kv_page_size al \<and> kv_avail al' = kv_avail al \<union> slot_pages (kv_page_size al) xs"
proof (cases al)
  case (TokenAlloc a)
  then have ps: "kv_page_size al = Suc 0" using inv by (simp add: kv_defs token_inv_def)
  have "inj_on T {start..<start + length xs}" using inj by (simp add: ps ceil_div_def)
  then have "distinct (map T [start..<start + length xs])" by (simp add: distinct_map)
  then have "distinct xs" using paged_row_1 [of T start xs] row ps by simp
  then show ?thesis
    using kv_free_facts [OF inv _ dj cap] TokenAlloc
    by (simp add: kv_free_segment_def kv_free_def token_free_segment_def)
next
  case (PagedAlloc a)
  then show ?thesis
    using paged_free_segment_facts [of a T start xs] assms
    by (auto simp: kv_defs kv_free_segment_def simp del: set_append)
qed

lemma paged_row_code [code]:
  "paged_row ps T start xs \<longleftrightarrow>
     xs = map (\<lambda>p. T (p div ps) * int ps + int (p mod ps)) [start..<start + length xs]"
proof -
  have "xs = map f [start..<start + length xs] \<longleftrightarrow> (\<forall>i < length xs. xs ! i = f (start + i))" for f :: "nat \<Rightarrow> int"
    by (subst list_eq_iff_nth_eq) simp
  then show ?thesis by (simp add: paged_row_def)
qed

section \<open>Properties\<close>

text \<open>
  C7: No page is lost, shared or handed out twice: run any sequence of allocations and of releases of blocks still held, on either allocator, and the free pages together with the pages of the blocks held are exactly the pool, the two are disjoint, and no two held blocks share a page.
\<close>

theorem pool_never_leaks:
  assumes "kv_inv al" "ledger (kv_page_size al) (kv_capacity al) (kv_avail al) held"
    and "pool_run kv_alloc kv_free ops (al, held) = Inr (al', held')"
  shows "kv_inv al' \<and> kv_capacity al' = kv_capacity al \<and>
    ledger (kv_page_size al) (kv_capacity al) (kv_avail al') held'"
  using kvp.run_ledger [OF assms] by simp

theorem pool_never_leaks_witness:
  "\<exists>al' held'. pool_run kv_alloc kv_free [PAlloc 8, PAlloc 4, PFree 0] (PagedAlloc (paged_init 16 4 False True), []) = Inr (al', held') \<and>
     ledger 4 {1..4} (kv_avail al') held'"
proof -
  let ?al = "PagedAlloc (paged_init 16 4 False True)"
  have "is_ok (pool_run kv_alloc kv_free [PAlloc 8, PAlloc 4, PFree 0] (?al, []))" by code_simp
  then obtain al' held' where r: "pool_run kv_alloc kv_free [PAlloc 8, PAlloc 4, PFree 0] (?al, []) = Inr (al', held')"
    by (auto elim: is_okE)
  have h: "free_pages (paged_init 16 4 False True) = [1, 2, 3, 4]"
    by (simp add: paged_init_def paged_clear_def torch_arange_def upt_rec)
  have "kv_inv ?al" "kv_page_size ?al = 4" "kv_capacity ?al = {1..4}" "kv_avail ?al = {1..4}"
    using h by (auto simp: kv_defs paged_inv_def base_inv_def paged_init_def paged_clear_def)
  then show ?thesis using pool_never_leaks [OF _ _ r] r by (auto simp: ledger_def)
qed

text \<open>
  C29: free_segment, which finds the pages of a stretch of a row by position arithmetic, leaves the same set of free pages as the reference free, which divides every slot and deduplicates; the duplicate-page assertion of the debug mode never fires.
\<close>

theorem free_segment_equals_free:
  assumes "kv_inv al" "paged_row (kv_page_size al) T start xs"
    and "inj_on T {start div kv_page_size al..<ceil_div (start + length xs) (kv_page_size al)}"
    and "slot_pages (kv_page_size al) xs \<inter> kv_avail al = {}" "slot_pages (kv_page_size al) xs \<subseteq> kv_capacity al"
    and "distinct xs"
  shows "\<exists>al1 al2. kv_free_segment al xs start = Inr al1 \<and> kv_free al xs = Inr al2 \<and>
    kv_inv al1 \<and> kv_inv al2 \<and> kv_avail al1 = kv_avail al2 \<and> kv_capacity al1 = kv_capacity al2"
  using kv_free_segment_facts [OF assms(1-5)] kvp.free_ok [OF assms(1,6,4,5)] by auto

theorem free_segment_equals_free_witness:
  "\<exists>al al1 al2. al = TokenAlloc \<lparr>alloc_size = 3, page_size = 1, need_sort = True, free_pages = [1],
       release_pages = [], free_group = None\<rparr> \<and>
     kv_free_segment al [2, 3] 0 = Inr al1 \<and> kv_free al [2, 3] = Inr al2 \<and> kv_avail al1 = kv_avail al2"
proof -
  let ?al = "TokenAlloc \<lparr>alloc_size = 3, page_size = 1, need_sort = True, free_pages = [1],
       release_pages = [], free_group = None\<rparr>"
  have ps: "kv_page_size ?al = 1" by (simp add: kv_page_size_def)
  have "paged_row 1 (\<lambda>q. int q + 2) 0 [2, 3]"
    by code_simp
  moreover have "inj_on (\<lambda>q. int q + 2) A" for A by (simp add: inj_on_def)
  moreover have "kv_inv ?al" "kv_avail ?al = {1}" "kv_capacity ?al = {1..3}" "slot_pages 1 [2, 3] = {2, 3}"
    by (auto simp: kv_defs token_inv_def base_inv_def slot_pages_def)
  ultimately show ?thesis
    using free_segment_equals_free [of ?al "\<lambda>q. int q + 2" 0 "[2, 3]"] unfolding ps by auto
qed

end
