(* ===== verification/AllocatorFree.thy ===== *)
theory AllocatorFree
  imports Allocator
begin

text \<open>
  Returning the KV slots of requests: \<open>free_segments\<close> on the segments of one request's row,
  and the free group in which the scheduler batches its releases. A page that two
  neighbouring segments share is released once, and a group releases what its calls would
  have released one by one.
\<close>

section \<open>Specification\<close>

definition seg_page_nos :: "nat \<Rightarrow> int list \<Rightarrow> nat \<Rightarrow> nat set" where
  "seg_page_nos ps xs st = (\<lambda>i. (st + i) div ps) ` {..<length xs}"

definition later_page :: "nat \<Rightarrow> nat option \<Rightarrow> nat \<Rightarrow> bool" where
  "later_page ps prev_end q = (case prev_end of None \<Rightarrow> True | Some e \<Rightarrow> (e - 1) div ps < q)"

definition segs_page_nos :: "nat \<Rightarrow> nat option \<Rightarrow> (int list \<times> nat) list \<Rightarrow> nat set" where
  "segs_page_nos ps prev_end segs =
     {q \<in> (\<Union>(xs, st) \<in> set segs. seg_page_nos ps xs st). later_page ps prev_end q}"

definition row_segments :: "nat \<Rightarrow> (nat \<Rightarrow> int) \<Rightarrow> nat \<Rightarrow> (int list \<times> nat) list \<Rightarrow> bool" where
  "row_segments ps T n segs \<longleftrightarrow>
     (\<forall>(xs, st) \<in> set segs. paged_row ps T st xs \<and> st + length xs \<le> n) \<and>
     sorted_wrt (\<lambda>(xs, st) (ys, st'). st + length xs \<le> st') segs"

datatype group_op = GFree "int list" | GSeg "int list" nat

primrec op_slots :: "group_op \<Rightarrow> int list" where
  "op_slots (GFree xs) = xs"
| "op_slots (GSeg xs st) = xs"

fun group_run :: "group_op list \<Rightarrow> paged_allocator \<Rightarrow> paged_allocator result" where
  "group_run [] a = Inr a"
| "group_run (GFree xs # ops) a = rbind (paged_free a xs) (group_run ops)"
| "group_run (GSeg xs st # ops) a = rbind (paged_free_segment a xs st) (group_run ops)"

definition grouped_frees :: "group_op list \<Rightarrow> paged_allocator \<Rightarrow> paged_allocator result" where
  "grouped_frees ops a = rbind (group_run ops (paged_free_group_begin a)) paged_free_group_end"

fun group_frees :: "group_op list \<Rightarrow> int list list" where
  "group_frees [] = []"
| "group_frees (GFree xs # ops) = (if xs = [] then [] else [xs]) @ group_frees ops"
| "group_frees (GSeg xs st # ops) = group_frees ops"

fun group_reps :: "nat \<Rightarrow> group_op list \<Rightarrow> int list list" where
  "group_reps ps [] = []"
| "group_reps ps (GFree xs # ops) = group_reps ps ops"
| "group_reps ps (GSeg xs st # ops) = (if xs = [] then [] else segment_pieces ps xs st) @ group_reps ps ops"

fun group_seg_pages :: "nat \<Rightarrow> group_op list \<Rightarrow> int set" where
  "group_seg_pages ps [] = {}"
| "group_seg_pages ps (GFree xs # ops) = group_seg_pages ps ops"
| "group_seg_pages ps (GSeg xs st # ops) = slot_pages ps xs \<union> group_seg_pages ps ops"

fun group_ok :: "nat \<Rightarrow> group_op list \<Rightarrow> bool" where
  "group_ok ps [] \<longleftrightarrow> True"
| "group_ok ps (GFree xs # ops) \<longleftrightarrow> group_ok ps ops \<and> slot_pages ps xs \<inter> group_seg_pages ps ops = {}"
| "group_ok ps (GSeg xs st # ops) \<longleftrightarrow> group_ok ps ops \<and>
     (\<exists>T. paged_row ps T st xs \<and> inj_on T {st div ps..<ceil_div (st + length xs) ps}) \<and>
     slot_pages ps xs \<inter> slot_pages ps (concat (map op_slots ops)) = {}"

section \<open>Page numbers of a segment\<close>

lemma slot_pages_row: "0 < ps \<Longrightarrow> paged_row ps T st xs \<Longrightarrow> slot_pages ps xs = T ` seg_page_nos ps xs st"
proof -
  assume a: "0 < ps" "paged_row ps T st xs"
  have "slot_pages ps xs = (\<lambda>i. xs ! i div int ps) ` {..<length xs}"
    by (auto simp: slot_pages_def set_conv_nth)
  then show ?thesis
    by (auto simp: seg_page_nos_def image_image paged_row_page [OF a] intro!: image_cong)
qed

lemma seg_page_nos_bounds:
  "q \<in> seg_page_nos ps xs st \<Longrightarrow> st div ps \<le> q \<and> q \<le> (st + length xs - 1) div ps"
  by (auto simp: seg_page_nos_def intro: div_le_mono)

lemma seg_page_nos_last: "xs \<noteq> [] \<Longrightarrow> (st + length xs - 1) div ps \<in> seg_page_nos ps xs st"
  by (auto simp: seg_page_nos_def Suc_le_eq intro!: image_eqI [where x = "length xs - 1"] arg_cong [where f = "\<lambda>x. x div ps"])

lemma seg_page_nos_below: "0 < ps \<Longrightarrow> st + length xs \<le> n \<Longrightarrow> seg_page_nos ps xs st \<subseteq> {..<ceil_div n ps}"
proof (clarsimp simp: seg_page_nos_def less_ceil_div)
  fix i assume "i < length xs" "st + length xs \<le> n"
  moreover have "(st + i) div ps * ps \<le> st + i" by simp
  ultimately show "(st + i) div ps * ps < n" by linarith
qed

lemma seg_page_nos_range:
  "0 < ps \<Longrightarrow> xs \<noteq> [] \<Longrightarrow> seg_page_nos ps xs st = {st div ps..<ceil_div (st + length xs) ps}"
  unfolding seg_page_nos_def by (rule div_image_range) simp_all

text \<open>The trimmed segment covers exactly the pages that come after the previous segment's.\<close>

lemma trimmed_page_nos:
  assumes ps: "0 < ps" and e: "e \<le> st" "0 < e" and same: "st div ps = (e - 1) div ps"
  shows "seg_page_nos ps (drop ((st div ps + 1) * ps - st) xs) ((st div ps + 1) * ps)
       = {q \<in> seg_page_nos ps xs st. (e - 1) div ps < q}"
proof -
  define k where "k = (st div ps + 1) * ps - st"
  have k: "st + k = (st div ps + 1) * ps"
  proof -
    have "st = st div ps * ps + st mod ps" by simp
    moreover have "st mod ps < ps" using ps by simp
    ultimately have "st \<le> (st div ps + 1) * ps" unfolding add_mult_distrib by linarith
    then show ?thesis by (simp add: k_def)
  qed
  have later: "st div ps < (st + i) div ps \<longleftrightarrow> k \<le> i" for i
  proof -
    have "st div ps < (st + i) div ps \<longleftrightarrow> (st div ps + 1) * ps \<le> st + i"
      using less_eq_div_iff_mult_less_eq [OF ps, of "Suc (st div ps)" "st + i"]
      unfolding Suc_le_eq by simp
    then show ?thesis unfolding k [symmetric] by simp
  qed
  have after: "{i \<in> {..<length xs}. st div ps < (st + i) div ps} = {k..<length xs}"
    unfolding later by auto
  have "{q \<in> seg_page_nos ps xs st. st div ps < q}
      = (\<lambda>i. (st + i) div ps) ` {i \<in> {..<length xs}. st div ps < (st + i) div ps}"
    unfolding seg_page_nos_def by blast
  also have "\<dots> = (\<lambda>i. (st + i) div ps) ` (\<lambda>j. k + j) ` {..<length xs - k}"
  proof -
    have "{k..<length xs} = (\<lambda>j. j + k) ` {0..<length xs - k}"
      by (cases "k \<le> length xs") (simp_all add: image_add_atLeastLessThan' add.commute)
    then show ?thesis unfolding after by (simp add: add.commute lessThan_atLeast0)
  qed
  finally show ?thesis
    unfolding seg_page_nos_def k_def [symmetric] k [symmetric] same [symmetric]
    by (simp add: image_image add.assoc)
qed

lemma later_page_None [simp]: "later_page ps None q"
  by (simp add: later_page_def)

lemma later_page_Some [simp]: "later_page ps (Some e) q \<longleftrightarrow> (e - 1) div ps < q"
  by (simp add: later_page_def)

lemma segs_page_nos_Nil [simp]: "segs_page_nos ps prev [] = {}"
  by (simp add: segs_page_nos_def)

lemma seg_page_nos_Nil [simp]: "seg_page_nos ps [] st = {}"
  by (simp add: seg_page_nos_def)

lemma segs_page_nos_skip: "segs_page_nos ps prev (([], st) # segs) = segs_page_nos ps prev segs"
  by (simp add: segs_page_nos_def)

text \<open>
  A segment contributes its later pages, and the segments after it the pages past its own end:
  the one page they may share is already among the first.
\<close>

lemma segs_page_nos_Cons:
  assumes ne: "xs \<noteq> []" and prev: "\<And>e. prev = Some e \<Longrightarrow> 0 < e \<and> e \<le> st"
    and srt: "\<forall>(ys, st') \<in> set segs. st + length xs \<le> st'"
  shows "segs_page_nos ps prev ((xs, st) # segs) =
    {q \<in> seg_page_nos ps xs st. later_page ps prev q} \<union> segs_page_nos ps (Some (st + length xs)) segs"
    (is "?l = ?a \<union> ?b")
proof (rule equalityI; rule subsetI)
  fix q assume "q \<in> ?l"
  then consider "q \<in> ?a"
    | ys st' where "(ys, st') \<in> set segs" "q \<in> seg_page_nos ps ys st'" "later_page ps prev q"
    by (auto simp: segs_page_nos_def)
  then show "q \<in> ?a \<union> ?b"
  proof cases
    case 2
    have "st + length xs \<le> st'" using srt 2(1) by auto
    moreover have "st' div ps \<le> q" using seg_page_nos_bounds [OF 2(2)] by simp
    ultimately have "(st + length xs - 1) div ps \<le> q"
      using div_le_mono [of "st + length xs - 1" st' ps] by linarith
    then consider "q = (st + length xs - 1) div ps" | "(st + length xs - 1) div ps < q" by linarith
    then show ?thesis
    proof cases
      case 1
      then show ?thesis using 2 seg_page_nos_last [OF ne] by simp
    next
      case 2
      then show ?thesis using \<open>(ys, st') \<in> set segs\<close> \<open>q \<in> seg_page_nos ps ys st'\<close>
        by (auto simp: segs_page_nos_def)
    qed
  qed simp
next
  fix q assume q: "q \<in> ?a \<union> ?b"
  have "later_page ps prev q" if "(st + length xs - 1) div ps < q"
  proof (cases prev)
    case (Some e)
    then have "e - 1 \<le> st + length xs - 1" using prev [of e] by linarith
    then have "(e - 1) div ps \<le> (st + length xs - 1) div ps" by (rule div_le_mono)
    then show ?thesis using that Some by simp
  qed simp
  then have "q \<in> ?b \<Longrightarrow> later_page ps prev q" by (simp add: segs_page_nos_def)
  moreover have "q \<in> ?b \<Longrightarrow> q \<in> (\<Union>(xs, st) \<in> set segs. seg_page_nos ps xs st)" by (simp add: segs_page_nos_def)
  ultimately show "q \<in> ?l" using q unfolding segs_page_nos_def [of ps prev] by auto
qed

lemma row_segments_Cons:
  "row_segments ps T n ((xs, st) # segs) \<longleftrightarrow>
     paged_row ps T st xs \<and> st + length xs \<le> n \<and> (\<forall>(ys, st') \<in> set segs. st + length xs \<le> st') \<and>
     row_segments ps T n segs"
  unfolding row_segments_def by (simp add: split_def conj_ac)

section \<open>The segment loop\<close>

lemma kv_free_segment_row:
  assumes inv: "kv_inv al" and ps: "ps = kv_page_size al" and row: "paged_row ps T st xs"
    and inj: "inj_on T (seg_page_nos ps xs st)"
    and dj: "T ` seg_page_nos ps xs st \<inter> kv_avail al = {}" and cap: "T ` seg_page_nos ps xs st \<subseteq> kv_capacity al"
  shows "\<exists>al'. kv_free_segment al xs st = Inr al' \<and> kv_inv al' \<and> kv_capacity al' = kv_capacity al \<and>
    kv_page_size al' = ps \<and> kv_avail al' = kv_avail al \<union> T ` seg_page_nos ps xs st"
proof (cases "xs = []")
  case True
  then have "kv_free_segment al xs st = Inr al"
    by (cases al) (simp_all add: kv_free_segment_def token_free_segment_def token_free_def paged_free_segment_def)
  then show ?thesis using True inv ps by simp
next
  case False
  have "0 < ps" using inv ps by (simp add: kvp.psize_pos)
  note sp = slot_pages_row [OF this row] and rg = seg_page_nos_range [OF this False, of st]
  show ?thesis
    using kv_free_segment_facts [OF inv, of T st xs] row inj dj cap unfolding ps [symmetric] sp rg by blast
qed

lemma trimmed_row:
  assumes ps: "0 < ps" and row: "paged_row ps T st xs"
    and prev: "\<And>e. prev = Some e \<Longrightarrow> 0 < e \<and> e \<le> st"
  obtains idx st' where
    "(case prev of
        Some e \<Rightarrow>
          if st div ps = (e - 1) div ps
          then let boundary = (st div ps + 1) * ps in (drop (boundary - st) xs, boundary)
          else (xs, st)
      | None \<Rightarrow> (xs, st)) = (idx, st')"
    and "paged_row ps T st' idx"
    and "seg_page_nos ps idx st' = {q \<in> seg_page_nos ps xs st. later_page ps prev q}"
proof (cases prev)
  case None
  show ?thesis by (rule that [of xs st]) (simp_all add: None row)
next
  case (Some e)
  note e = prev [OF Some]
  let ?b = "(st div ps + 1) * ps"
  show ?thesis
  proof (cases "st div ps = (e - 1) div ps")
    case True
    have "st = st div ps * ps + st mod ps" "st mod ps < ps" using ps by simp_all
    then have "st \<le> ?b" unfolding add_mult_distrib by linarith
    then have "paged_row ps T ?b (drop (?b - st) xs)"
      using paged_row_drop [OF row, of "?b - st"] by (simp only: le_add_diff_inverse)
    then show ?thesis
      using that [of "drop (?b - st) xs" ?b] trimmed_page_nos [OF ps _ _ True, of xs] e True
      by (simp add: Some Let_def)
  next
    case False
    have "(e - 1) div ps \<le> st div ps" using e by (intro div_le_mono) linarith
    with False have lt: "(e - 1) div ps < st div ps" by linarith
    have "seg_page_nos ps xs st = {q \<in> seg_page_nos ps xs st. later_page ps prev q}"
    proof (rule equalityI; rule subsetI)
      fix q assume q: "q \<in> seg_page_nos ps xs st"
      then have "st div ps \<le> q" using seg_page_nos_bounds by blast
      then show "q \<in> {q \<in> seg_page_nos ps xs st. later_page ps prev q}" using q lt Some by simp
    qed simp
    moreover have "st div ps \<noteq> (e - 1) div ps" by (rule False)
    ultimately show ?thesis using that [of xs st] row unfolding Some option.case if_not_P [OF False] by simp
  qed
qed

lemma free_segments_loop_facts:
  assumes "kv_inv al" "ps = kv_page_size al" "row_segments ps T n segs" "inj_on T (segs_page_nos ps prev segs)"
    "\<And>e. prev = Some e \<Longrightarrow> 0 < e \<and> (\<forall>(xs, st) \<in> set segs. e \<le> st)"
    "T ` segs_page_nos ps prev segs \<inter> kv_avail al = {}" "T ` segs_page_nos ps prev segs \<subseteq> kv_capacity al"
  shows "\<exists>al'. free_segments_loop ps kv_free_segment prev segs al = Inr al' \<and> kv_inv al' \<and>
    kv_capacity al' = kv_capacity al \<and> kv_page_size al' = ps \<and>
    kv_avail al' = kv_avail al \<union> T ` segs_page_nos ps prev segs"
  using assms
proof (induction segs arbitrary: al prev)
  case Nil
  then show ?case by simp
next
  case (Cons seg segs)
  obtain xs st where seg: "seg = (xs, st)" by (cases seg)
  note P = Cons.prems [unfolded seg]
  have ps: "0 < ps" using P(1,2) by (simp add: kvp.psize_pos)
  note row = P(3) [unfolded row_segments_Cons]
  show ?case
  proof (cases "xs = []")
    case True
    show ?thesis
      using Cons.IH [of al prev] P row unfolding seg True by (simp add: segs_page_nos_skip)
  next
    case False
    have prev: "0 < e \<and> e \<le> st" if "prev = Some e" for e using P(5) [OF that] by simp
    let ?Q = "{q \<in> seg_page_nos ps xs st. later_page ps prev q}"
    let ?R = "segs_page_nos ps (Some (st + length xs)) segs"
    have un: "segs_page_nos ps prev ((xs, st) # segs) = ?Q \<union> ?R"
      by (rule segs_page_nos_Cons) (use False prev row in blast)+
    obtain idx st' where tr: "(case prev of
        Some e \<Rightarrow>
          if st div ps = (e - 1) div ps
          then let boundary = (st div ps + 1) * ps in (drop (boundary - st) xs, boundary)
          else (xs, st)
      | None \<Rightarrow> (xs, st)) = (idx, st')"
      and r': "paged_row ps T st' idx" and Q: "seg_page_nos ps idx st' = ?Q"
      using trimmed_row [OF ps conjunct1 [OF row], of prev] prev by blast
    have inj: "inj_on T ?Q" "inj_on T ?R" using P(4) unfolding un by (auto intro: inj_on_subset)
    have apart: "?Q \<inter> ?R = {}"
      using seg_page_nos_bounds [of _ ps xs st] by (fastforce simp: segs_page_nos_def)
    obtain al1 where al1: "kv_free_segment al idx st' = Inr al1" "kv_inv al1" "kv_capacity al1 = kv_capacity al"
        "kv_page_size al1 = ps" "kv_avail al1 = kv_avail al \<union> T ` ?Q"
      using kv_free_segment_row [OF P(1,2) r'] P(6,7) inj(1)
      unfolding Q un by (auto simp: image_Un)
    have "T ` ?R \<inter> T ` ?Q = {}"
      using inj_on_image_Int [OF P(4) [unfolded un], of ?R ?Q] apart by auto
    then have dj: "T ` ?R \<inter> kv_avail al1 = {}"
      using P(6) unfolding un al1(5) by blast
    then obtain al2 where "free_segments_loop ps kv_free_segment (Some (st + length xs)) segs al1 = Inr al2"
        "kv_inv al2" "kv_capacity al2 = kv_capacity al" "kv_page_size al2 = ps"
        "kv_avail al2 = kv_avail al1 \<union> T ` ?R"
      using Cons.IH [of al1 "Some (st + length xs)"] al1 row inj(2) P(6,7) False unfolding un
      by (auto simp: image_Un)
    then show ?thesis
      using False al1(1,5) tr unfolding seg un by (simp add: Let_def image_Un Un_assoc)
  qed
qed

lemma segs_page_nos_below:
  assumes "0 < ps" "row_segments ps T n segs"
  shows "segs_page_nos ps prev segs \<subseteq> {..<ceil_div n ps}"
  using seg_page_nos_below [OF assms(1)] assms(2) by (fastforce simp: segs_page_nos_def row_segments_def)

section \<open>Free groups\<close>

lemma segs_page_nos_slots:
  assumes "0 < ps" "row_segments ps T n segs"
  shows "T ` segs_page_nos ps None segs = slot_pages ps (concat (map fst segs))"
  using assms(2)
proof (induction segs)
  case (Cons seg segs)
  obtain xs st where seg: "seg = (xs, st)" by (cases seg)
  have "segs_page_nos ps None (seg # segs) = seg_page_nos ps xs st \<union> segs_page_nos ps None segs"
    by (auto simp: segs_page_nos_def seg)
  then show ?case
    using Cons slot_pages_row [OF assms(1), of T st xs] by (simp add: seg row_segments_Cons image_Un)
qed simp

lemma group_run_facts:
  assumes "paged_inv (a\<lparr>free_group := None, free_page_reps_group := []\<rparr>)" "free_group a = Some g"
    "group_ok (page_size a) ops"
  shows "group_run ops a =
    Inr (a\<lparr>free_group := Some (g @ group_frees ops),
           free_page_reps_group := free_page_reps_group a @ group_reps (page_size a) ops\<rparr>)"
  using assms
proof (induction ops arbitrary: a g)
  case (Cons op ops)
  have dist: "distinct (held_free a)" using Cons.prems(1) by (simp add: paged_inv_def base_inv_def)
  have ps: "0 < page_size a" using Cons.prems(1) by (simp add: paged_inv_def base_inv_def)
  show ?case
  proof (cases op)
    case (GFree xs)
    have "check_if_debug (a\<lparr>free_group := Some (g @ [xs])\<rparr>) = Inr (a\<lparr>free_group := Some (g @ [xs])\<rparr>)"
      using dist by (simp add: check_if_debug_def debug_check_no_duplicate_pages_def
          torch_unique_def distinct_remdups_id del: distinct_append)
    then show ?thesis
      using Cons.IH [of "a\<lparr>free_group := Some (g @ [xs])\<rparr>" "g @ [xs]"] Cons.IH [of a g] Cons.prems GFree
      by (simp add: paged_free_def)
  next
    case (GSeg xs st)
    from Cons.prems(3) obtain T where T: "paged_row (page_size a) T st xs"
        "inj_on T {st div page_size a..<ceil_div (st + length xs) (page_size a)}"
      by (auto simp: GSeg)
    show ?thesis
    proof (cases "xs = []")
      case True
      then show ?thesis using Cons.IH [of a g] Cons.prems GSeg by (simp add: paged_free_segment_def)
    next
      case False
      show ?thesis
        using segment_pieces_unique(2) [OF ps T(1) False T(2)] False Cons.prems GSeg
          Cons.IH [of "a\<lparr>free_page_reps_group := free_page_reps_group a @ segment_pieces (page_size a) xs st\<rparr>" g]
        by (simp add: paged_free_segment_def Let_def)
    qed
  qed
qed simp

lemma check_if_debug_reps:
  "check_if_debug (a\<lparr>free_page_reps_group := R\<rparr>) =
     map_sum id (\<lambda>a'. a'\<lparr>free_page_reps_group := R\<rparr>) (check_if_debug a)"
  by (simp add: check_if_debug_def debug_check_no_duplicate_pages_def assert_that_def)

lemma paged_free_reps:
  "paged_free (a\<lparr>free_page_reps_group := R\<rparr>) xs =
     map_sum id (\<lambda>a'. a'\<lparr>free_page_reps_group := R\<rparr>) (paged_free a xs)"
proof -
  have "release_page_ids (a\<lparr>free_page_reps_group := R\<rparr>) qs = (release_page_ids a qs)\<lparr>free_page_reps_group := R\<rparr>"
    for qs by (simp add: release_page_ids_def)
  moreover have "a\<lparr>free_page_reps_group := R, free_group := g\<rparr> = a\<lparr>free_group := g, free_page_reps_group := R\<rparr>" for g
    by simp
  ultimately show ?thesis
    by (simp only: paged_free_def) (simp add: check_if_debug_reps split: option.splits)
qed

lemma grouped_slots:
  "slot_pages ps (concat (map op_slots ops)) = slot_pages ps (concat (group_frees ops)) \<union> group_seg_pages ps ops"
proof (induction ops)
  case (Cons op ops)
  then show ?case by (cases op) auto
qed simp

lemma group_frees_apart:
  "group_ok ps ops \<Longrightarrow> slot_pages ps (concat (group_frees ops)) \<inter> group_seg_pages ps ops = {}"
proof (induction ops)
  case (Cons op ops)
  then show ?case by (cases op) (auto simp: grouped_slots)
qed simp

lemma group_reps_pages:
  assumes ps: "0 < ps"
  shows "group_ok ps ops \<Longrightarrow> distinct (pages_of ps (concat (group_reps ps ops))) \<and>
    slot_pages ps (concat (group_reps ps ops)) = group_seg_pages ps ops"
proof (induction ops)
  case (Cons op ops)
  show ?case
  proof (cases op)
    case (GFree xs)
    then show ?thesis using Cons by simp
  next
    case (GSeg xs st)
    then obtain T where T: "paged_row ps T st xs" "inj_on T {st div ps..<ceil_div (st + length xs) ps}"
      using Cons.prems by auto
    have IH: "distinct (pages_of ps (concat (group_reps ps ops)))"
      "slot_pages ps (concat (group_reps ps ops)) = group_seg_pages ps ops"
      and apart: "slot_pages ps xs \<inter> group_seg_pages ps ops = {}"
      using Cons GSeg by (auto simp: grouped_slots)
    show ?thesis
    proof (cases "xs = []")
      case False
      have "pages_of ps (concat (segment_pieces ps xs st)) = concat (map (pages_of ps) (segment_pieces ps xs st))"
        by (simp add: pages_of_def [abs_def] map_concat)
      then have "distinct (pages_of ps (concat (segment_pieces ps xs st)))"
        "set (pages_of ps (concat (segment_pieces ps xs st))) = slot_pages ps xs"
        using segment_pieces_unique(1) [OF ps T(1) False T(2)] set_segment_pages [OF ps T(1) False] by simp_all
      moreover have "pages_of ps (ys @ zs) = pages_of ps ys @ pages_of ps zs" for ys zs
        by (simp add: pages_of_def)
      ultimately show ?thesis using IH apart GSeg False by simp
    qed (use IH GSeg in simp)
  qed
qed (simp add: pages_of_def)

lemma grouped_frees_facts:
  assumes inv: "paged_inv a" and ok: "group_ok (page_size a) ops"
    and dj: "slot_pages (page_size a) (concat (map op_slots ops)) \<inter> set (held_free a) = {}"
    and cap: "slot_pages (page_size a) (concat (map op_slots ops)) \<subseteq> {1..int (num_pages a)}"
  shows "\<exists>a'. grouped_frees ops a = Inr a' \<and> paged_inv a' \<and> num_pages a' = num_pages a \<and>
    set (held_free a') = set (held_free a) \<union> slot_pages (page_size a) (concat (map op_slots ops))"
proof -
  let ?ps = "page_size a" and ?F = "group_frees ops" and ?R = "group_reps (page_size a) ops"
  have ps: "0 < ?ps" and g: "free_group a = None" "free_page_reps_group a = []"
    using inv by (simp_all add: paged_inv_def base_inv_def)
  then have a: "a\<lparr>free_group := None, free_page_reps_group := []\<rparr> = a" by simp
  let ?b = "paged_free_group_begin a"
  have b: "?b = a\<lparr>free_group := Some [], free_page_reps_group := []\<rparr>"
    by (simp add: paged_free_group_begin_def base_free_group_begin_def)
  have "group_run ops ?b = Inr (?b\<lparr>free_group := Some ([] @ ?F),
      free_page_reps_group := free_page_reps_group ?b @ group_reps (page_size ?b) ops\<rparr>)"
    by (rule group_run_facts) (use ok inv a in \<open>simp_all add: b\<close>)
  then have run: "group_run ops ?b = Inr (a\<lparr>free_group := Some ?F, free_page_reps_group := ?R\<rparr>)"
    by (simp add: b)
  note rp = conjunct1 [OF group_reps_pages [OF ps ok]] conjunct2 [OF group_reps_pages [OF ps ok]]
  note sl = grouped_slots [of ?ps ops, folded rp(2)]
  obtain a1 where a1: "paged_free a (concat ?F) = Inr a1" "paged_inv a1" "num_pages a1 = num_pages a"
      "page_size a1 = ?ps" "set (held_free a1) = set (held_free a) \<union> slot_pages ?ps (concat ?F)"
    using paged_free_facts [OF inv, of "concat ?F"] dj cap unfolding sl by blast
  have free: "(case Some ?F of None \<Rightarrow> Inr (a\<lparr>free_page_reps_group := ?R, free_group := None\<rparr>)
      | Some g \<Rightarrow> if g = [] then Inr (a\<lparr>free_page_reps_group := ?R, free_group := None\<rparr>)
                  else paged_free (a\<lparr>free_page_reps_group := ?R, free_group := None\<rparr>) (concat g))
      = Inr (a1\<lparr>free_page_reps_group := ?R\<rparr>)"
  proof (cases "?F = []")
    case True
    then show ?thesis using a1(1) g by (simp add: paged_free_def)
  next
    case False
    have "a\<lparr>free_page_reps_group := ?R, free_group := None\<rparr> = a\<lparr>free_page_reps_group := ?R\<rparr>" using g by simp
    then show ?thesis using False a1(1) by (simp add: paged_free_reps)
  qed
  have a1r: "a1\<lparr>free_page_reps_group := []\<rparr> = a1" using a1(2) by (simp add: paged_inv_def)
  let ?q = "[pages_of ?ps (concat ?R)]"
  have apart: "slot_pages ?ps (concat ?R) \<inter> set (held_free a1) = {}"
    using group_frees_apart [OF ok, folded rp(2)] dj unfolding a1(5) sl by blast
  have r: "paged_inv (release_page_ids a1 ?q)" "num_pages (release_page_ids a1 ?q) = num_pages a"
    "set (held_free (release_page_ids a1 ?q)) = set (held_free a1) \<union> slot_pages ?ps (concat ?R)"
    using release_page_ids_facts [OF a1(2), of ?q] rp(1) apart cap a1(3) unfolding sl
    by (simp_all del: set_append)
  have fin: "grouped_frees ops a = check_if_debug
      (if ?R \<noteq> [] then (release_page_ids (a1\<lparr>free_page_reps_group := ?R\<rparr>) ?q)\<lparr>free_page_reps_group := []\<rparr>
       else a1\<lparr>free_page_reps_group := ?R\<rparr>)"
    using free a1(4) by (simp add: grouped_frees_def run paged_free_group_end_def Let_def)
  show ?thesis
  proof (cases "?R = []")
    case True
    then have "grouped_frees ops a = Inr a1"
      using fin a1r check_if_debug_ok [OF a1(2)] by simp
    then show ?thesis using a1 sl True by (simp del: set_append)
  next
    case False
    have "(release_page_ids (a1\<lparr>free_page_reps_group := ?R\<rparr>) ?q)\<lparr>free_page_reps_group := []\<rparr> = release_page_ids a1 ?q"
      using r(1) by (simp add: release_page_ids_def paged_inv_def)
    then have "grouped_frees ops a = Inr (release_page_ids a1 ?q)"
      using fin False check_if_debug_ok [OF r(1)] by simp
    then show ?thesis using r a1(5) sl by (simp add: Un_assoc del: set_append)
  qed
qed

section \<open>Properties\<close>

text \<open>
  C16: free_segments on ascending segments of one row releases exactly the pages the segments touch, each of them once, also when neighbouring segments share a boundary page.
\<close>

theorem free_segments_release_once:
  assumes "kv_inv al" "row_segments (kv_page_size al) T n segs"
    and "inj_on T {..<ceil_div n (kv_page_size al)}"
    and "slot_pages (kv_page_size al) (concat (map fst segs)) \<inter> kv_avail al = {}"
    and "slot_pages (kv_page_size al) (concat (map fst segs)) \<subseteq> kv_capacity al"
  shows "\<exists>al'. kv_free_segments al segs = Inr al' \<and> kv_inv al' \<and> kv_capacity al' = kv_capacity al \<and>
    kv_avail al' = kv_avail al \<union> slot_pages (kv_page_size al) (concat (map fst segs))"
proof -
  have ps: "0 < kv_page_size al" using assms(1) by (rule kvp.psize_pos)
  note s = segs_page_nos_slots [OF ps assms(2)]
  show ?thesis
    using free_segments_loop_facts [OF assms(1) refl assms(2) inj_on_subset [OF assms(3) segs_page_nos_below [OF ps assms(2)]], of None] assms(4,5)
    unfolding kv_free_segments_def s by auto
qed

theorem free_segments_release_once_witness:
  "\<exists>al'. kv_free_segments
      (PagedAlloc \<lparr>alloc_size = 16, page_size = 4, need_sort = False, free_pages = [1], release_pages = [],
         free_group = None, num_pages = 4, debug_mode = True, free_page_reps_group = []\<rparr>)
      [([12, 13], 0), ([14, 15, 8], 2)] = Inr al' \<and> kv_avail al' = {1, 2, 3}"
proof -
  let ?al = "PagedAlloc \<lparr>alloc_size = 16, page_size = 4, need_sort = False, free_pages = [1], release_pages = [],
         free_group = None, num_pages = 4, debug_mode = True, free_page_reps_group = []\<rparr>"
  let ?segs = "[([12, 13], 0), ([14, 15, 8], 2)] :: (int list \<times> nat) list"
  let ?T = "\<lambda>q :: nat. if q = 0 then 3 else 2 :: int"
  have ps: "kv_page_size ?al = 4" by (simp add: kv_page_size_def)
  have row: "row_segments 4 ?T 5 ?segs"
    by code_simp
  have "{..<ceil_div 5 4} = {0, 1 :: nat}" by (auto simp: ceil_div_def)
  then have inj: "inj_on ?T {..<ceil_div 5 4}" by (simp add: inj_on_def)
  have "slot_pages 4 (concat (map fst ?segs)) = {2, 3}" by (auto simp: slot_pages_def)
  moreover have "kv_inv ?al" "kv_avail ?al = {1}" "kv_capacity ?al = {1..4}"
    by (simp_all add: kv_defs paged_inv_def base_inv_def)
  ultimately show ?thesis
    using free_segments_release_once [of ?al ?T 5 ?segs] row inj unfolding ps by auto
qed

text \<open>
  C28: A free group (free_group_begin, any mix of free and free_segment calls, free_group_end) releases exactly the pages of all its calls and keeps the free lists without duplicates.
\<close>

theorem free_group_releases_all:
  assumes "paged_inv a" "group_ok (page_size a) ops"
    and "slot_pages (page_size a) (concat (map op_slots ops)) \<inter> set (held_free a) = {}"
    and "slot_pages (page_size a) (concat (map op_slots ops)) \<subseteq> {1..int (num_pages a)}"
  shows "\<exists>a'. grouped_frees ops a = Inr a' \<and> paged_inv a' \<and> num_pages a' = num_pages a \<and>
    set (held_free a') = set (held_free a) \<union> slot_pages (page_size a) (concat (map op_slots ops))"
  by (rule grouped_frees_facts [OF assms])

theorem free_group_releases_all_witness:
  "\<exists>a'. grouped_frees [GFree [8, 9], GSeg [12, 13] 0, GFree [10]]
      \<lparr>alloc_size = 16, page_size = 4, need_sort = True, free_pages = [1], release_pages = [],
         free_group = None, num_pages = 4, debug_mode = True, free_page_reps_group = []\<rparr> = Inr a' \<and>
     set (held_free a') = {1, 2, 3}"
proof -
  let ?a = "\<lparr>alloc_size = 16, page_size = 4, need_sort = True, free_pages = [1], release_pages = [],
         free_group = None, num_pages = 4, debug_mode = True, free_page_reps_group = []\<rparr>"
  let ?ops = "[GFree [8, 9], GSeg [12, 13] 0, GFree [10]]"
  have "paged_row 4 (\<lambda>_. 3) 0 [12, 13]" by code_simp
  moreover have "inj_on (\<lambda>_ :: nat. 3 :: int) {0..<ceil_div 2 4}" by (simp add: ceil_div_def)
  ultimately have "\<exists>T. paged_row 4 T 0 [12, 13] \<and> inj_on T {0..<ceil_div 2 4}" by blast
  then have "group_ok 4 ?ops" by (simp add: slot_pages_def numeral_2_eq_2)
  moreover have "slot_pages 4 (concat (map op_slots ?ops)) = {2, 3}" by (auto simp: slot_pages_def)
  ultimately show ?thesis
    using free_group_releases_all [of ?a ?ops] by (auto simp: paged_inv_def base_inv_def)
qed

end
