(* ===== verification/AllocatorExtend.thy ===== *)
theory AllocatorExtend
  imports AllocatorFree
begin

text \<open>
  \<open>alloc_extend\<close> and \<open>alloc_decode\<close> of the paged allocator: when they succeed, which
  pages they take, and that the slots they hand out continue each request's row in pages
  and are given to one request only.
\<close>

section \<open>Specification\<close>

definition extended_table :: "nat \<Rightarrow> nat \<Rightarrow> (nat \<Rightarrow> int) \<Rightarrow> (int \<Rightarrow> int) \<Rightarrow> nat \<Rightarrow> int" where
  "extended_table ps p T page q = (if q < ceil_div p ps then T q else page (int (q - ceil_div p ps)))"

definition new_page :: "nat \<Rightarrow> int list \<Rightarrow> int list \<Rightarrow> int list \<Rightarrow> nat \<Rightarrow> int \<Rightarrow> int" where
  "new_page ps pre seq pages i k = pages ! nat (new_pages_before (int ps) pre seq i + k)"

definition request_pages :: "nat \<Rightarrow> int list \<Rightarrow> int list \<Rightarrow> int list \<Rightarrow> int list \<Rightarrow> nat \<Rightarrow> int set" where
  "request_pages ps pre seq lasts pages i =
     (if pre ! i mod int ps = 0 then {} else {lasts ! i div int ps}) \<union>
     (!) pages ` {nat (new_pages_before (int ps) pre seq i)..<nat (new_pages_before (int ps) pre seq (Suc i))}"

definition extend_ready :: "nat \<Rightarrow> int list \<Rightarrow> int list \<Rightarrow> int list \<Rightarrow> int list \<Rightarrow> bool" where
  "extend_ready ps pre seq lasts pages \<longleftrightarrow>
     0 < ps \<and> extend_batch pre seq lasts \<and> list_all (\<lambda>p. 0 \<le> p) pre \<and>
     list_all2 (\<lambda>l p. (l + 1) mod int ps = p mod int ps) lasts pre \<and>
     distinct pages \<and> int (length pages) = new_pages_before (int ps) pre seq (length pre) \<and>
     distinct (map fst (filter (\<lambda>(q, p). p mod int ps \<noteq> 0) (zip (map (\<lambda>l. l div int ps) lasts) pre))) \<and>
     list_all2 (\<lambda>l p. p mod int ps \<noteq> 0 \<longrightarrow> l div int ps \<notin> set pages) lasts pre"

section \<open>Page counts\<close>

text \<open>A batch never needs more pages than the estimate that triggers the merge.\<close>

lemma ceil_pages_diff:
  assumes "0 < ps"
  shows "ceil_pages ps s - ceil_pages ps p \<le> (s - p) div ps + 1"
proof -
  have "s + ps - 1 = (p + ps - 1) + (s - p)" by simp
  then have "(s + ps - 1) div ps = (p + ps - 1) div ps + (s - p) div ps + ((p + ps - 1) mod ps + (s - p) mod ps) div ps"
    by (simp only: div_add1_eq [of "p + ps - 1" "s - p" ps])
  moreover have "((p + ps - 1) mod ps + (s - p) mod ps) div ps < 2"
  proof -
    have "(p + ps - 1) mod ps + (s - p) mod ps < 2 * ps"
      using pos_mod_bound [OF assms, of "p + ps - 1"] pos_mod_bound [OF assms, of "s - p"] by linarith
    then have "((p + ps - 1) mod ps + (s - p) mod ps) div ps * ps < 2 * ps"
      using div_mult_mod_eq [of "(p + ps - 1) mod ps + (s - p) mod ps" ps]
        pos_mod_sign [OF assms, of "(p + ps - 1) mod ps + (s - p) mod ps"] by linarith
    then show ?thesis using assms by (simp only: mult_less_cancel_right)
  qed
  ultimately show ?thesis by (simp add: ceil_pages_def)
qed

lemma new_pages_bound:
  assumes ps: "0 < ps"
  shows "new_pages_before ps pre seq k \<le> extend_start pre seq k div ps + int k"
proof (induction k)
  case 0
  show ?case by (simp add: new_pages_before_def extend_start_def)
next
  case (Suc k)
  have "extend_start pre seq k div ps + (seq ! k - pre ! k) div ps \<le> extend_start pre seq (Suc k) div ps"
  proof -
    have "0 \<le> (extend_start pre seq k mod ps + (seq ! k - pre ! k) mod ps) div ps"
      using ps by (simp add: pos_imp_zdiv_nonneg_iff)
    then show ?thesis
      using div_add1_eq [of "extend_start pre seq k" "seq ! k - pre ! k" ps] by (simp add: extend_start_Suc)
  qed
  moreover have "ceil_pages ps (seq ! k) - ceil_pages ps (pre ! k) \<le> (seq ! k - pre ! k) div ps + 1"
    by (rule ceil_pages_diff [OF ps])
  ultimately show ?case using Suc by (simp add: new_pages_before_Suc)
qed

lemma new_pages_decode_bound:
  assumes ps: "0 < ps" and k: "k \<le> length seq"
  shows "new_pages_before ps (decode_pre seq) seq k \<le> int k"
  using k
proof (induction k)
  case 0
  show ?case by (simp add: new_pages_before_def)
next
  case (Suc k)
  have "ceil_pages ps (seq ! k) - ceil_pages ps (seq ! k - 1) \<le> 1"
    using ceil_pages_pred [OF ps, of "seq ! k"] by (simp split: if_splits)
  then show ?case using Suc by (simp add: new_pages_before_Suc)
qed

text \<open>Only the first pages of the free list are read.\<close>

lemma extend_slots_take:
  assumes ps: "0 < ps" and b: "extend_batch pre seq lasts"
    and n: "n = nat (new_pages_before ps pre seq (length pre))"
  shows "extend_slots ps pre seq lasts (take n pages) = extend_slots ps pre seq lasts pages"
proof -
  have "request_slots ps (pre ! i) (seq ! i) (lasts ! i) (\<lambda>k. take n pages ! nat (new_pages_before ps pre seq i + k))
      = request_slots ps (pre ! i) (seq ! i) (lasts ! i) (\<lambda>k. pages ! nat (new_pages_before ps pre seq i + k))"
    if i: "i < length pre" for i
  proof (rule request_slots_cong [OF ps])
    fix k assume k: "0 \<le> k" "k < ceil_pages ps (seq ! i) - ceil_pages ps (pre ! i)"
    have "new_pages_before ps pre seq (Suc i) \<le> new_pages_before ps pre seq (length pre)"
      using new_pages_mono [OF ps b, of "Suc i" "length pre"] i by simp
    moreover have "0 \<le> new_pages_before ps pre seq i"
      using new_pages_nonneg [OF ps b, of i] i by simp
    ultimately have "nat (new_pages_before ps pre seq i + k) < n"
      using k unfolding n new_pages_before_Suc by linarith
    then show "take n pages ! nat (new_pages_before ps pre seq i + k) = pages ! nat (new_pages_before ps pre seq i + k)"
      by simp
  qed
  then show ?thesis unfolding extend_slots_def by (intro arg_cong [where f = concat] map_cong) simp_all
qed

lemma maybe_merge:
  assumes inv: "paged_inv a" and n: "n \<le> est"
    and a1: "a1 = (if need_sort a \<and> est > length (free_pages a) then merge_and_sort_free a else a)"
  shows "paged_inv a1" "num_pages a1 = num_pages a" "page_size a1 = page_size a" "debug_mode a1 = debug_mode a"
    "set (held_free a1) = set (held_free a)" "n \<le> length (free_pages a1) \<longleftrightarrow> n \<le> length (held_free a)"
proof -
  have "free_pages a = held_free a" if "\<not> need_sort a"
    using inv that by (simp add: paged_inv_def base_inv_def)
  then show "n \<le> length (free_pages a1) \<longleftrightarrow> n \<le> length (held_free a)"
    using n unfolding a1 by (auto simp: merge_facts)
  show "set (held_free a1) = set (held_free a)"
    unfolding a1 by (simp add: merge_facts(2) del: set_append)
qed (use inv base_inv_merge [of "num_pages a" a] in \<open>simp_all add: a1 paged_inv_def merge_facts\<close>)

lemma paged_alloc_extend_facts:
  assumes inv: "paged_inv a" and dbg: "\<not> debug_mode a" and b: "extend_batch pre seq lasts"
    and ext: "int ext = extend_start pre seq (length pre)"
  defines "need \<equiv> nat (new_pages_before (int (page_size a)) pre seq (length pre))"
  shows "\<exists>a'. paged_inv a' \<and> num_pages a' = num_pages a \<and> page_size a' = page_size a \<and>
    (if need > length (held_free a)
     then paged_alloc_extend junk other a pre seq lasts ext None = Inr (None, a') \<and>
          set (held_free a') = set (held_free a)
     else \<exists>pages. length pages = need \<and> distinct pages \<and> set pages \<subseteq> set (held_free a) \<and>
          set (held_free a') = set (held_free a) - set pages \<and>
          paged_alloc_extend junk other a pre seq lasts ext None
            = Inr (Some (extend_slots (int (page_size a)) pre seq lasts pages), a'))"
proof -
  let ?ps = "page_size a" and ?N = "new_pages_before (int (page_size a)) pre seq (length pre)"
  have ps: "0 < ?ps" "0 < int ?ps" using inv by (simp_all add: paged_inv_def base_inv_def)
  define a1 where "a1 = (if need_sort a \<and> ext div ?ps + length pre + 1 > length (free_pages a)
                 then merge_and_sort_free a else a)"
  have nn: "0 \<le> ?N" by (rule new_pages_nonneg [OF ps(2) b]) simp
  have "need \<le> ext div ?ps + length pre + 1"
  proof -
    have "int (ext div ?ps) = extend_start pre seq (length pre) div int ?ps" by (simp add: zdiv_int ext)
    then show ?thesis using new_pages_bound [OF ps(2), of pre seq "length pre"] unfolding need_def by linarith
  qed
  note m = maybe_merge [OF inv this a1_def]
  have num: "get_num_new_pages seq (page_size a1) (Some pre) False = Inr ?N"
    unfolding m(3) by (rule get_num_new_pages_extend) (use extend_batchD(1) [OF b] in simp)
  have le: "?N > int (length (free_pages a1)) \<longleftrightarrow> need > length (held_free a)"
    using m(6) nn unfolding need_def by linarith
  let ?out = "alloc_extend_kernel junk other (length pre) pre seq lasts (free_pages a1)
        (map (\<lambda>i. junk (int i)) [0..<ext]) (next_power_of_2 (length pre)) (page_size a1)"
  have step: "paged_alloc_extend junk other a pre seq lasts ext None =
    (if need > length (held_free a) then Inr (None, a1)
     else Inr (Some ?out, a1\<lparr>free_pages := drop need (free_pages a1)\<rparr>))"
    unfolding paged_alloc_extend_def Let_def a1_def [symmetric]
    using dbg num le by (simp add: need_def)
  show ?thesis
  proof (cases "need > length (held_free a)")
    case True
    then have "paged_alloc_extend junk other a pre seq lasts ext None = Inr (None, a1)"
      by (simp add: step)
    then show ?thesis using True m by (intro exI [of _ a1]) simp
  next
    case False
    let ?a2 = "a1\<lparr>free_pages := drop need (free_pages a1)\<rparr>" and ?p = "take need (free_pages a1)"
    have enough: "need \<le> length (free_pages a1)" using False m(6) by simp
    have out: "?out = extend_slots (int ?ps) pre seq lasts ?p"
      using alloc_extend_kernel_slots [OF ps(1) b next_power_of_2_ge, of "map (\<lambda>i. junk (int i)) [0..<ext]" "free_pages a1" junk other]
        ext enough nn extend_slots_take [OF ps(2) b refl, of "free_pages a1"]
      by (simp add: m(3) need_def)
    have "paged_alloc_extend junk other a pre seq lasts ext None
        = Inr (Some (extend_slots (int ?ps) pre seq lasts ?p), ?a2)"
      using False by (simp add: step out)
    moreover have "base_inv (num_pages a1) a1" using m(1) by (simp add: paged_inv_def)
    note t = base_inv_take [OF this enough]
    have "paged_inv ?a2" using t(1) m(1) by (simp add: paged_inv_def)
    ultimately show ?thesis
      using False t(2-4) m enough by (intro exI [of _ ?a2]) (simp del: set_append, intro exI [of _ ?p], simp)
  qed
qed

lemma paged_alloc_decode_facts:
  assumes inv: "paged_inv a" and dbg: "\<not> debug_mode a" and ps1: "1 < page_size a"
    and len: "length lasts = length seq"
  defines "need \<equiv> nat (new_pages_before (int (page_size a)) (decode_pre seq) seq (length seq))"
  shows "\<exists>a'. paged_inv a' \<and> num_pages a' = num_pages a \<and> page_size a' = page_size a \<and>
    (if need > length (held_free a)
     then paged_alloc_decode junk other a seq lasts = Inr (None, a') \<and>
          set (held_free a') = set (held_free a)
     else \<exists>pages. length pages = need \<and> distinct pages \<and> set pages \<subseteq> set (held_free a) \<and>
          set (held_free a') = set (held_free a) - set pages \<and>
          paged_alloc_decode junk other a seq lasts
            = Inr (Some (extend_slots (int (page_size a)) (decode_pre seq) seq lasts pages), a'))"
proof -
  let ?ps = "page_size a" and ?pre = "decode_pre seq"
  let ?N = "new_pages_before (int (page_size a)) ?pre seq (length seq)"
  have ps: "0 < ?ps" "0 < int ?ps" using inv by (simp_all add: paged_inv_def base_inv_def)
  have b: "extend_batch ?pre seq lasts" by (rule extend_batch_decode [OF len])
  define a1 where "a1 = (if need_sort a \<and> length seq > length (free_pages a) then merge_and_sort_free a else a)"
  have nn: "0 \<le> ?N" using new_pages_nonneg [OF ps(2) b, of "length seq"] by simp
  have "need \<le> length seq"
    using new_pages_decode_bound [OF ps(2), of "length seq" seq] unfolding need_def by simp
  note m = maybe_merge [OF inv this a1_def]
  have num: "get_num_new_pages seq (page_size a1) None True = Inr ?N"
    unfolding m(3) by (rule get_num_new_pages_decode [OF ps1])
  have le: "?N > int (length (free_pages a1)) \<longleftrightarrow> need > length (held_free a)"
    using m(6) nn unfolding need_def by linarith
  let ?out = "alloc_decode_kernel junk other (length seq) seq lasts (free_pages a1)
        (map (\<lambda>i. junk (int i)) [0..<length seq]) (next_power_of_2 (length seq)) (page_size a1)"
  have step: "paged_alloc_decode junk other a seq lasts =
    (if need > length (held_free a) then Inr (None, a1)
     else Inr (Some ?out, a1\<lparr>free_pages := drop need (free_pages a1)\<rparr>))"
    unfolding paged_alloc_decode_def Let_def a1_def [symmetric]
    using dbg num le by (simp add: need_def)
  show ?thesis
  proof (cases "need > length (held_free a)")
    case True
    then show ?thesis using step m by (intro exI [of _ a1]) simp
  next
    case False
    let ?a2 = "a1\<lparr>free_pages := drop need (free_pages a1)\<rparr>" and ?p = "take need (free_pages a1)"
    have enough: "need \<le> length (free_pages a1)" using False m(6) by simp
    have out: "?out = extend_slots (int ?ps) ?pre seq lasts ?p"
      using alloc_decode_kernel_slots [OF ps(1) len _ next_power_of_2_ge, of "map (\<lambda>i. junk (int i)) [0..<length seq]" "free_pages a1" junk other]
        enough nn extend_slots_take [OF ps(2) b refl, of "free_pages a1"]
      by (simp add: m(3) need_def)
    have "paged_alloc_decode junk other a seq lasts = Inr (Some (extend_slots (int ?ps) ?pre seq lasts ?p), ?a2)"
      using False by (simp add: step out)
    moreover have "base_inv (num_pages a1) a1" using m(1) by (simp add: paged_inv_def)
    note t = base_inv_take [OF this enough]
    have "paged_inv ?a2" using t(1) m(1) by (simp add: paged_inv_def)
    ultimately show ?thesis
      using False t(2-4) m enough by (intro exI [of _ ?a2]) (simp del: set_append, intro exI [of _ ?p], simp)
  qed
qed

section \<open>The rows stay laid out in pages\<close>

lemma ceil_pages_int: "0 < ps \<Longrightarrow> ceil_pages (int ps) (int p) = int (ceil_div p ps)"
  by (simp add: ceil_pages_def ceil_div_def zdiv_int of_nat_diff)

lemma position_slot_row:
  assumes ps: "0 < ps" and lst: "p mod ps \<noteq> 0 \<Longrightarrow> last_loc = T ((p - 1) div ps) * int ps + int ((p - 1) mod ps)"
    and q: "p \<le> q"
  shows "position_slot (int ps) (int p) last_loc page (int q)
       = extended_table ps p T page (q div ps) * int ps + int (q mod ps)"
proof -
  let ?c = "ceil_div p ps"
  have cmp: "int q < ceil_pages (int ps) (int p) * int ps \<longleftrightarrow> q div ps < ?c"
  proof -
    have "int q < ceil_pages (int ps) (int p) * int ps \<longleftrightarrow> q < ?c * ps"
      unfolding ceil_pages_int [OF ps] by (simp flip: of_nat_mult)
    then show ?thesis using ps by (simp add: div_less_iff_less_mult)
  qed
  show ?thesis
  proof (cases "q div ps < ?c")
    case True
    then have lt: "q div ps * ps < p" using less_ceil_div [OF ps] by simp
    have qe: "q = q div ps * ps + q mod ps" by simp
    have nz: "p mod ps \<noteq> 0"
    proof
      assume "p mod ps = 0"
      then have "p = p div ps * ps" by auto
      then have "q div ps * ps < p div ps * ps" using lt by simp
      then have "q div ps < p div ps" using ps by simp
      then show False using div_le_mono [OF q, of ps] by simp
    qed
    define r where "r = p - 1 - q div ps * ps"
    have p1: "p - 1 = r + q div ps * ps" using lt by (simp add: r_def)
    have "r < ps" using q qe mod_less_divisor [OF ps, of q] p1 lt by linarith
    then have "(p - 1) div ps = q div ps" "(p - 1) mod ps = r" using ps unfolding p1 by simp_all
    with lst [OF nz] have ll: "last_loc = T (q div ps) * int ps + int r" by simp
    have "int r + 1 + (int q - int p) = int (q mod ps)"
      using p1 lt qe by linarith
    then show ?thesis
      using True unfolding position_slot_def Let_def cmp extended_table_def ll by simp
  next
    case False
    have "(int q - ceil_pages (int ps) (int p) * int ps) div int ps = int (q div ps) - int ?c"
      unfolding ceil_pages_int [OF ps] using ps div_mult_self1 [of "int ps" "int q" "- int ?c"]
      by (simp add: zdiv_int)
    then show ?thesis
      using False by (simp add: position_slot_def Let_def cmp extended_table_def of_nat_diff zmod_int)
  qed
qed

lemma request_slots_row:
  assumes ps: "0 < ps" and lst: "p mod ps \<noteq> 0 \<Longrightarrow> last_loc = T ((p - 1) div ps) * int ps + int ((p - 1) mod ps)"
  shows "paged_row ps (extended_table ps p T page) p (request_slots (int ps) (int p) (int s) last_loc page)"
proof -
  have "position_slot (int ps) (int p) last_loc page (int p + int j)
      = extended_table ps p T page ((p + j) div ps) * int ps + int ((p + j) mod ps)" for j
    using position_slot_row [of ps p last_loc T "p + j" page] ps lst by simp
  then show ?thesis by (simp add: paged_row_def request_slots_def)
qed

section \<open>No slot is handed out twice\<close>

lemma paged_row_distinct:
  assumes ps: "0 < ps" and row: "paged_row ps T st xs" and inj: "inj_on T (seg_page_nos ps xs st)"
  shows "distinct xs"
  unfolding distinct_conv_nth
proof (intro allI impI)
  fix i j assume ij: "i < length xs" "j < length xs" "i \<noteq> j"
  show "xs ! i \<noteq> xs ! j"
  proof
    assume eq: "xs ! i = xs ! j"
    have "T ((st + i) div ps) = T ((st + j) div ps)"
      using paged_row_page [OF ps row ij(1)] paged_row_page [OF ps row ij(2)] eq by simp
    then have d: "(st + i) div ps = (st + j) div ps"
      using inj ij by (auto simp: inj_on_def seg_page_nos_def)
    have "xs ! i mod int ps = int ((st + i) mod ps)" "xs ! j mod int ps = int ((st + j) mod ps)"
      using row ij ps unfolding paged_row_def by simp_all
    then have "(st + i) mod ps = (st + j) mod ps" using eq by simp
    then have "(st + i) div ps * ps + (st + i) mod ps = (st + j) div ps * ps + (st + j) mod ps"
      by (simp only: d)
    then have "st + i = st + j" by (simp only: div_mult_mod_eq)
    then show False using ij(3) by simp
  qed
qed

text \<open>The premises under which the scheduler extends a batch.\<close>

lemma last_loc_aligned:
  assumes ps: "0 < ps" and al: "(l + 1) mod int ps = int p mod int ps" and nz: "p mod ps \<noteq> 0"
  shows "l = l div int ps * int ps + int ((p - 1) mod ps)"
proof -
  have p: "0 < p" using nz by (cases p) auto
  have "l mod int ps = (l + 1 - 1) mod int ps" by simp
  also have "\<dots> = (int p - 1) mod int ps" by (metis al mod_diff_left_eq)
  also have "int p - 1 = int (p - 1)" using p by simp
  finally have "l mod int ps = int ((p - 1) mod ps)" by (simp add: zmod_int)
  then show ?thesis using div_mult_mod_eq [of l "int ps"] by simp
qed

lemma request_pages_facts:
  assumes r: "extend_ready ps pre seq lasts pages" and i: "i < length pre"
  defines "row \<equiv> request_slots (int ps) (pre ! i) (seq ! i) (lasts ! i) (new_page ps pre seq pages i)"
  shows "distinct row" "slot_pages ps row \<subseteq> request_pages ps pre seq lasts pages i"
proof -
  let ?nb = "new_pages_before (int ps) pre seq"
  have ps: "0 < ps" "0 < int ps" and b: "extend_batch pre seq lasts" using r by (auto simp: extend_ready_def)
  define p s where "p = nat (pre ! i)" and "s = nat (seq ! i)"
  have pi: "pre ! i = int p" "0 \<le> pre ! i" using r i by (auto simp: extend_ready_def list_all_length p_def)
  then have si: "seq ! i = int s" "p \<le> s"
    using extend_batchD(3) [OF b i] by (auto simp: s_def p_def)
  define T where "T = extended_table ps p (\<lambda>_. lasts ! i div int ps) (new_page ps pre seq pages i)"
  have al: "(lasts ! i + 1) mod int ps = int p mod int ps"
    using r i by (auto simp: extend_ready_def list_all2_conv_all_nth pi)
  have rw: "paged_row ps T p row"
    unfolding row_def T_def pi si
    using request_slots_row [OF ps(1), of p "lasts ! i" "\<lambda>_. lasts ! i div int ps"] last_loc_aligned [OF ps(1) al] by blast
  have len: "int (length pages) = ?nb (length pre)" using r by (simp add: extend_ready_def)
  have "?nb (Suc i) \<le> ?nb (length pre)" by (rule new_pages_mono [OF ps(2) b]) (use i in simp_all)
  then have "nat (?nb (Suc i)) \<le> length pages" using len by linarith
  then have nb: "0 \<le> ?nb i" "?nb (Suc i) = ?nb i + (int (ceil_div s ps) - int (ceil_div p ps))"
      "nat (?nb (Suc i)) \<le> length pages"
    using new_pages_nonneg [OF ps(2) b, of i] i
    by (simp_all add: new_pages_before_Suc pi si ceil_pages_int [OF ps(1)])
  have Q: "p div ps \<le> q \<and> q < ceil_div s ps" if "q \<in> seg_page_nos ps row p" for q
  proof -
    have "length row = s - p" by (simp add: row_def pi si flip: of_nat_diff)
    moreover have "row \<noteq> []" using that by (auto simp: seg_page_nos_def)
    ultimately show ?thesis using that si seg_page_nos_range [OF ps(1), of row p] by simp
  qed
  have old: "T q = lasts ! i div int ps" "q = p div ps" "p mod ps \<noteq> 0"
    if "q \<in> seg_page_nos ps row p" "q < ceil_div p ps" for q
  proof -
    show "T q = lasts ! i div int ps" using that by (simp add: T_def extended_table_def)
    have lt: "q * ps < p" using that less_ceil_div [OF ps(1)] by simp
    have ge: "p div ps * ps \<le> q * ps" using Q [OF that(1)] by simp
    show "p mod ps \<noteq> 0"
    proof
      assume "p mod ps = 0"
      then have "p div ps * ps = p" using div_mult_mod_eq [of p ps] by simp
      then show False using ge lt by linarith
    qed
    have "q \<le> p div ps" using lt by (simp add: less_eq_div_iff_mult_less_eq [OF ps(1)])
    then show "q = p div ps" using Q [OF that(1)] by simp
  qed
  have new: "T q = pages ! (nat (?nb i) + (q - ceil_div p ps))" "nat (?nb i) + (q - ceil_div p ps) < nat (?nb (Suc i))"
    if "q \<in> seg_page_nos ps row p" "\<not> q < ceil_div p ps" for q
  proof -
    have "nat (?nb i + int (q - ceil_div p ps)) = nat (?nb i) + (q - ceil_div p ps)"
      using nb(1) nat_add_distrib [of "?nb i" "int (q - ceil_div p ps)"] by (simp only: nat_int of_nat_0_le_iff)
    then show "T q = pages ! (nat (?nb i) + (q - ceil_div p ps))"
      using that(2) unfolding T_def extended_table_def new_page_def by simp
    show "nat (?nb i) + (q - ceil_div p ps) < nat (?nb (Suc i))"
      using that Q [OF that(1)] nb by linarith
  qed
  have fresh: "lasts ! i div int ps \<notin> set pages" if "p mod ps \<noteq> 0"
    using r i that pi by (auto simp: extend_ready_def list_all2_conv_all_nth simp flip: zmod_int)
  have dp: "distinct pages" using r by (simp add: extend_ready_def)
  have "inj_on T (seg_page_nos ps row p)"
  proof (rule inj_onI)
    fix q q' assume q: "q \<in> seg_page_nos ps row p" "q' \<in> seg_page_nos ps row p" and eq: "T q = T q'"
    have in_pages: "T u \<in> set pages" if "u \<in> seg_page_nos ps row p" "\<not> u < ceil_div p ps" for u
      using new [OF that] nb(3) by simp
    consider "q < ceil_div p ps" "q' < ceil_div p ps" | "q < ceil_div p ps" "\<not> q' < ceil_div p ps"
      | "\<not> q < ceil_div p ps" "q' < ceil_div p ps" | "\<not> q < ceil_div p ps" "\<not> q' < ceil_div p ps" by blast
    then show "q = q'"
    proof cases
      case 1
      then show ?thesis using old(2) [OF q(1)] old(2) [OF q(2)] by simp
    next
      case 2
      then show ?thesis using old(1,3) [OF q(1)] in_pages [OF q(2)] eq fresh by simp
    next
      case 3
      then show ?thesis using old(1,3) [OF q(2)] in_pages [OF q(1)] eq fresh by simp
    next
      case 4
      note n = new [OF q(1) 4(1)] new [OF q(2) 4(2)]
      have bound: "nat (?nb i) + (q - ceil_div p ps) < length pages" "nat (?nb i) + (q' - ceil_div p ps) < length pages"
        using n(2,4) nb(3) by linarith+
      have "pages ! (nat (?nb i) + (q - ceil_div p ps)) = pages ! (nat (?nb i) + (q' - ceil_div p ps))"
        using n(1,3) eq by (simp only:)
      then have "nat (?nb i) + (q - ceil_div p ps) = nat (?nb i) + (q' - ceil_div p ps)"
        by (simp only: nth_eq_iff_index_eq [OF dp bound])
      then show ?thesis using 4 by linarith
    qed
  qed
  then show "distinct row" by (rule paged_row_distinct [OF ps(1) rw])
  have "T q \<in> request_pages ps pre seq lasts pages i" if "q \<in> seg_page_nos ps row p" for q
  proof (cases "q < ceil_div p ps")
    case True
    then show ?thesis using old [OF that True] pi by (simp add: request_pages_def flip: zmod_int)
  next
    case False
    then show ?thesis using new [OF that False] by (simp add: request_pages_def)
  qed
  then show "slot_pages ps row \<subseteq> request_pages ps pre seq lasts pages i"
    unfolding slot_pages_row [OF ps(1) rw] by blast
qed

lemma request_pages_disjoint:
  assumes r: "extend_ready ps pre seq lasts pages" and ij: "i < j" "j < length pre"
  shows "request_pages ps pre seq lasts pages i \<inter> request_pages ps pre seq lasts pages j = {}"
proof -
  let ?nb = "new_pages_before (int ps) pre seq"
  have ps: "0 < int ps" and b: "extend_batch pre seq lasts" and dp: "distinct pages"
    and len: "int (length pages) = ?nb (length pre)" using r by (auto simp: extend_ready_def)
  note ll = extend_batchD [OF b]
  have le: "nat (?nb (Suc i)) \<le> nat (?nb j)" "nat (?nb (Suc j)) \<le> length pages"
    using new_pages_mono [OF ps b, of "Suc i" j] new_pages_mono [OF ps b, of "Suc j" "length pre"] ij len
    by linarith+
  let ?I = "\<lambda>k. (!) pages ` {nat (?nb k)..<nat (?nb (Suc k))}"
  let ?L = "\<lambda>k. if pre ! k mod int ps = 0 then {} else {lasts ! k div int ps}"
  have II: "?I i \<inter> ?I j = {}"
    using le nth_eq_iff_index_eq [OF dp] by fastforce
  have LP: "?L k \<inter> set pages = {}" if "k < length pre" for k
    using r that by (auto simp: extend_ready_def list_all2_conv_all_nth)
  have IP: "?I k \<subseteq> set pages" if "k < length pre" for k
  proof -
    have "nat (?nb (Suc k)) \<le> length pages"
      using new_pages_mono [OF ps b, of "Suc k" "length pre"] that len by linarith
    then show ?thesis by auto
  qed
  have "lasts ! i div int ps \<noteq> lasts ! j div int ps"
    if "pre ! i mod int ps \<noteq> 0" "pre ! j mod int ps \<noteq> 0"
  proof -
    let ?z = "zip (map (\<lambda>l. l div int ps) lasts) pre" and ?P = "\<lambda>(q :: int, p). p mod int ps \<noteq> 0"
    have "distinct (map fst (filter ?P ?z))" using r by (simp add: extend_ready_def)
    moreover have "?z = take j ?z @ ?z ! j # drop (Suc j) ?z"
      using ij ll by (intro id_take_nth_drop) simp
    ultimately have "distinct (map fst (filter ?P (take j ?z @ ?z ! j # drop (Suc j) ?z)))" by simp
    moreover have "?P (?z ! j)" using that ij ll by simp
    ultimately have "fst (?z ! j) \<notin> set (map fst (filter ?P (take j ?z)))" by auto
    moreover have "?z ! i \<in> set (filter ?P (take j ?z))"
    proof -
      have "take j ?z ! i \<in> set (take j ?z)" using ij ll by (intro nth_mem) simp
      then show ?thesis using ij ll that by simp
    qed
    ultimately have "fst (?z ! j) \<noteq> fst (?z ! i)" by (auto simp del: nth_zip)
    then show ?thesis using ij ll by simp
  qed
  then have LL: "?L i \<inter> ?L j = {}"
    by (cases "pre ! i mod int ps = 0"; cases "pre ! j mod int ps = 0") (simp_all only: if_True if_False, simp_all)
  have i: "i < length pre" using ij by simp
  have "(A \<union> B) \<inter> (C \<union> D) = {}"
    if "B \<inter> D = {}" "A \<inter> C = {}" "A \<inter> P = {}" "C \<inter> P = {}" "B \<subseteq> P" "D \<subseteq> P" for A B C D P :: "int set"
    using that by blast
  from this [OF II LL LP [OF i] LP [OF ij(2)] IP [OF i] IP [OF ij(2)]]
  show ?thesis unfolding request_pages_def .
qed

lemma distinct_concat_upt:
  assumes "\<And>i. i < n \<Longrightarrow> distinct (f i)" "\<And>i j. i < j \<Longrightarrow> j < n \<Longrightarrow> set (f i) \<inter> set (f j) = {}"
  shows "distinct (concat (map f [0..<n]))"
  using assms
proof (induction n)
  case (Suc n)
  then show ?case by (auto simp: disjoint_iff)
qed simp

lemma extend_slots_distinct:
  assumes r: "extend_ready ps pre seq lasts pages"
  shows "distinct (extend_slots (int ps) pre seq lasts pages)"
  unfolding extend_slots_def
proof (rule distinct_concat_upt)
  note f = request_pages_facts [OF r, unfolded new_page_def [abs_def]]
  fix i assume "i < length pre"
  then show "distinct (request_slots (int ps) (pre ! i) (seq ! i) (lasts ! i)
      (\<lambda>k. pages ! nat (new_pages_before (int ps) pre seq i + k)))"
    by (rule f(1))
next
  note f = request_pages_facts [OF r, unfolded new_page_def [abs_def]]
  fix i j assume ij: "i < j" "j < length pre"
  have "slot_pages ps xs \<inter> slot_pages ps ys = {} \<Longrightarrow> set xs \<inter> set ys = {}" for xs ys
    by (auto simp: slot_pages_def disjoint_iff)
  then show "set (request_slots (int ps) (pre ! i) (seq ! i) (lasts ! i)
        (\<lambda>k. pages ! nat (new_pages_before (int ps) pre seq i + k))) \<inter>
      set (request_slots (int ps) (pre ! j) (seq ! j) (lasts ! j)
        (\<lambda>k. pages ! nat (new_pages_before (int ps) pre seq j + k))) = {}"
    using request_pages_disjoint [OF r ij] f(2) [of i] f(2) [of j] ij by fastforce
qed

section \<open>Properties\<close>

text \<open>
  C14: The Triton kernel alloc_extend_kernel, run program by program over the batch, computes the same slots as the reference loop alloc_extend_naive, for every page size, batch and block width, whatever the memory outside the tensors holds.
\<close>

theorem alloc_extend_kernel_equals_naive:
  assumes "0 < page_sz" "extend_batch pre seq lasts" "length pre \<le> lanes"
    and "int (length out) = extend_start pre seq (length pre)"
    and "new_pages_before (int page_sz) pre seq (length pre) \<le> int (length pages)"
  shows "alloc_extend_naive pre seq lasts pages out page_sz
       = Inr (alloc_extend_kernel junk other (length pre) pre seq lasts pages out lanes page_sz)"
  using alloc_extend_naive_slots alloc_extend_kernel_slots assms by simp

theorem alloc_extend_kernel_equals_naive_witness:
  "alloc_extend_naive [2, 0] [7, 3] [9, -1] [5, 6, 8] (replicate 8 0) 4
   = Inr (alloc_extend_kernel (\<lambda>_. 99) 0 2 [2, 0] [7, 3] [9, -1] [5, 6, 8] (replicate 8 0) 2 4)"
  using alloc_extend_kernel_equals_naive [of 4 "[2, 0]" "[7, 3]" "[9, -1]" 2 "replicate 8 0" "[5, 6, 8]" "\<lambda>_. 99" 0]
  by (simp add: extend_batch_def extend_start_def new_pages_before_def ceil_pages_def numeral_2_eq_2)

text \<open>
  C13: alloc_extend fails exactly when the batch needs more pages than the pool holds free (the pages waiting to be merged included) and then loses no page; otherwise it returns the slots of the specification on fresh pages and takes exactly those pages from the free list.
\<close>

theorem paged_alloc_extend_correct:
  assumes "paged_inv a" "\<not> debug_mode a" "extend_batch pre seq lasts"
    and "int ext = extend_start pre seq (length pre)"
    and "need = nat (new_pages_before (int (page_size a)) pre seq (length pre))"
  shows "\<exists>a'. paged_inv a' \<and> num_pages a' = num_pages a \<and> page_size a' = page_size a \<and>
    (if need > length (held_free a)
     then paged_alloc_extend junk other a pre seq lasts ext None = Inr (None, a') \<and>
          set (held_free a') = set (held_free a)
     else \<exists>pages. length pages = need \<and> distinct pages \<and> set pages \<subseteq> set (held_free a) \<and>
          set (held_free a') = set (held_free a) - set pages \<and>
          paged_alloc_extend junk other a pre seq lasts ext None
            = Inr (Some (extend_slots (int (page_size a)) pre seq lasts pages), a'))"
  unfolding assms(5) by (rule paged_alloc_extend_facts [OF assms(1-4)])

theorem paged_alloc_extend_correct_witness:
  "\<exists>a' pages. length pages = 2 \<and> set (held_free a') = {1, 2, 3} - set pages \<and>
     paged_alloc_extend (\<lambda>_. 99) 0 (paged_init 12 4 False False) [0, 0] [3, 2] [-1, -1] 5 None
       = Inr (Some (extend_slots 4 [0, 0] [3, 2] [-1, -1] pages), a')"
proof -
  let ?a = "paged_init 12 4 False False"
  have h: "free_pages ?a = [1, 2, 3]" "page_size ?a = 4" "num_pages ?a = 3" "free_group ?a = None"
    "free_page_reps_group ?a = []" "\<not> debug_mode ?a" "release_pages ?a = []"
    by (simp_all add: paged_init_def paged_clear_def torch_arange_def upt_rec)
  then have "paged_inv ?a" by (simp add: paged_inv_def base_inv_def)
  from paged_alloc_extend_correct [OF this h(6), of "[0, 0]" "[3, 2]" "[-1, -1]" 5 2 "\<lambda>_. 99" 0]
  show ?thesis
    by (auto simp: h extend_batch_def extend_start_def new_pages_before_def ceil_pages_def)
qed

text \<open>
  C25: The slots the kernel hands to a request continue its row in pages: position p lies in the page the extended page table gives for p div page_size, at offset p mod page_size, first filling the request's last partial page.
\<close>

theorem extended_rows_stay_paged:
  assumes "0 < ps" "extend_batch (map int pre) (map int seq) lasts" "length pre \<le> lanes"
    and "int (length out) = extend_start (map int pre) (map int seq) (length pre)"
    and "new_pages_before (int ps) (map int pre) (map int seq) (length pre) \<le> int (length pages)"
    and "\<And>i. i < length pre \<Longrightarrow> pre ! i mod ps \<noteq> 0 \<Longrightarrow>
      lasts ! i = T i ((pre ! i - 1) div ps) * int ps + int ((pre ! i - 1) mod ps)"
  shows "\<exists>rows. length rows = length pre \<and>
    alloc_extend_kernel junk other (length pre) (map int pre) (map int seq) lasts pages out lanes ps = concat rows \<and>
    (\<forall>i < length pre. length (rows ! i) = seq ! i - pre ! i \<and>
       paged_row ps (extended_table ps (pre ! i) (T i) (new_page ps (map int pre) (map int seq) pages i))
         (pre ! i) (rows ! i))"
proof -
  have nat_diff_int: "nat (int m - int n) = m - n" for m n by (simp flip: nat_minus_as_int)
  let ?row = "\<lambda>i. request_slots (int ps) (int (pre ! i)) (int (seq ! i)) (lasts ! i)
    (new_page ps (map int pre) (map int seq) pages i)"
  have "length seq = length pre" using extend_batchD(1) [OF assms(2)] by simp
  then have "extend_slots (int ps) (map int pre) (map int seq) lasts pages = concat (map ?row [0..<length pre])"
    unfolding extend_slots_def new_page_def [abs_def]
    by (intro arg_cong [where f = concat] map_cong) simp_all
  then have k: "alloc_extend_kernel junk other (length pre) (map int pre) (map int seq) lasts pages out lanes ps
      = concat (map ?row [0..<length pre])"
    using alloc_extend_kernel_slots [OF assms(1,2), of lanes out pages junk other] assms(3-5) by simp
  moreover have "paged_row ps (extended_table ps (pre ! i) (T i) (new_page ps (map int pre) (map int seq) pages i))
      (pre ! i) (?row i)" if "i < length pre" for i
    by (rule request_slots_row [OF assms(1)]) (rule assms(6) [OF that])
  ultimately show ?thesis
    by (intro exI [of _ "map ?row [0..<length pre]"]) (simp add: nat_diff_int)
qed

theorem extended_rows_stay_paged_witness:
  "\<exists>rows. length rows = 2 \<and>
    alloc_extend_kernel (\<lambda>_. 99) 0 2 [2, 0] [7, 3] [9, -1] [5, 6, 8] (replicate 8 0) 2 4 = concat rows \<and>
    (\<forall>i < 2. length (rows ! i) = [7, 3] ! i - [2, 0] ! i \<and>
       paged_row 4 (extended_table 4 ([2, 0] ! i) (\<lambda>_. 2) (new_page 4 [2, 0] [7, 3] [5, 6, 8] i))
         ([2, 0] ! i) (rows ! i))"
proof -
  have "lasts ! i = 2 * int 4 + int (([2, 0] ! i - 1) mod 4)"
    if "lasts = [9, -1]" "i < length [2, 0 :: nat]" "[2, 0] ! i mod 4 \<noteq> (0 :: nat)" for i and lasts :: "int list"
    using that by (cases i) auto
  then show ?thesis
    using extended_rows_stay_paged [of 4 "[2, 0]" "[7, 3]" "[9, -1]" 2 "replicate 8 0" "[5, 6, 8]" "\<lambda>_ _. 2" "\<lambda>_. 99" 0]
    by (simp add: extend_batch_def extend_start_def new_pages_before_def ceil_pages_def numeral_2_eq_2)
qed

text \<open>
  C26: No slot is handed out twice in one alloc_extend: when the last partial pages of the requests are different and not free, all returned slots are distinct.
\<close>

theorem paged_alloc_extend_no_sharing:
  assumes "extend_ready ps pre seq lasts pages" "length pre \<le> lanes"
    and "int (length out) = extend_start pre seq (length pre)"
  shows "distinct (alloc_extend_kernel junk other (length pre) pre seq lasts pages out lanes ps)"
proof -
  have "0 < ps" "extend_batch pre seq lasts"
    "new_pages_before (int ps) pre seq (length pre) \<le> int (length pages)"
    using assms(1) by (simp_all add: extend_ready_def)
  then show ?thesis
    using alloc_extend_kernel_slots extend_slots_distinct [OF assms(1)] assms(2,3) by simp
qed

theorem paged_alloc_extend_no_sharing_witness:
  "distinct (alloc_extend_kernel (\<lambda>_. 99) 0 2 [2, 1] [7, 3] [9, 12] [5] (replicate 7 0) 2 4)"
  using paged_alloc_extend_no_sharing [of 4 "[2, 1]" "[7, 3]" "[9, 12]" "[5]" 2 "replicate 7 0" "\<lambda>_. 99" 0]
  by (simp add: extend_ready_def extend_batch_def extend_start_def new_pages_before_def ceil_pages_def numeral_2_eq_2)



end
