(* ===== verification/RadixKey.thy ===== *)
theory RadixKey
  imports Prelude
begin

text \<open>
  \<open>RadixKey\<close> of \<open>srt/mem_cache/radix_cache.py\<close>: a token sequence with a namespace
  (\<open>extra_key\<close>, \<open>cache_salt\<close>), optionally read as overlapping pairs (the bigram mode of
  EAGLE) and optionally capped by \<open>limit\<close>. A key stands for its list of units, single tokens
  or pairs; slices, matching and child keys are specified on the units. Matching is the
  code's exponential search followed by a binary search.
\<close>

section \<open>State and operations\<close>

record radix_key =
  token_ids :: "int list"
  extra_key :: "string option"
  cache_salt :: "string option"
  is_bigram :: bool
  limit :: "nat option"

text \<open>The constructor: an empty salt is stored as no salt.\<close>

definition new_radix_key ::
  "int list \<Rightarrow> string option \<Rightarrow> bool \<Rightarrow> nat option \<Rightarrow> string option \<Rightarrow> radix_key" where
  "new_radix_key ids extra bigram lim salt =
     \<lparr>token_ids = ids, extra_key = extra,
      cache_salt = (case salt of Some s \<Rightarrow> if s = [] then None else Some s | None \<Rightarrow> None),
      is_bigram = bigram, limit = lim\<rparr>"

definition raw_len :: "radix_key \<Rightarrow> nat" where
  "raw_len k =
     (let n = length (token_ids k)
      in case limit k of Some l \<Rightarrow> if l < n then l else n | None \<Rightarrow> n)"

definition raw_token_ids :: "radix_key \<Rightarrow> int list" where
  "raw_token_ids k =
     (let n = raw_len k; t = token_ids k in if n = length t then t else take n t)"

definition key_len :: "radix_key \<Rightarrow> nat" where
  "key_len k =
     (let n = raw_len k in if is_bigram k then (if n > 0 then n - 1 else 0) else n)"

type_synonym key_unit = "int \<times> int option"

text \<open>\<open>__iter__\<close>: the units of a key. A pair is \<open>(t, Some t')\<close>, a single token \<open>(t, None)\<close>.\<close>

definition key_iter :: "radix_key \<Rightarrow> key_unit list" where
  "key_iter k =
     (let t = token_ids k; n = raw_len k
      in if is_bigram k then map (\<lambda>i. (t ! i, Some (t ! (i + 1)))) [0..<(if n > 0 then n - 1 else 0)]
         else if n = length t then map (\<lambda>x. (x, None)) t
         else map (\<lambda>i. (t ! i, None)) [0..<n])"

text \<open>\<open>__getitem__\<close> once the indices are normalised to \<open>start\<close> and \<open>stop\<close>.\<close>

definition key_slice :: "radix_key \<Rightarrow> nat \<Rightarrow> nat \<Rightarrow> radix_key" where
  "key_slice k start stop =
     (if is_bigram k
      then new_radix_key (if stop > start then py_slice (token_ids k) start (stop + 1) else [])
             (extra_key k) True None (cache_salt k)
      else new_radix_key (py_slice (token_ids k) start stop) (extra_key k) False None (cache_salt k))"

text \<open>\<open>slice.indices\<close> of Python for a positive step.\<close>

definition slice_bound :: "int option \<Rightarrow> nat \<Rightarrow> nat \<Rightarrow> nat" where
  "slice_bound x dflt n =
     (case x of None \<Rightarrow> dflt
      | Some i \<Rightarrow> if i < 0 then nat (max 0 (i + int n)) else nat (min i (int n)))"

datatype py_index = At int | Slice "int option" "int option" "int option"

definition key_getitem :: "radix_key \<Rightarrow> py_index \<Rightarrow> radix_key result" where
  "key_getitem k idx =
     (case idx of
        At i \<Rightarrow>
          (let i' = (if i < 0 then i + int (key_len k) else i)
           in if i' < 0 \<or> i' \<ge> int (key_len k) then Inl IndexError
              else Inr (key_slice k (nat i') (nat i' + 1)))
      | Slice start stop step \<Rightarrow>
          (if step \<noteq> None \<and> step \<noteq> Some 1 then Inl ValueError
           else Inr (key_slice k (slice_bound start 0 (key_len k)) (slice_bound stop (key_len k) (key_len k)))))"

text \<open>The slices \<open>key[:n]\<close> and \<open>key[n:]\<close> that the cache takes.\<close>

definition key_take :: "radix_key \<Rightarrow> nat \<Rightarrow> radix_key" where
  "key_take k n = key_slice k 0 (min n (key_len k))"

definition key_drop :: "radix_key \<Rightarrow> nat \<Rightarrow> radix_key" where
  "key_drop k n = key_slice k (min n (key_len k)) (key_len k)"

definition page_aligned :: "radix_key \<Rightarrow> nat \<Rightarrow> radix_key" where
  "page_aligned k page_size =
     (if page_size = 1 then k
      else let aligned_len = key_len k div page_size * page_size in key_take k aligned_len)"

definition maybe_to_bigram_view ::
  "radix_key \<Rightarrow> bool \<Rightarrow> 'v list option \<Rightarrow> radix_key \<times> 'v list option" where
  "maybe_to_bigram_view k is_eagle val =
     (if is_eagle \<and> \<not> is_bigram k
      then let k' = k\<lparr>is_bigram := True\<rparr> in (k', map_option (take (key_len k')) val)
      else (k, val))"

definition check_compatible :: "radix_key \<Rightarrow> radix_key \<Rightarrow> unit result" where
  "check_compatible k other =
     (if extra_key k \<noteq> extra_key other then Inl ValueError
      else if cache_salt k \<noteq> cache_salt other then Inl ValueError
      else Inr ())"

text \<open>The inner loop of \<open>match_at\<close>: binary search for the divergence in a window.\<close>

function bisect_window :: "int list \<Rightarrow> int list \<Rightarrow> nat \<Rightarrow> nat \<Rightarrow> nat \<Rightarrow> nat" where
  "bisect_window t0 t1 offset lo hi =
     (if hi - lo > 1
      then let mid = (lo + hi) div 2
           in if py_slice t0 lo mid = py_slice t1 (offset + lo) (offset + mid)
              then bisect_window t0 t1 offset mid hi
              else bisect_window t0 t1 offset lo mid
      else lo)"
  by pat_completeness auto
termination
  by (relation "measure (\<lambda>(t0, t1, offset, lo, hi). hi - lo)") auto

text \<open>The outer loop: windows of doubling width; \<open>step\<close> is \<open>2 ^ k\<close> after \<open>k\<close> rounds.\<close>

function gallop :: "int list \<Rightarrow> int list \<Rightarrow> nat \<Rightarrow> nat \<Rightarrow> nat \<Rightarrow> nat \<Rightarrow> nat" where
  "gallop t0 t1 offset n lo k =
     (if lo < n
      then let step = 2 ^ k; hi = (if lo + step < n then lo + step else n)
           in if py_slice t0 lo hi \<noteq> py_slice t1 (offset + lo) (offset + hi)
              then bisect_window t0 t1 offset lo hi
              else gallop t0 t1 offset n hi (Suc k)
      else n)"
  by pat_completeness auto
termination
  by (relation "measure (\<lambda>(t0, t1, offset, n, lo, k). n - lo)") (auto intro!: diff_less_mono2 simp: less_le_trans)

definition match_at :: "radix_key \<Rightarrow> radix_key \<Rightarrow> int \<Rightarrow> nat \<Rightarrow> nat result" where
  "match_at k other offset page_size =
     rbind (check_compatible k other) (\<lambda>_.
       if is_bigram k \<noteq> is_bigram other then Inl ValueError
       else if offset < 0 \<or> offset > int (key_len other) then Inl IndexError
       else
         let off = nat offset;
             n = min (raw_len k) (raw_len other - off);
             matched_tokens = gallop (token_ids k) (token_ids other) off n 0 0
         in if is_bigram k
            then let matched = min (min (matched_tokens - 1) (key_len k)) (key_len other - off)
                 in Inr (if page_size > 1 then matched div page_size * page_size else matched)
            else let m = min (min matched_tokens (key_len k)) (key_len other - off)
                 in Inr (if page_size = 1 then m else m div page_size * page_size))"

definition key_match :: "radix_key \<Rightarrow> radix_key \<Rightarrow> nat \<Rightarrow> nat result" where
  "key_match k other page_size = match_at k other 0 page_size"

text \<open>
  The dictionary key of a child: the first page of units, alone or under its namespace. The
  three shapes are pairwise different Python values (an \<open>extra_key\<close> is a string, a salted
  namespace a pair, a page consists of integers).
\<close>

datatype ckey =
    PlainKey "key_unit list"
  | ExtraKey string "key_unit list"
  | SaltedKey "string option" string "key_unit list"

definition child_key_at :: "radix_key \<Rightarrow> int \<Rightarrow> nat \<Rightarrow> ckey result" where
  "child_key_at k offset page_size =
     (if offset < 0 \<or> offset + int page_size > int (key_len k) then Inl IndexError
      else
        let off = nat offset; t = token_ids k;
            plain = (if is_bigram k then map (\<lambda>j. (t ! j, Some (t ! (j + 1)))) [off..<off + page_size]
                     else map (\<lambda>x. (x, None)) (py_slice t off (off + page_size)))
        in Inr (case cache_salt k of
                  Some salt \<Rightarrow> SaltedKey (extra_key k) salt plain
                | None \<Rightarrow> (case extra_key k of None \<Rightarrow> PlainKey plain | Some e \<Rightarrow> ExtraKey e plain)))"

definition child_key :: "radix_key \<Rightarrow> nat \<Rightarrow> ckey result" where
  "child_key k page_size = child_key_at k 0 page_size"

section \<open>Specification\<close>

text \<open>Length of the longest common prefix, element by element.\<close>

fun common_prefix :: "'a list \<Rightarrow> 'a list \<Rightarrow> nat" where
  "common_prefix (x # xs) (y # ys) = (if x = y then Suc (common_prefix xs ys) else 0)"
| "common_prefix _ _ = 0"

definition namespace :: "radix_key \<Rightarrow> string option \<times> string option" where
  "namespace k = (extra_key k, cache_salt k)"

text \<open>What the constructor guarantees: a stored salt is not empty.\<close>

definition key_ok :: "radix_key \<Rightarrow> bool" where
  "key_ok k \<longleftrightarrow> cache_salt k \<noteq> Some []"

definition same_to :: "int list \<Rightarrow> int list \<Rightarrow> nat \<Rightarrow> nat \<Rightarrow> bool" where
  "same_to t0 t1 offset m \<longleftrightarrow> take m t0 = take m (drop offset t1)"

text \<open>The raw tokens a key uses, and the units of a raw token list.\<close>

definition raw :: "radix_key \<Rightarrow> int list" where
  "raw k = take (raw_len k) (token_ids k)"

definition units :: "bool \<Rightarrow> int list \<Rightarrow> key_unit list" where
  "units bigram ts = (if bigram then zip ts (map Some (tl ts)) else map (\<lambda>x. (x, None)) ts)"

definition ckey_of :: "string option \<times> string option \<Rightarrow> key_unit list \<Rightarrow> ckey" where
  "ckey_of ns us =
     (case ns of
        (extra, Some salt) \<Rightarrow> SaltedKey extra salt us
      | (None, None) \<Rightarrow> PlainKey us
      | (Some e, None) \<Rightarrow> ExtraKey e us)"

section \<open>Common prefixes\<close>

lemma common_prefix_le: "common_prefix xs ys \<le> length xs" "common_prefix xs ys \<le> length ys"
  by (induction xs ys rule: common_prefix.induct) auto

lemma take_common_prefix: "m \<le> common_prefix xs ys \<Longrightarrow> take m xs = take m ys"
proof (induction xs ys arbitrary: m rule: common_prefix.induct)
  case (1 x xs y ys)
  then show ?case by (cases m) (auto split: if_splits)
qed auto

lemma common_prefix_ge: "m \<le> length xs \<Longrightarrow> m \<le> length ys \<Longrightarrow> take m xs = take m ys \<Longrightarrow> m \<le> common_prefix xs ys"
proof (induction xs ys arbitrary: m rule: common_prefix.induct)
  case (1 x xs y ys)
  then show ?case by (cases m) auto
qed auto

lemma common_prefix_iff:
  "m \<le> common_prefix xs ys \<longleftrightarrow> m \<le> length xs \<and> m \<le> length ys \<and> take m xs = take m ys"
  using common_prefix_le [of xs ys] take_common_prefix [of m xs ys] common_prefix_ge [of m xs ys]
  by (meson order_trans)

lemma common_prefix_eqI:
  assumes "\<And>m. m \<le> c \<longleftrightarrow> m \<le> length xs \<and> m \<le> length ys \<and> take m xs = take m ys"
  shows "common_prefix xs ys = c"
proof -
  have "m \<le> c \<longleftrightarrow> m \<le> common_prefix xs ys" for m using assms common_prefix_iff [of m xs ys] by simp
  from this [of c] this [of "common_prefix xs ys"] show ?thesis by simp
qed

lemma common_prefix_commute: "common_prefix xs ys = common_prefix ys xs"
  by (rule common_prefix_eqI) (auto simp: common_prefix_iff)

declare gallop.simps [simp del] bisect_window.simps [simp del]

section \<open>The exponential search finds the first difference\<close>

lemma same_to_mono: "same_to t0 t1 offset m \<Longrightarrow> m' \<le> m \<Longrightarrow> same_to t0 t1 offset m'"
  unfolding same_to_def by (metis min.absorb1 take_take)

lemma slice_same_to:
  assumes "lo \<le> hi" "same_to t0 t1 offset lo"
  shows "py_slice t0 lo hi = py_slice t1 (offset + lo) (offset + hi) \<longleftrightarrow> same_to t0 t1 offset hi"
proof -
  have split: "take hi xs = take lo xs @ take (hi - lo) (drop lo xs)" for xs :: "int list"
    using assms(1) take_add [of lo "hi - lo" xs] by simp
  have "py_slice t1 (offset + lo) (offset + hi) = take (hi - lo) (drop lo (drop offset t1))"
    by (simp add: py_slice_def add.commute)
  then show ?thesis
    using assms(2) unfolding same_to_def split [of t0] split [of "drop offset t1"]
    by (simp add: py_slice_def)
qed

lemma bisect_window_diff:
  assumes "same_to t0 t1 offset lo" "\<not> same_to t0 t1 offset hi"
  shows "same_to t0 t1 offset (bisect_window t0 t1 offset lo hi) \<and>
    \<not> same_to t0 t1 offset (Suc (bisect_window t0 t1 offset lo hi)) \<and> bisect_window t0 t1 offset lo hi < hi"
  using assms
proof (induction t0 t1 offset lo hi rule: bisect_window.induct)
  case (1 t0 t1 offset lo hi)
  have lt: "lo < hi" using 1(3,4) same_to_mono [of t0 t1 offset lo hi] by (meson not_le)
  show ?case
  proof (cases "hi - lo > 1")
    case True
    define mid where "mid = (lo + hi) div 2"
    have mid: "lo \<le> mid" "mid < hi" using True by (auto simp: mid_def)
    note eq = slice_same_to [OF mid(1) 1(3)]
    note step = bisect_window.simps [of t0 t1 offset lo hi, folded mid_def]
    show ?thesis
    proof (cases "same_to t0 t1 offset mid")
      case s: True
      with 1(1) [OF True mid_def] eq 1(4) True show ?thesis unfolding step by (simp add: Let_def)
    next
      case s: False
      with 1(2) [OF True mid_def] eq 1(3) True mid show ?thesis unfolding step by (fastforce simp: Let_def)
    qed
  next
    case False
    then have "hi = Suc lo" using lt by simp
    then show ?thesis using 1(3,4) by (simp add: bisect_window.simps)
  qed
qed

lemma gallop_diff:
  assumes "same_to t0 t1 offset lo" "lo \<le> n"
  shows "same_to t0 t1 offset (gallop t0 t1 offset n lo k) \<and> gallop t0 t1 offset n lo k \<le> n \<and>
    (gallop t0 t1 offset n lo k < n \<longrightarrow> \<not> same_to t0 t1 offset (Suc (gallop t0 t1 offset n lo k)))"
  using assms
proof (induction t0 t1 offset n lo k rule: gallop.induct)
  case (1 t0 t1 offset n lo k)
  show ?case
  proof (cases "lo < n")
    case True
    define hi where "hi = (if lo + 2 ^ k < n then lo + 2 ^ k else n)"
    have hi: "lo \<le> hi" "hi \<le> n" using True by (auto simp: hi_def)
    note eq = slice_same_to [OF hi(1) 1(2)]
    note step = gallop.simps [of t0 t1 offset n lo k, unfolded Let_def, folded hi_def]
    show ?thesis
    proof (cases "same_to t0 t1 offset hi")
      case s: True
      with 1(1) [OF True refl hi_def] eq hi True show ?thesis unfolding step by simp
    next
      case s: False
      with bisect_window_diff [OF 1(2) s] eq hi True show ?thesis unfolding step by auto
    qed
  next
    case False
    then show ?thesis using 1 by (simp add: gallop.simps)
  qed
qed

lemma gallop_common_prefix:
  assumes "n \<le> length t0" "n \<le> length t1 - offset"
  shows "gallop t0 t1 offset n 0 0 = common_prefix (take n t0) (take n (drop offset t1))"
proof -
  let ?g = "gallop t0 t1 offset n 0 0"
  have g: "same_to t0 t1 offset ?g" "?g \<le> n" "?g < n \<Longrightarrow> \<not> same_to t0 t1 offset (Suc ?g)"
    using gallop_diff [of t0 t1 offset 0 n 0] by (auto simp: same_to_def)
  have "m \<le> ?g \<longleftrightarrow> m \<le> n \<and> same_to t0 t1 offset m" for m
  proof (cases "m \<le> ?g")
    case True
    then show ?thesis using g(2) same_to_mono [OF g(1) True] by simp
  next
    case False
    then have "\<not> (m \<le> n \<and> same_to t0 t1 offset m)"
      using g(3) same_to_mono [of t0 t1 offset m "Suc ?g"] by auto
    then show ?thesis using False by blast
  qed
  then show ?thesis
    using assms by (intro common_prefix_eqI [symmetric]) (auto simp: same_to_def min_def)
qed

section \<open>Keys as lists of units\<close>

lemma raw_len_le: "raw_len k \<le> length (token_ids k)"
  by (simp add: raw_len_def Let_def split: option.split)

lemma length_raw [simp]: "length (raw k) = raw_len k"
  using raw_len_le [of k] by (simp add: raw_def)

lemma raw_token_ids_raw: "raw_token_ids k = raw k"
  by (simp add: raw_token_ids_def raw_def Let_def)

lemma length_units: "length (units b ts) = (if b then length ts - 1 else length ts)"
  by (simp add: units_def)

lemma nth_units: "i < length (units b ts) \<Longrightarrow> units b ts ! i = (ts ! i, if b then Some (ts ! Suc i) else None)"
  by (auto simp: units_def nth_tl)

lemma key_iter_units: "key_iter k = units (is_bigram k) (raw k)"
proof (rule nth_equalityI)
  show len: "length (key_iter k) = length (units (is_bigram k) (raw k))"
    using raw_len_le [of k] by (simp add: key_iter_def length_units Let_def)
  fix i assume "i < length (key_iter k)"
  then have i: "i < length (units (is_bigram k) (raw k))" using len by simp
  show "key_iter k ! i = units (is_bigram k) (raw k) ! i"
    using i raw_len_le [of k] unfolding nth_units [OF i]
    by (auto simp: key_iter_def length_units Let_def raw_def split: if_splits)
qed

lemma length_key_iter [simp]: "length (key_iter k) = key_len k"
  by (simp add: key_iter_units length_units key_len_def Let_def)

lemma units_Cons: "units True (x # xs) = (case xs of [] \<Rightarrow> [] | y # ys \<Rightarrow> (x, Some y) # units True xs)"
  by (simp add: units_def split: list.split)

lemma common_prefix_units:
  "common_prefix (units b xs) (units b ys) = (if b then common_prefix xs ys - 1 else common_prefix xs ys)"
proof (cases b)
  case True
  have "common_prefix (units True xs) (units True ys) = common_prefix xs ys - 1"
  proof (induction xs ys rule: common_prefix.induct)
    case (1 x xs y ys)
    then show ?case
      by (cases xs; cases ys) (auto simp: units_Cons split: if_splits)
  qed (auto simp: units_def)
  then show ?thesis using True by simp
next
  case False
  have "common_prefix (map (\<lambda>x. (x, None :: int option)) xs) (map (\<lambda>x. (x, None)) ys) = common_prefix xs ys"
    by (induction xs ys rule: common_prefix.induct) auto
  then show ?thesis using False by (simp add: units_def)
qed

lemma drop_units: "drop n (units b ts) = units b (drop n ts)"
proof (rule nth_equalityI)
  show "length (drop n (units b ts)) = length (units b (drop n ts))" by (simp add: length_units)
  fix i assume "i < length (drop n (units b ts))"
  then have "n + i < length (units b ts)" "i < length (units b (drop n ts))" by (auto simp: length_units)
  then show "drop n (units b ts) ! i = units b (drop n ts) ! i" by (auto simp: nth_units length_units)
qed

lemma take_units: "take n (units b ts) = units b (take (if b \<and> 0 < n then Suc n else n) ts)"
proof (rule nth_equalityI)
  show "length (take n (units b ts)) = length (units b (take (if b \<and> 0 < n then Suc n else n) ts))"
    by (auto simp: length_units)
  fix i assume i: "i < length (take n (units b ts))"
  then have "i < length (units b (take (if b \<and> 0 < n then Suc n else n) ts))"
    by (auto simp: length_units split: if_splits)
  then show "take n (units b ts) ! i = units b (take (if b \<and> 0 < n then Suc n else n) ts) ! i"
    using i by (auto simp: nth_units length_units split: if_splits)
qed

lemma match_at_common_prefix:
  assumes "namespace k = namespace other" "is_bigram k = is_bigram other" "offset \<le> key_len other" "0 < ps"
  shows "match_at k other (int offset) ps = Inr (common_prefix (key_iter k) (drop offset (key_iter other)) div ps * ps)"
proof -
  let ?n = "min (raw_len k) (raw_len other - offset)"
  let ?c = "common_prefix (key_iter k) (drop offset (key_iter other))"
  have le: "raw_len k \<le> length (token_ids k)" "raw_len other \<le> length (token_ids other)" by (rule raw_len_le)+
  have g: "gallop (token_ids k) (token_ids other) offset ?n 0 0 = common_prefix (raw k) (drop offset (raw other))"
  proof -
    have "gallop (token_ids k) (token_ids other) offset ?n 0 0
        = common_prefix (take ?n (token_ids k)) (take ?n (drop offset (token_ids other)))"
      by (rule gallop_common_prefix) (use le in auto)
    also have "\<dots> = common_prefix (raw k) (drop offset (raw other))"
      by (rule common_prefix_eqI) (use le in \<open>auto simp: raw_def common_prefix_iff drop_take min_def\<close>)
    finally show ?thesis .
  qed
  have c: "?c = (if is_bigram k then common_prefix (raw k) (drop offset (raw other)) - 1
      else common_prefix (raw k) (drop offset (raw other)))"
    unfolding key_iter_units drop_units assms(2) [symmetric] by (rule common_prefix_units)
  define M where "M = common_prefix (raw k) (drop offset (raw other))"
  have "?c \<le> key_len k" "?c \<le> key_len other - offset"
    using common_prefix_le [of "key_iter k" "drop offset (key_iter other)"] by simp_all
  then have m: "min (min ?c (key_len k)) (key_len other - offset) = ?c" by linarith
  have ok: "check_compatible k other = Inr ()"
    using assms(1) by (simp add: check_compatible_def namespace_def)
  have neg: "\<not> (int offset < 0 \<or> int offset > int (key_len other))" using assms(3) by simp
  have "match_at k other (int offset) ps =
      (if is_bigram k
       then Inr (if ps > 1 then min (min (M - 1) (key_len k)) (key_len other - offset) div ps * ps
                 else min (min (M - 1) (key_len k)) (key_len other - offset))
       else Inr (if ps = 1 then min (min M (key_len k)) (key_len other - offset)
                 else min (min M (key_len k)) (key_len other - offset) div ps * ps))"
    unfolding match_at_def ok rbind_simps if_not_P [OF neg] Let_def nat_int g M_def [symmetric]
    by (simp add: assms(2))
  moreover have "(if is_bigram k then min (min (M - 1) (key_len k)) (key_len other - offset)
      else min (min M (key_len k)) (key_len other - offset)) = ?c"
    using m c unfolding M_def [symmetric] by (cases "is_bigram k") (simp_all only: if_True if_False)
  moreover have "ps = 1" if "\<not> ps > 1" using that assms(4) by linarith
  ultimately show ?thesis by (cases "is_bigram k"; cases "ps > 1") simp_all
qed

section \<open>Slices and child keys on units\<close>

lemma ckey_of_inj: "ckey_of ns us = ckey_of ns' us' \<longleftrightarrow> ns = ns' \<and> us = us'"
  by (auto simp: ckey_of_def split: prod.splits option.splits)

lemma new_radix_key_simps [simp]:
  "token_ids (new_radix_key ids e b l s) = ids"
  "extra_key (new_radix_key ids e b l s) = e"
  "is_bigram (new_radix_key ids e b l s) = b"
  "limit (new_radix_key ids e b l s) = l"
  by (simp_all add: new_radix_key_def)

lemma new_radix_key_salt [simp]: "s \<noteq> Some [] \<Longrightarrow> cache_salt (new_radix_key ids e b l s) = s"
  by (simp add: new_radix_key_def split: option.split)

lemma key_ok_new [simp]: "key_ok (new_radix_key ids e b l s)"
  by (simp add: key_ok_def new_radix_key_def split: option.split)

lemma raw_unlimited: "limit k = None \<Longrightarrow> raw k = token_ids k"
  by (simp add: raw_def raw_len_def)

lemma key_slice_simps [simp]:
  "is_bigram (key_slice k a b) = is_bigram k"
  "limit (key_slice k a b) = None"
  "key_ok (key_slice k a b)"
  "key_ok k \<Longrightarrow> namespace (key_slice k a b) = namespace k"
  by (simp_all add: key_slice_def) (simp add: namespace_def key_ok_def)

lemma key_iter_slice:
  assumes "a \<le> b" "b \<le> key_len k"
  shows "key_iter (key_slice k a b) = take (b - a) (drop a (key_iter k))"
proof -
  have le: "raw_len k \<le> length (token_ids k)" by (rule raw_len_le)
  have rk: "raw (key_slice k a b) = token_ids (key_slice k a b)"
    by (rule raw_unlimited) simp
  have bound: "b + (if is_bigram k then 1 else 0) \<le> raw_len k \<or> b = 0"
    using assms(2) by (auto simp: key_len_def Let_def split: if_splits)
  have cut: "take m (drop a (raw k)) = take m (drop a (token_ids k))" if "a + m \<le> raw_len k" for m
    using that unfolding raw_def by (simp add: drop_take min_def)
  show ?thesis
  proof (cases "is_bigram k")
    case False
    have "take (b - a) (drop a (raw k)) = take (b - a) (drop a (token_ids k))"
      using bound False assms(1) by (intro cut) auto
    then show ?thesis
      unfolding key_iter_units rk drop_units take_units using False
      by (simp add: key_slice_def py_slice_def)
  next
    case True
    show ?thesis
    proof (cases "a < b")
      case lt: True
      then have "take (Suc (b - a)) (drop a (raw k)) = take (Suc (b - a)) (drop a (token_ids k))"
        using bound True by (intro cut) auto
      then show ?thesis
        unfolding key_iter_units rk drop_units take_units using True lt
        by (simp add: key_slice_def py_slice_def Suc_diff_le)
    next
      case False
      then show ?thesis
        unfolding key_iter_units rk drop_units take_units using True assms(1)
        by (simp add: key_slice_def units_def)
    qed
  qed
qed

lemma key_take_simps [simp]:
  "is_bigram (key_take k n) = is_bigram k"
  "key_ok (key_take k n)"
  "key_ok k \<Longrightarrow> namespace (key_take k n) = namespace k"
  "key_iter (key_take k n) = take n (key_iter k)"
  by (simp_all add: key_take_def key_iter_slice) (simp add: min_def)

lemma key_drop_simps [simp]:
  "is_bigram (key_drop k n) = is_bigram k"
  "key_ok (key_drop k n)"
  "key_ok k \<Longrightarrow> namespace (key_drop k n) = namespace k"
  "key_iter (key_drop k n) = drop n (key_iter k)"
  by (simp_all add: key_drop_def key_iter_slice min_def)

lemma key_len_slices [simp]:
  "key_len (key_take k n) = min n (key_len k)"
  "key_len (key_drop k n) = key_len k - n"
  using length_key_iter [of "key_take k n"] length_key_iter [of "key_drop k n"] by simp_all

lemma key_getitem_slices:
  "key_getitem k (Slice None (Some (int n)) None) = Inr (key_take k n)"
  "key_getitem k (Slice (Some (int n)) None None) = Inr (key_drop k n)"
  by (simp_all add: key_getitem_def slice_bound_def key_take_def key_drop_def min_def)

lemma page_aligned_simps [simp]:
  "is_bigram (page_aligned k ps) = is_bigram k"
  "key_ok k \<Longrightarrow> key_ok (page_aligned k ps)"
  "key_ok k \<Longrightarrow> namespace (page_aligned k ps) = namespace k"
  "key_iter (page_aligned k ps) = take (key_len k div ps * ps) (key_iter k)"
  by (simp_all add: page_aligned_def)

lemma key_len_page_aligned [simp]: "key_len (page_aligned k ps) = key_len k div ps * ps"
proof -
  have "key_len k div ps * ps \<le> key_len k" by simp
  then show ?thesis using length_key_iter [of "page_aligned k ps"] by (simp add: min_absorb2)
qed

lemma child_key_iter:
  "child_key k ps =
     (if ps \<le> key_len k then Inr (ckey_of (namespace k) (take ps (key_iter k))) else Inl IndexError)"
proof (cases "ps \<le> key_len k")
  case True
  have pl: "(if is_bigram k then map (\<lambda>j. (token_ids k ! j, Some (token_ids k ! (j + 1)))) [0..<0 + ps]
      else map (\<lambda>x. (x, None)) (py_slice (token_ids k) 0 (0 + ps))) = take ps (key_iter k)" (is "?l = ?r")
  proof (rule nth_equalityI)
    show len: "length ?l = length ?r"
      using True raw_len_le [of k] by (auto simp: py_slice_def key_len_def Let_def split: if_splits)
    fix i assume "i < length ?l"
    then have i: "i < ps" "i < length (units (is_bigram k) (raw k))"
      using len True by (auto simp flip: key_iter_units)
    then show "?l ! i = ?r ! i"
      using True raw_len_le [of k] unfolding key_iter_units
      by (auto simp: nth_units py_slice_def raw_def length_units split: if_splits)
  qed
  have "child_key k ps = Inr (case cache_salt k of
        Some salt \<Rightarrow> SaltedKey (extra_key k) salt ?r
      | None \<Rightarrow> (case extra_key k of None \<Rightarrow> PlainKey ?r | Some e \<Rightarrow> ExtraKey e ?r))"
    using True unfolding child_key_def child_key_at_def Let_def nat_0 pl by simp
  then show ?thesis using True by (simp add: ckey_of_def namespace_def split: option.split)
qed (simp add: child_key_def child_key_at_def)

lemma key_match_iter:
  assumes "namespace k = namespace other" "is_bigram k = is_bigram other" "0 < ps"
  shows "key_match k other ps = Inr (common_prefix (key_iter k) (key_iter other) div ps * ps)"
  using match_at_common_prefix [OF assms(1,2), of 0 ps] assms(3) by (simp add: key_match_def)

section \<open>Properties\<close>

text \<open>
  C24: match_at, with its exponential and binary search over the raw tokens, returns the longest common prefix of the two unit sequences (the second from the offset on) rounded down to whole pages, in token and in bigram mode and with or without a limit; it raises ValueError exactly when the namespaces or the modes differ, and otherwise IndexError exactly when the offset is out of range.
\<close>

theorem match_at_is_common_prefix:
  assumes "0 < page_size"
  shows "match_at k other offset page_size =
    (if namespace k \<noteq> namespace other \<or> is_bigram k \<noteq> is_bigram other then Inl ValueError
     else if offset < 0 \<or> offset > int (key_len other) then Inl IndexError
     else Inr (common_prefix (key_iter k) (drop (nat offset) (key_iter other)) div page_size * page_size))"
proof (cases "namespace k = namespace other \<and> is_bigram k = is_bigram other \<and> 0 \<le> offset \<and> offset \<le> int (key_len other)")
  case True
  then show ?thesis using match_at_common_prefix [of k other "nat offset"] assms by auto
next
  case False
  then show ?thesis
    by (auto simp: match_at_def check_compatible_def namespace_def)
qed

theorem match_at_is_common_prefix_witness:
  "match_at (new_radix_key [7, 1, 2, 3, 9] None True None None) (new_radix_key [5, 7, 1, 2, 3, 4] None True None None) 1 2 = Inr 2"
  unfolding match_at_is_common_prefix [of 2, simplified]
  by code_simp

text \<open>
  Two keys get the same child key exactly when they agree on the namespace (extra_key and cache_salt) and on their first page, so entries of different namespaces never share a node; child_key raises IndexError exactly when the key is shorter than a page.
\<close>

lemma child_key_separates:
  "child_key k page_size =
     (if page_size \<le> key_len k then Inr (ckey_of (namespace k) (take page_size (key_iter k))) else Inl IndexError) \<and>
   (ckey_of ns us = ckey_of ns' us' \<longleftrightarrow> ns = ns' \<and> us = us')"
  by (simp only: child_key_iter ckey_of_inj)

text \<open>
  C39: Slicing a key slices its unit sequence: key[:n] and key[n:] stand for the first n units and the rest (also in bigram mode, where the raw slices share a token), so the two halves of a split node spell the node's key again, in the same namespace and mode.
\<close>

theorem key_split_roundtrip:
  "key_getitem k (Slice None (Some (int n)) None) = Inr (key_take k n) \<and>
   key_getitem k (Slice (Some (int n)) None None) = Inr (key_drop k n) \<and>
   key_iter (key_take k n) = take n (key_iter k) \<and> key_iter (key_drop k n) = drop n (key_iter k) \<and>
   key_iter (key_take k n) @ key_iter (key_drop k n) = key_iter k \<and>
   is_bigram (key_take k n) = is_bigram k \<and> is_bigram (key_drop k n) = is_bigram k \<and>
   (key_ok k \<longrightarrow> namespace (key_take k n) = namespace k \<and> namespace (key_drop k n) = namespace k)"
  by (simp add: key_getitem_slices)

theorem key_split_roundtrip_witness:
  "key_iter (key_take (new_radix_key [7, 1, 2, 3] (Some ''lora'') True (Some 3) (Some ''s'')) 1) @
   key_iter (key_drop (new_radix_key [7, 1, 2, 3] (Some ''lora'') True (Some 3) (Some ''s'')) 1)
   = [(7, Some 1), (1, Some 2)] \<and>
   namespace (key_drop (new_radix_key [7, 1, 2, 3] (Some ''lora'') True (Some 3) (Some ''s'')) 1) = (Some ''lora'', Some ''s'')"
proof -
  let ?k = "new_radix_key [7, 1, 2, 3] (Some ''lora'') True (Some 3) (Some ''s'')"
  have "key_iter ?k = [(7, Some 1), (1, Some 2)]" "key_ok ?k" "namespace ?k = (Some ''lora'', Some ''s'')"
    by code_simp+
  then show ?thesis using key_split_roundtrip [of ?k 1] by simp
qed

end
