(* ===== verification/TreeNode.thy ===== *)
theory TreeNode
  imports RadixKey "HOL-Library.List_Lexorder"
begin

text \<open>
  The nodes of the radix tree (\<open>TreeNode\<close> in \<open>srt/mem_cache/radix_cache.py\<close>) in an explicit
  store: a node is an address, \<open>nodes\<close> maps the addresses of live objects to their fields,
  and \<open>children\<close> and \<open>parent\<close> hold addresses, so that a node held by a request and the same
  node reached through the tree are one object. With them the eviction strategies of
  \<open>srt/mem_cache/evict_policy.py\<close>, which rank nodes, and the store operations.
\<close>

section \<open>Nodes\<close>

record tree_node =
  children :: "(ckey \<times> nat) list"
  parent :: "nat option"
  key :: radix_key
  val :: "int list option"
  lock_ref :: int
  last_access_time :: int
  creation_time :: int
  hit_count :: nat
  host_ref_counter :: nat
  host_value :: "int list option"
  write_through_pending_id :: "nat option"
  hash_value :: "string list option"
  event_hash_value :: "string list option"
  priority :: int

type_synonym store = "nat \<rightharpoonup> tree_node"

text \<open>\<open>__init__\<close>: no children, no parent; the key is assigned by the caller.\<close>

definition blank_node :: "int \<Rightarrow> int \<Rightarrow> int \<Rightarrow> tree_node" where
  "blank_node prio access_time created =
     \<lparr>children = [], parent = None, key = new_radix_key [] None False None None, val = None,
      lock_ref = 0, last_access_time = access_time, creation_time = created, hit_count = 0,
      host_ref_counter = 0, host_value = None, write_through_pending_id = None,
      hash_value = None, event_hash_value = None, priority = prio\<rparr>"

definition evicted :: "tree_node \<Rightarrow> bool" where
  "evicted nd \<longleftrightarrow> val nd = None"

definition backuped :: "tree_node \<Rightarrow> bool" where
  "backuped nd \<longleftrightarrow> host_value nd \<noteq> None"

definition protect_host :: "tree_node \<Rightarrow> tree_node" where
  "protect_host nd = nd\<lparr>host_ref_counter := host_ref_counter nd + 1\<rparr>"

definition release_host :: "tree_node \<Rightarrow> tree_node result" where
  "release_host nd =
     (if host_ref_counter nd > 0 then Inr (nd\<lparr>host_ref_counter := host_ref_counter nd - 1\<rparr>)
      else Inl RuntimeError)"

definition get_last_hash_value :: "tree_node \<Rightarrow> string option" where
  "get_last_hash_value nd =
     (case hash_value nd of None \<Rightarrow> None | Some hs \<Rightarrow> if length hs = 0 then None else Some (last hs))"

section \<open>Eviction strategies\<close>

datatype strategy = LRU | LFU | FIFO | MRU | FILO | Priority | SLRU int

text \<open>
  \<open>get_priority\<close>: a number or a pair. Both are lists here, compared lexicographically as
  Python compares tuples; one strategy always returns lists of one length.
\<close>

fun get_priority :: "strategy \<Rightarrow> tree_node \<Rightarrow> int list" where
  "get_priority LRU nd = [last_access_time nd]"
| "get_priority LFU nd = [int (hit_count nd), last_access_time nd]"
| "get_priority FIFO nd = [creation_time nd]"
| "get_priority MRU nd = [- last_access_time nd]"
| "get_priority FILO nd = [- creation_time nd]"
| "get_priority Priority nd = [priority nd, last_access_time nd]"
| "get_priority (SLRU protected_threshold) nd =
     (let is_protected = (if int (hit_count nd) \<ge> protected_threshold then 1 else 0)
      in [is_protected, last_access_time nd])"

text \<open>\<open>str.lower\<close> on the ASCII letters.\<close>

definition lower_char :: "char \<Rightarrow> char" where
  "lower_char c = (let n = of_char c :: nat in if 65 \<le> n \<and> n \<le> 90 then char_of (n + 32) else c)"

definition get_eviction_strategy :: "string \<Rightarrow> strategy result" where
  "get_eviction_strategy eviction_policy =
     (let policy = map lower_char eviction_policy
      in of_option ValueError
           (map_of [(''lru'', LRU), (''lfu'', LFU), (''fifo'', FIFO), (''mru'', MRU),
                    (''filo'', FILO), (''priority'', Priority), (''slru'', SLRU 2)] policy))"

text \<open>
  The eviction heap holds \<open>(priority, node)\<close> pairs; on equal priorities Python falls back to
  \<open>TreeNode.__lt__\<close>, which compares access times. Popping removes a smallest entry, the first
  such one.
\<close>

type_synonym heap_entry = "int list \<times> int \<times> nat"

definition entry_less :: "heap_entry \<Rightarrow> heap_entry \<Rightarrow> bool" where
  "entry_less a b \<longleftrightarrow> fst a < fst b \<or> (fst a = fst b \<and> fst (snd a) < fst (snd b))"

fun heap_min :: "heap_entry \<Rightarrow> heap_entry list \<Rightarrow> heap_entry" where
  "heap_min best [] = best"
| "heap_min best (e # es) = heap_min (if entry_less e best then e else best) es"

definition heappop :: "heap_entry list \<Rightarrow> (heap_entry \<times> heap_entry list) option" where
  "heappop heap =
     (case heap of [] \<Rightarrow> None | e # es \<Rightarrow> let m = heap_min e es in Some (m, remove1 m heap))"

definition heap_entry_of :: "strategy \<Rightarrow> nat \<Rightarrow> tree_node \<Rightarrow> heap_entry" where
  "heap_entry_of strat n nd = (get_priority strat nd, last_access_time nd, n)"

section \<open>Store access\<close>

definition get_node :: "store \<Rightarrow> nat \<Rightarrow> tree_node result" where
  "get_node st n = of_option AttributeError (st n)"

definition set_node :: "store \<Rightarrow> nat \<Rightarrow> (tree_node \<Rightarrow> tree_node) \<Rightarrow> store" where
  "set_node st n f = st(n := map_option f (st n))"

section \<open>Lemmas\<close>

lemma get_node_simps [simp]:
  "st n = Some nd \<Longrightarrow> get_node st n = Inr nd"
  "st n = None \<Longrightarrow> get_node st n = Inl AttributeError"
  "get_node st n = Inr nd \<longleftrightarrow> st n = Some nd"
  by (auto simp: get_node_def of_option_def split: option.splits)

lemma set_node_apply: "set_node st n f m = (if m = n then map_option f (st n) else st m)"
  by (simp add: set_node_def)

lemma dom_set_node [simp]: "dom (set_node st n f) = dom st"
  by (auto simp: set_node_apply split: if_splits)

lemma set_node_other [simp]: "m \<noteq> n \<Longrightarrow> set_node st n f m = st m"
  by (simp add: set_node_apply)

lemma set_node_same [simp]: "st n = Some nd \<Longrightarrow> set_node st n f n = Some (f nd)"
  by (simp add: set_node_apply)

lemma entry_less_trans: "entry_less a b \<Longrightarrow> entry_less b c \<Longrightarrow> entry_less a c"
  unfolding entry_less_def by auto

lemma not_entry_less_trans: "\<not> entry_less b a \<Longrightarrow> \<not> entry_less c b \<Longrightarrow> \<not> entry_less c a"
  unfolding entry_less_def by auto

lemma heap_min_mem: "heap_min best es \<in> insert best (set es)"
  by (induction es arbitrary: best) (auto split: if_splits)

lemma heap_min_least: "e \<in> insert best (set es) \<Longrightarrow> \<not> entry_less e (heap_min best es)"
proof (induction es arbitrary: best e)
  case Nil
  then show ?case by (simp add: entry_less_def)
next
  case (Cons x es)
  let ?b = "if entry_less x best then x else best"
  have b: "\<not> entry_less ?b (heap_min ?b es)" by (rule Cons.IH) simp
  have "\<not> entry_less best ?b" "\<not> entry_less x ?b"
    by (auto simp: entry_less_def)
  then have "\<not> entry_less best (heap_min ?b es)" "\<not> entry_less x (heap_min ?b es)"
    using b not_entry_less_trans by blast+
  then show ?case using Cons.IH [of e ?b] Cons.prems by (auto split: if_splits)
qed

lemma heappop_Some:
  assumes "heappop heap = Some (m, rest)"
  shows "m \<in> set heap" "mset heap = add_mset m (mset rest)" "\<forall>e \<in> set heap. \<not> entry_less e m"
proof -
  from assms obtain e es where h: "heap = e # es" and m: "m = heap_min e es" "rest = remove1 m heap"
    by (auto simp: heappop_def Let_def split: list.splits)
  show mem: "m \<in> set heap" using heap_min_mem [of e es] h m by simp
  then show "mset heap = add_mset m (mset rest)" by (simp add: m(2))
  show "\<forall>e \<in> set heap. \<not> entry_less e m" using heap_min_least [of _ e es] h m(1) by auto
qed

lemma heappop_None: "heappop heap = None \<longleftrightarrow> heap = []"
  by (simp add: heappop_def Let_def split: list.splits)

end
