(* ===== verification/KvEvents.thy ===== *)
theory KvEvents
  imports TreeNode
begin

text \<open>
  KV placement events: \<open>KVCacheEventRecorder\<close> of \<open>srt/mem_cache/events.py\<close> and the hash helpers
  of \<open>srt/mem_cache/utils.py\<close>. The page hashes come from a compiled extension and the salt digest
  from SHA-256: both are arguments (\<open>hash_env\<close>). Hash strings are hexadecimal; the first 64 bits,
  read as a signed integer, name a block in an event.
\<close>

section \<open>Hashes\<close>

record hash_env =
  page_hashes :: "radix_key \<Rightarrow> string option \<Rightarrow> nat \<Rightarrow> string list"
  salt_digest :: "string \<Rightarrow> string"

definition hex_digit :: "char \<Rightarrow> nat option" where
  "hex_digit c =
     (let n = of_char c
      in if 48 \<le> n \<and> n \<le> 57 then Some (n - 48)
         else if 97 \<le> n \<and> n \<le> 102 then Some (n - 87)
         else if 65 \<le> n \<and> n \<le> 70 then Some (n - 55)
         else None)"

fun hex_value :: "int \<Rightarrow> string \<Rightarrow> int option" where
  "hex_value acc [] = Some acc"
| "hex_value acc (c # cs) =
     (case hex_digit c of None \<Rightarrow> None | Some d \<Rightarrow> hex_value (acc * 16 + int d) cs)"

text \<open>\<open>int(s, 16)\<close> on a string of hexadecimal digits.\<close>

definition py_int16 :: "string \<Rightarrow> int result" where
  "py_int16 s = (if s = [] then Inl ValueError else of_option ValueError (hex_value 0 s))"

definition hash_str_to_int64 :: "string \<Rightarrow> int result" where
  "hash_str_to_int64 hash_str =
     rbind (py_int16 (take 16 hash_str)) (\<lambda>uint64_val.
       if uint64_val \<ge> 2 ^ 63 then Inr (uint64_val - 2 ^ 64) else Inr uint64_val)"

text \<open>\<open>get_hash_str(key, prior_hash, page_size)\<close>: an empty prior hash counts as none.\<close>

definition get_hash_str :: "'e hash_env_scheme \<Rightarrow> radix_key \<Rightarrow> string option \<Rightarrow> nat \<Rightarrow> string list" where
  "get_hash_str E k prior_hash page_size =
     page_hashes E k (case prior_hash of Some h \<Rightarrow> if h = [] then None else Some h | None \<Rightarrow> None) page_size"

definition compute_node_hash_values :: "'e hash_env_scheme \<Rightarrow> store \<Rightarrow> tree_node \<Rightarrow> nat \<Rightarrow> string list result" where
  "compute_node_hash_values E st nd page_size =
     rbind
       (case parent nd of
          None \<Rightarrow> Inr None
        | Some p \<Rightarrow> rbind (get_node st p) (\<lambda>pn.
            Inr (case hash_value pn of
                   None \<Rightarrow> None
                 | Some hs \<Rightarrow> if key_len (key pn) > 0 \<and> length hs > 0 then Some (last hs) else None)))
       (\<lambda>parent_hash. Inr (get_hash_str E (key nd) parent_hash page_size))"

text \<open>
  The walk of \<open>compute_node_event_hash_values\<close> to the nearest ancestor that has event hashes;
  \<open>None\<close> is the parent of the root. The fuel bounds the walk by the number of addresses.
\<close>

fun missing_walk ::
  "nat \<Rightarrow> store \<Rightarrow> string option \<Rightarrow> nat list \<Rightarrow> nat option \<Rightarrow> (nat list \<times> nat option) result"
where
  "missing_walk fuel st salt missing None = Inr (missing, None)"
| "missing_walk 0 st salt missing (Some n) = Inl Diverges"
| "missing_walk (Suc fuel) st salt missing (Some n) =
     rbind (get_node st n) (\<lambda>nd.
       if key_len (key nd) > 0 \<and> event_hash_value nd = None
       then if cache_salt (key nd) \<noteq> salt then Inl ValueError
            else missing_walk fuel st salt (missing @ [n]) (parent nd)
       else Inr (missing, Some n))"

fun fill_event_hashes :: "'e hash_env_scheme \<Rightarrow> nat \<Rightarrow> nat list \<Rightarrow> string \<Rightarrow> store \<Rightarrow> store result" where
  "fill_event_hashes E page_size [] parent_hash st = Inr st"
| "fill_event_hashes E page_size (n # ns) parent_hash st =
     rbind (get_node st n) (\<lambda>nd.
       let hash_values = get_hash_str E (key nd) (Some parent_hash) page_size
       in fill_event_hashes E page_size ns (if hash_values \<noteq> [] then last hash_values else parent_hash)
            (set_node st n (\<lambda>nd. nd\<lparr>event_hash_value := Some hash_values\<rparr>)))"

definition compute_node_event_hash_values ::
  "'e hash_env_scheme \<Rightarrow> nat \<Rightarrow> store \<Rightarrow> nat \<Rightarrow> nat \<Rightarrow> (string list \<times> store) result" where
  "compute_node_event_hash_values E fuel st n page_size =
     rbind (get_node st n) (\<lambda>nd.
       case cache_salt (key nd) of
         None \<Rightarrow> rbind (compute_node_hash_values E st nd page_size) (\<lambda>hs. Inr (hs, st))
       | Some salt \<Rightarrow>
           (case event_hash_value nd of
              Some hs \<Rightarrow> Inr (hs, st)
            | None \<Rightarrow>
                rbind (missing_walk fuel st (Some salt) [] (Some n)) (\<lambda>(missing, current).
                rbind
                  (case current of
                     None \<Rightarrow> Inr (salt_digest E salt)
                   | Some c \<Rightarrow> rbind (get_node st c) (\<lambda>cn.
                       if key_len (key cn) > 0 \<and> cache_salt (key cn) \<noteq> Some salt then Inl ValueError
                       else case event_hash_value cn of
                              Some hs \<Rightarrow> if hs \<noteq> [] then Inr (last hs) else Inr (salt_digest E salt)
                            | None \<Rightarrow> Inr (salt_digest E salt)))
                (\<lambda>parent_hash.
                rbind (fill_event_hashes E page_size (rev missing) parent_hash st) (\<lambda>st'.
                rbind (get_node st' n) (\<lambda>nd'.
                  case event_hash_value nd' of
                    None \<Rightarrow> Inl AssertionError
                  | Some hs \<Rightarrow> Inr (hs, st')))))))"

definition split_node_hash_value ::
  "string list option \<Rightarrow> nat \<Rightarrow> nat \<Rightarrow> string list option \<times> string list option" where
  "split_node_hash_value child_hash_value split_len page_size =
     (case child_hash_value of
        None \<Rightarrow> (None, None)
      | Some hs \<Rightarrow>
          let split_pages = (if page_size = 1 then split_len else split_len div page_size)
          in (Some (take split_pages hs), Some (drop split_pages hs)))"

section \<open>Events\<close>

datatype storage_medium = GPU | CPU | DISK | EXTERNAL

record stored_block =
  block_hashes :: "int list"
  parent_block_hash :: "int option"
  event_token_ids :: "key_unit list"
  block_size :: nat
  lora_id :: "int option"
  medium :: storage_medium
  metadata :: "string option"

datatype kv_event = BlockStored stored_block | BlockRemoved "int list" storage_medium | AllBlocksCleared

record kv_recorder =
  enabled :: bool
  ev_page_size :: nat
  queue :: "kv_event list"

text \<open>\<open>enqueue\<close>: coalesce with a compatible tail, or append.\<close>

definition coalesce :: "kv_event \<Rightarrow> kv_event \<Rightarrow> kv_event option" where
  "coalesce tail event =
     (case tail of
        BlockRemoved hs m \<Rightarrow>
          (case event of BlockRemoved hs' m' \<Rightarrow> if m = m' then Some (BlockRemoved (hs @ hs') m) else None
           | _ \<Rightarrow> None)
      | BlockStored t \<Rightarrow>
          (case event of
             BlockStored e \<Rightarrow>
               if medium t = medium e \<and> lora_id t = lora_id e \<and> block_size t = block_size e \<and>
                  metadata t = metadata e \<and> block_hashes t \<noteq> [] \<and>
                  parent_block_hash e = Some (last (block_hashes t))
               then Some (BlockStored (t\<lparr>block_hashes := block_hashes t @ block_hashes e,
                                         event_token_ids := event_token_ids t @ event_token_ids e\<rparr>))
               else None
           | _ \<Rightarrow> None)
      | AllBlocksCleared \<Rightarrow> None)"

definition enqueue :: "kv_event \<Rightarrow> kv_event list \<Rightarrow> kv_event list" where
  "enqueue event q =
     (if q = [] then [event]
      else case coalesce (last q) event of
             Some e \<Rightarrow> butlast q @ [e]
           | None \<Rightarrow> q @ [event])"

definition node_event_hash_values ::
  "'e hash_env_scheme \<Rightarrow> nat \<Rightarrow> nat \<Rightarrow> store \<Rightarrow> nat \<Rightarrow> (string list \<times> store) result" where
  "node_event_hash_values E fuel page_size st n =
     rbind (get_node st n) (\<lambda>nd.
     rbind
       (case hash_value nd of
          Some _ \<Rightarrow> Inr st
        | None \<Rightarrow> rbind (compute_node_hash_values E st nd page_size) (\<lambda>hs.
            Inr (set_node st n (\<lambda>nd. nd\<lparr>hash_value := Some hs\<rparr>))))
     (\<lambda>st1. rbind (get_node st1 n) (\<lambda>nd1.
       if cache_salt (key nd1) \<noteq> None then compute_node_event_hash_values E fuel st1 n page_size
       else rbind (of_option TypeError (hash_value nd1)) (\<lambda>hs. Inr (hs, st1)))))"

definition parent_block_hash_of :: "store \<Rightarrow> nat \<Rightarrow> int option result" where
  "parent_block_hash_of st n =
     rbind (get_node st n) (\<lambda>nd.
       case parent nd of
         None \<Rightarrow> Inr None
       | Some p \<Rightarrow> rbind (get_node st p) (\<lambda>pn.
           if parent pn = None then Inr None
           else
             rbind
               (if cache_salt (key nd) \<noteq> None
                then (case event_hash_value pn of None \<Rightarrow> Inl AssertionError | Some hs \<Rightarrow> Inr hs)
                else Inr (case hash_value pn of None \<Rightarrow> [] | Some hs \<Rightarrow> hs))
               (\<lambda>hs. if hs = [] then Inr None else rbind (hash_str_to_int64 (last hs)) (\<lambda>h. Inr (Some h)))))"

text \<open>The pages \<open>[start, end)\<close> of a key in order, as \<open>range(0, n, page_size)\<close> gives them.\<close>

definition page_starts :: "nat \<Rightarrow> nat \<Rightarrow> nat list" where
  "page_starts logical_len page_size = map (\<lambda>i. i * page_size) [0..<ceil_div logical_len page_size]"

fun store_pages ::
  "tree_node \<Rightarrow> storage_medium \<Rightarrow> nat \<Rightarrow> string list \<Rightarrow> nat list \<Rightarrow> nat \<Rightarrow> int option
    \<Rightarrow> kv_event list \<Rightarrow> kv_event list result"
where
  "store_pages nd med page_size hashes [] page_index parent_hash q = Inr q"
| "store_pages nd med page_size hashes (start # starts) page_index parent_hash q =
     (let end_pos = min (start + page_size) (key_len (key nd))
      in if end_pos \<le> start then store_pages nd med page_size hashes starts page_index parent_hash q
         else
           let page_tokens = take (end_pos - start) (drop start (key_iter (key nd)))
           in rbind (py_nth hashes page_index) (\<lambda>hs.
              rbind (hash_str_to_int64 hs) (\<lambda>block_hash.
                store_pages nd med page_size hashes starts (page_index + 1) (Some block_hash)
                  (enqueue
                     (BlockStored
                        \<lparr>block_hashes = [block_hash], parent_block_hash = parent_hash,
                         event_token_ids = page_tokens, block_size = length page_tokens, lora_id = None,
                         medium = med, metadata = cache_salt (key nd)\<rparr>) q))))"

definition record_store ::
  "'e hash_env_scheme \<Rightarrow> nat \<Rightarrow> store \<Rightarrow> kv_recorder \<Rightarrow> nat \<Rightarrow> storage_medium option \<Rightarrow> (store \<times> kv_recorder) result"
where
  "record_store E fuel st r n med =
     (if \<not> enabled r then Inr (st, r)
      else
        let m = (case med of None \<Rightarrow> GPU | Some m \<Rightarrow> m)
        in rbind (node_event_hash_values E fuel (ev_page_size r) st n) (\<lambda>(hashes, st1).
           rbind (parent_block_hash_of st1 n) (\<lambda>parent_hash.
           rbind (get_node st1 n) (\<lambda>nd.
           rbind (store_pages nd m (ev_page_size r) hashes
                    (page_starts (key_len (key nd)) (ev_page_size r)) 0 parent_hash (queue r)) (\<lambda>q.
             Inr (st1, r\<lparr>queue := q\<rparr>))))))"

fun removed_hashes :: "nat \<Rightarrow> nat \<Rightarrow> string list \<Rightarrow> nat list \<Rightarrow> nat \<Rightarrow> int list result" where
  "removed_hashes page_size logical_len hashes [] page_index = Inr []"
| "removed_hashes page_size logical_len hashes (start # starts) page_index =
     (if min (start + page_size) logical_len \<le> start
      then removed_hashes page_size logical_len hashes starts page_index
      else rbind (py_nth hashes page_index) (\<lambda>hs.
           rbind (hash_str_to_int64 hs) (\<lambda>h.
           rbind (removed_hashes page_size logical_len hashes starts (page_index + 1)) (\<lambda>rest.
             Inr (h # rest)))))"

definition record_remove ::
  "'e hash_env_scheme \<Rightarrow> nat \<Rightarrow> store \<Rightarrow> kv_recorder \<Rightarrow> nat \<Rightarrow> storage_medium option \<Rightarrow> (store \<times> kv_recorder) result"
where
  "record_remove E fuel st r n med =
     (if \<not> enabled r then Inr (st, r)
      else
        let m = (case med of None \<Rightarrow> GPU | Some m \<Rightarrow> m)
        in rbind (node_event_hash_values E fuel (ev_page_size r) st n) (\<lambda>(hashes, st1).
           rbind (get_node st1 n) (\<lambda>nd.
           rbind (removed_hashes (ev_page_size r) (key_len (key nd)) hashes
                    (page_starts (key_len (key nd)) (ev_page_size r)) 0) (\<lambda>hs.
             Inr (st1, if hs \<noteq> [] then r\<lparr>queue := enqueue (BlockRemoved hs m) (queue r)\<rparr> else r)))))"

definition record_all_cleared :: "kv_recorder \<Rightarrow> kv_recorder" where
  "record_all_cleared r =
     (if \<not> enabled r then r else r\<lparr>queue := enqueue AllBlocksCleared (queue r)\<rparr>)"

definition take_events :: "kv_recorder \<Rightarrow> kv_event list \<times> kv_recorder" where
  "take_events r = (if \<not> enabled r then ([], r) else (queue r, r\<lparr>queue := []\<rparr>))"

end
