(* ===== verification/RadixCache.thy ===== *)
theory RadixCache
  imports KvEvents Allocator
begin

text \<open>
  \<open>RadixCache\<close> of \<open>srt/mem_cache/radix_cache.py\<close>: the state of the prefix cache and every
  operation on it, in the order of the source. The node store is explicit; the allocator is
  the one of \<open>Allocator\<close>, and \<open>req_to_token\<close> is the table of the request pool. The clock, the
  hashes and the iteration order of the set of evictable leaves are arguments (\<open>cache_env\<close>).
  Loops along parent links or down the tree carry a bound, the number of addresses ever
  handed out or the length of the key; running out of it is the error \<open>Diverges\<close>.
\<close>

section \<open>State\<close>

record cache_env = hash_env +
  monotonic :: "nat \<Rightarrow> int"
  leaf_order :: "nat set \<Rightarrow> nat list"

record radix_cache =
  disable :: bool
  cache_page_size :: nat
  is_eagle :: bool
  disable_finished_insert :: bool
  eviction_strategy :: strategy
  kv_events :: kv_recorder
  nodes :: store
  counter :: nat
  clock :: nat
  root_node :: nat
  evictable_size :: int
  protected_size :: int
  evictable_leaves :: "nat set"
  req_to_token :: "int list list"
  kv_pool :: kv_allocator

abbreviation upd_node :: "radix_cache \<Rightarrow> nat \<Rightarrow> (tree_node \<Rightarrow> tree_node) \<Rightarrow> radix_cache" where
  "upd_node s n f \<equiv> s\<lparr>nodes := set_node (nodes s) n f\<rparr>"

definition read_clock :: "cache_env \<Rightarrow> radix_cache \<Rightarrow> int \<times> radix_cache" where
  "read_clock E s = (monotonic E (clock s), s\<lparr>clock := clock s + 1\<rparr>)"

text \<open>\<open>TreeNode(priority=...)\<close>: a fresh address with a blank node; the clock is read twice.\<close>

definition new_tree_node :: "cache_env \<Rightarrow> radix_cache \<Rightarrow> int \<Rightarrow> nat \<times> radix_cache" where
  "new_tree_node E s prio =
     (let (t1, s1) = read_clock E s; (t2, s2) = read_clock E s1; n = counter s2
      in (n, s2\<lparr>nodes := (nodes s2)(n \<mapsto> blank_node prio t1 t2), counter := n + 1\<rparr>))"

text \<open>\<open>reset\<close>: a new root; the old tree is garbage. \<open>sys.maxsize\<close> is \<open>2 ^ 63 - 1\<close>.\<close>

definition reset :: "cache_env \<Rightarrow> radix_cache \<Rightarrow> radix_cache" where
  "reset E s =
     (let (n, s1) = new_tree_node E (s\<lparr>nodes := Map.empty\<rparr>) (- (2 ^ 63 - 1));
          s2 = upd_node s1 n (\<lambda>nd. nd\<lparr>key := new_radix_key [] None False None None, val := Some [],
                 host_value := Some [], lock_ref := 1, hash_value := Some []\<rparr>)
      in s2\<lparr>root_node := n, evictable_size := 0, protected_size := 0, evictable_leaves := {},
            kv_events := record_all_cleared (kv_events s2)\<rparr>)"

definition new_radix_cache ::
  "cache_env \<Rightarrow> bool \<Rightarrow> nat \<Rightarrow> bool \<Rightarrow> bool \<Rightarrow> string \<Rightarrow> bool \<Rightarrow> int list list \<Rightarrow> kv_allocator \<Rightarrow> radix_cache result"
where
  "new_radix_cache E dis pg eagle no_finished policy events table pool =
     rbind (get_eviction_strategy policy) (\<lambda>strat.
       Inr (reset E
         \<lparr>disable = dis, cache_page_size = pg, is_eagle = eagle,
          disable_finished_insert = no_finished, eviction_strategy = strat,
          kv_events = \<lparr>enabled = events, ev_page_size = pg, queue = []\<rparr>,
          nodes = Map.empty, counter = 0, clock = 0, root_node = 0, evictable_size = 0,
          protected_size = 0, evictable_leaves = {}, req_to_token = table, kv_pool = pool\<rparr>))"

section \<open>Internal helpers\<close>

definition update_leaf_status :: "radix_cache \<Rightarrow> nat \<Rightarrow> radix_cache result" where
  "update_leaf_status s n =
     rbind (get_node (nodes s) n) (\<lambda>nd.
       if evicted nd \<or> lock_ref nd > 0 then Inr (s\<lparr>evictable_leaves := evictable_leaves s - {n}\<rparr>)
       else if list_ex (\<lambda>(k, c). case nodes s c of Some cd \<Rightarrow> \<not> evicted cd | None \<Rightarrow> False) (children nd)
       then Inr (s\<lparr>evictable_leaves := evictable_leaves s - {n}\<rparr>)
       else Inr (s\<lparr>evictable_leaves := insert n (evictable_leaves s)\<rparr>))"

definition split_node ::
  "cache_env \<Rightarrow> radix_cache \<Rightarrow> radix_key \<Rightarrow> nat \<Rightarrow> nat \<Rightarrow> (nat \<times> radix_cache) result" where
  "split_node E s k child split_len =
     rbind (get_node (nodes s) child) (\<lambda>cd.
     rbind (of_option AttributeError (parent cd)) (\<lambda>p.
     rbind (of_option TypeError (val cd)) (\<lambda>v.
     rbind (child_key (key_drop k split_len) (cache_page_size s)) (\<lambda>rest_key.
     rbind (child_key k (cache_page_size s)) (\<lambda>first_key.
       let (new, s1) = new_tree_node E s (priority cd);
           (h1, h2) = split_node_hash_value (hash_value cd) split_len (cache_page_size s);
           (e1, e2) = split_node_hash_value (event_hash_value cd) split_len (cache_page_size s);
           s2 = upd_node s1 new (\<lambda>nd. nd\<lparr>hit_count := hit_count cd, children := [(rest_key, child)],
                  parent := Some p, lock_ref := lock_ref cd, key := key_take (key cd) split_len,
                  val := Some (take split_len v), hash_value := h1, event_hash_value := e1\<rparr>);
           s3 = upd_node s2 child (\<lambda>nd. nd\<lparr>parent := Some new, key := key_drop (key cd) split_len,
                  val := Some (drop split_len v), hash_value := h2, event_hash_value := e2\<rparr>);
           s4 = upd_node s3 p (\<lambda>nd. nd\<lparr>children := AList.update first_key new (children nd)\<rparr>)
       in Inr (new, s4))))))"

text \<open>The loop of \<open>_match_prefix_helper\<close>.\<close>

fun match_loop ::
  "cache_env \<Rightarrow> nat \<Rightarrow> int \<Rightarrow> radix_cache \<Rightarrow> nat \<Rightarrow> radix_key \<Rightarrow> ckey \<Rightarrow> int list list
    \<Rightarrow> (int list list \<times> nat \<times> radix_cache) result"
where
  "match_loop E 0 t s node k ck acc = Inl Diverges"
| "match_loop E (Suc fuel) t s node k ck acc =
     (if key_len k > 0
      then
        rbind (get_node (nodes s) node) (\<lambda>nd.
        case map_of (children nd) ck of
          None \<Rightarrow> Inr (acc, node, s)
        | Some child \<Rightarrow>
            let s1 = upd_node s child (\<lambda>nd. nd\<lparr>last_access_time := t\<rparr>)
            in rbind (get_node (nodes s1) child) (\<lambda>cd.
               rbind (key_match (key cd) k (cache_page_size s)) (\<lambda>prefix_len.
                 if prefix_len < key_len (key cd)
                 then rbind (split_node E s1 (key cd) child prefix_len) (\<lambda>(new, s2).
                      rbind (get_node (nodes s2) new) (\<lambda>nn.
                      rbind (of_option TypeError (val nn)) (\<lambda>v. Inr (acc @ [v], new, s2))))
                 else rbind (of_option TypeError (val cd)) (\<lambda>v.
                      let k' = key_drop k prefix_len
                      in rbind (if key_len k' > 0 then child_key k' (cache_page_size s) else Inr ck)
                           (\<lambda>ck'. match_loop E fuel t s1 child k' ck' (acc @ [v]))))))
      else Inr (acc, node, s))"

definition match_prefix_helper ::
  "cache_env \<Rightarrow> radix_cache \<Rightarrow> nat \<Rightarrow> radix_key \<Rightarrow> (int list list \<times> nat \<times> radix_cache) result" where
  "match_prefix_helper E s node k =
     (let (t, s1) = read_clock E s; s2 = upd_node s1 node (\<lambda>nd. nd\<lparr>last_access_time := t\<rparr>)
      in rbind (child_key k (cache_page_size s)) (\<lambda>ck.
           match_loop E (Suc (key_len k)) t s2 node k ck []))"

definition inc_hit_count :: "bool \<Rightarrow> tree_node \<Rightarrow> tree_node" where
  "inc_hit_count chunked nd = (if chunked then nd else nd\<lparr>hit_count := hit_count nd + 1\<rparr>)"

text \<open>The loop of \<open>_insert_helper\<close>; it returns where the walk ended and what is left to add.\<close>

fun insert_loop ::
  "cache_env \<Rightarrow> nat \<Rightarrow> int \<Rightarrow> int \<Rightarrow> bool \<Rightarrow> radix_cache \<Rightarrow> nat \<Rightarrow> radix_key \<Rightarrow> int list \<Rightarrow> ckey \<Rightarrow> nat
    \<Rightarrow> (nat \<times> radix_key \<times> int list \<times> ckey \<times> nat \<times> radix_cache) result"
where
  "insert_loop E 0 t prio chunked s node k v ck tot = Inl Diverges"
| "insert_loop E (Suc fuel) t prio chunked s node k v ck tot =
     (if key_len k > 0
      then
        rbind (get_node (nodes s) node) (\<lambda>nd.
        case map_of (children nd) ck of
          None \<Rightarrow> Inr (node, k, v, ck, tot, s)
        | Some child \<Rightarrow>
            let s1 = upd_node s child (\<lambda>nd. nd\<lparr>last_access_time := t\<rparr>)
            in rbind (get_node (nodes s1) child) (\<lambda>cd.
               rbind (key_match (key cd) k (cache_page_size s)) (\<lambda>prefix_len.
                 let k' = key_drop k prefix_len; v' = drop prefix_len v
                 in rbind
                      (if prefix_len < key_len (key cd)
                       then rbind (split_node E s1 (key cd) child prefix_len) (\<lambda>(new, s2).
                              Inr (new, upd_node s2 new (\<lambda>nd. inc_hit_count chunked
                                     (nd\<lparr>priority := max (priority nd) prio\<rparr>))))
                       else Inr (child, upd_node s1 child (\<lambda>nd. inc_hit_count chunked
                                     (nd\<lparr>priority := max (priority nd) prio\<rparr>))))
                    (\<lambda>(node', s3).
                      rbind (if key_len k' > 0 then child_key k' (cache_page_size s) else Inr ck)
                        (\<lambda>ck'. insert_loop E fuel t prio chunked s3 node' k' v' ck' (tot + prefix_len))))))
      else Inr (node, k, v, ck, tot, s))"

definition insert_leaf ::
  "cache_env \<Rightarrow> int \<Rightarrow> bool \<Rightarrow> radix_cache \<Rightarrow> nat \<Rightarrow> radix_key \<Rightarrow> int list \<Rightarrow> ckey \<Rightarrow> (nat \<times> radix_cache) result"
where
  "insert_leaf E prio chunked s node k v ck =
     (let (new, s1) = new_tree_node E s prio;
          s2 = upd_node s1 new (\<lambda>nd. inc_hit_count chunked
                 (nd\<lparr>parent := Some node, key := k, val := Some v\<rparr>));
          s3 = upd_node s2 node (\<lambda>nd. nd\<lparr>children := AList.update ck new (children nd)\<rparr>);
          s4 = s3\<lparr>evictable_size := evictable_size s3 + int (key_len k)\<rparr>
      in rbind (update_leaf_status s4 node) (\<lambda>s5.
         rbind (update_leaf_status s5 new) (\<lambda>s6.
         rbind (record_store E (Suc (counter s6)) (nodes s6) (kv_events s6) new None)
           (\<lambda>(st, ev). Inr (new, s6\<lparr>nodes := st, kv_events := ev\<rparr>)))))"

definition insert_helper ::
  "cache_env \<Rightarrow> radix_cache \<Rightarrow> nat \<Rightarrow> radix_key \<Rightarrow> int list \<Rightarrow> int option \<Rightarrow> bool
    \<Rightarrow> (nat \<times> nat \<times> radix_cache) result"
where
  "insert_helper E s node k v prio_opt chunked =
     (let prio = (case prio_opt of None \<Rightarrow> 0 | Some p \<Rightarrow> p);
          (t, s1) = read_clock E s;
          s2 = upd_node s1 node (\<lambda>nd. nd\<lparr>last_access_time := t, priority := max (priority nd) prio\<rparr>)
      in if key_len k = 0 then Inr (0, node, s2)
         else
           rbind (child_key k (cache_page_size s)) (\<lambda>ck.
           rbind (insert_loop E (Suc (key_len k)) t prio chunked s2 node k v ck 0)
             (\<lambda>(node', k', v', ck', tot, s3).
               if key_len k' > 0
               then rbind (insert_leaf E prio chunked s3 node' k' v' ck') (\<lambda>(new, s4). Inr (tot, new, s4))
               else Inr (tot, node', s3))))"

definition delete_leaf :: "radix_cache \<Rightarrow> nat \<Rightarrow> radix_cache result" where
  "delete_leaf s n =
     rbind (get_node (nodes s) n) (\<lambda>nd.
     rbind (child_key (key nd) (cache_page_size s)) (\<lambda>ck.
     rbind (of_option AttributeError (parent nd)) (\<lambda>p.
     rbind (get_node (nodes s) p) (\<lambda>pd.
     rbind (assert_that (map_of (children pd) ck = Some n)) (\<lambda>_.
       let s1 = upd_node s p (\<lambda>pd. pd\<lparr>children := AList.delete ck (children pd)\<rparr>);
           s2 = s1\<lparr>evictable_size := evictable_size s1 - int (key_len (key nd)),
                   evictable_leaves := evictable_leaves s1 - {n}\<rparr>
       in update_leaf_status s2 p)))))"

fun total_size_loop :: "nat \<Rightarrow> store \<Rightarrow> nat list \<Rightarrow> nat \<Rightarrow> nat result" where
  "total_size_loop fuel st [] tot = Inr tot"
| "total_size_loop 0 st (n # ns) tot = Inl Diverges"
| "total_size_loop (Suc fuel) st (n # ns) tot =
     rbind (get_node st n) (\<lambda>nd.
     rbind (of_option TypeError (val nd)) (\<lambda>v.
       total_size_loop fuel st
         (rev (filter (\<lambda>c. case st c of Some cd \<Rightarrow> \<not> evicted cd | None \<Rightarrow> True) (map snd (children nd))) @ ns)
         (tot + length v)))"

definition total_size :: "radix_cache \<Rightarrow> nat result" where
  "total_size s = total_size_loop (Suc (counter s)) (nodes s) [root_node s] 0"

section \<open>Public operations\<close>

record match_result =
  device_indices :: "int list"
  last_device_node :: nat

definition empty_match_result :: "radix_cache \<Rightarrow> match_result" where
  "empty_match_result s = \<lparr>device_indices = [], last_device_node = root_node s\<rparr>"

definition match_prefix :: "cache_env \<Rightarrow> radix_cache \<Rightarrow> radix_key \<Rightarrow> (match_result \<times> radix_cache) result" where
  "match_prefix E s k0 =
     (let k1 = fst (maybe_to_bigram_view k0 (is_eagle s) (None :: int list option))
      in if disable s \<or> key_len k1 = 0 then Inr (empty_match_result s, s)
         else
           let k = page_aligned k1 (cache_page_size s)
           in if key_len k = 0 then Inr (empty_match_result s, s)
              else rbind (match_prefix_helper E s (root_node s) k) (\<lambda>(vs, node, s').
                     Inr (\<lparr>device_indices = concat vs, last_device_node = node\<rparr>, s')))"

record insert_result =
  prefix_len :: nat
  insert_last_node :: "nat option"

definition insert_op ::
  "cache_env \<Rightarrow> radix_cache \<Rightarrow> radix_key \<Rightarrow> int list option \<Rightarrow> int option \<Rightarrow> bool \<Rightarrow> (insert_result \<times> radix_cache) result"
where
  "insert_op E s k0 v0 prio chunked =
     (if disable s then Inr (\<lparr>prefix_len = 0, insert_last_node = None\<rparr>, s)
      else
        let (k1, v1) = maybe_to_bigram_view k0 (is_eagle s) v0;
            k = page_aligned k1 (cache_page_size s);
            v = (case v1 of Some v \<Rightarrow> take (key_len k) v | None \<Rightarrow> take (key_len k) (token_ids k))
        in rbind (insert_helper E s (root_node s) k v prio chunked) (\<lambda>(n, node, s').
             Inr (\<lparr>prefix_len = n, insert_last_node = Some node\<rparr>, s')))"

fun inc_lock_loop :: "nat \<Rightarrow> radix_cache \<Rightarrow> nat option \<Rightarrow> int \<Rightarrow> (int \<times> radix_cache) result" where
  "inc_lock_loop 0 s node delta = Inl Diverges"
| "inc_lock_loop (Suc fuel) s node delta =
     (if node = Some (root_node s) then Inr (delta, s)
      else
        rbind (of_option AttributeError node) (\<lambda>n.
        rbind (get_node (nodes s) n) (\<lambda>nd.
          let l = int (key_len (key nd));
              s1 = (if lock_ref nd = 0
                    then s\<lparr>evictable_size := evictable_size s - l, protected_size := protected_size s + l\<rparr>
                    else s);
              delta' = (if lock_ref nd = 0 then delta - l else delta);
              s2 = upd_node s1 n (\<lambda>nd. nd\<lparr>lock_ref := lock_ref nd + 1\<rparr>)
          in rbind (update_leaf_status s2 n) (\<lambda>s3. inc_lock_loop fuel s3 (parent nd) delta'))))"

definition inc_lock_ref :: "radix_cache \<Rightarrow> nat option \<Rightarrow> (int \<times> radix_cache) result" where
  "inc_lock_ref s node =
     (if disable s then Inr (0, s) else inc_lock_loop (Suc (counter s)) s node 0)"

fun dec_lock_loop :: "nat \<Rightarrow> radix_cache \<Rightarrow> nat option \<Rightarrow> int \<Rightarrow> (int \<times> radix_cache) result" where
  "dec_lock_loop 0 s node delta = Inl Diverges"
| "dec_lock_loop (Suc fuel) s node delta =
     (if node = Some (root_node s) then Inr (delta, s)
      else
        rbind (of_option AttributeError node) (\<lambda>n.
        rbind (get_node (nodes s) n) (\<lambda>nd.
          let l = int (key_len (key nd));
              s1 = (if lock_ref nd = 1
                    then s\<lparr>evictable_size := evictable_size s + l, protected_size := protected_size s - l\<rparr>
                    else s);
              delta' = (if lock_ref nd = 1 then delta + l else delta);
              s2 = upd_node s1 n (\<lambda>nd. nd\<lparr>lock_ref := lock_ref nd - 1\<rparr>)
          in rbind (update_leaf_status s2 n) (\<lambda>s3.
             rbind (assert_that (parent nd \<noteq> None)) (\<lambda>_.
               dec_lock_loop fuel s3 (parent nd) delta')))))"

definition dec_lock_ref :: "radix_cache \<Rightarrow> nat option \<Rightarrow> (int \<times> radix_cache) result" where
  "dec_lock_ref s node =
     (if disable s then Inr (0, s) else dec_lock_loop (Suc (counter s)) s node 0)"

text \<open>
  The loop of \<open>evict\<close>. A removed node is forgotten at the end of its round, when the code drops
  its last reference.
\<close>

fun evict_loop ::
  "cache_env \<Rightarrow> nat \<Rightarrow> radix_cache \<Rightarrow> nat \<Rightarrow> heap_entry list \<Rightarrow> nat \<Rightarrow> (nat \<times> radix_cache) result"
where
  "evict_loop E 0 s num_tokens heap num_evicted = Inl Diverges"
| "evict_loop E (Suc fuel) s num_tokens heap num_evicted =
     (if num_evicted < num_tokens
      then
        case heappop heap of
          None \<Rightarrow> Inr (num_evicted, s)
        | Some ((_, _, x), heap1) \<Rightarrow>
            rbind (get_node (nodes s) x) (\<lambda>nd.
            rbind (of_option TypeError (val nd)) (\<lambda>v.
            rbind (kv_free_segment (kv_pool s) v 0) (\<lambda>pool.
            rbind (delete_leaf (s\<lparr>kv_pool := pool\<rparr>) x) (\<lambda>s1.
            rbind (of_option AttributeError (parent nd)) (\<lambda>p.
            rbind (get_node (nodes s1) p) (\<lambda>pd.
              let heap2 = (if children pd = [] \<and> lock_ref pd = 0
                           then heap1 @ [heap_entry_of (eviction_strategy s) p pd] else heap1)
              in rbind (record_remove E (Suc (counter s1)) (nodes s1) (kv_events s1) x None)
                   (\<lambda>(st, ev).
                     evict_loop E fuel (s1\<lparr>nodes := st(x := None), kv_events := ev\<rparr>) num_tokens heap2
                       (num_evicted + length v))))))))
      else Inr (num_evicted, s))"

definition evict :: "cache_env \<Rightarrow> radix_cache \<Rightarrow> nat \<Rightarrow> (nat \<times> radix_cache) result" where
  "evict E s num_tokens =
     (if disable s then Inr (0, s)
      else
        let leaves = leaf_order E (evictable_leaves s);
            heap = List.map_filter (\<lambda>n. map_option (heap_entry_of (eviction_strategy s) n) (nodes s n)) leaves
        in evict_loop E (Suc (counter s)) s num_tokens heap 0)"

section \<open>Requests\<close>

record kv_req =
  origin_input_ids :: "int list"
  output_ids :: "int list"
  fill_ids :: "int list"
  req_extra_key :: "string option"
  req_cache_salt :: "string option"
  req_priority :: "int option"
  last_node :: "nat option"
  req_pool_idx :: nat
  cache_protected_len :: nat
  prefix_indices :: "int list"

definition cache_finished_req ::
  "cache_env \<Rightarrow> radix_cache \<Rightarrow> kv_req \<Rightarrow> bool \<Rightarrow> nat \<Rightarrow> radix_cache result" where
  "cache_finished_req E s req is_insert0 kv_len_to_handle =
     (let is_insert = (if disable_finished_insert s then False else is_insert0);
          plen = cache_protected_len req
      in rbind (py_nth (req_to_token s) (req_pool_idx req)) (\<lambda>row.
         if disable s
         then rbind (kv_free_segment (kv_pool s) (py_slice row plen kv_len_to_handle) plen)
                (\<lambda>pool. Inr (s\<lparr>kv_pool := pool\<rparr>))
         else
           let ids = take kv_len_to_handle (origin_input_ids req @ output_ids req);
               kv_indices = take (length ids) row;
               rk = page_aligned (new_radix_key ids (req_extra_key req) (is_eagle s) None (req_cache_salt req))
                      (cache_page_size s);
               klen = key_len rk;
               vals = take klen kv_indices;
               prio = (case req_priority req of None \<Rightarrow> 0 | Some p \<Rightarrow> p)
           in rbind
                (if is_insert
                 then rbind (insert_op E s rk (Some vals) (Some prio) False) (\<lambda>(r, s1). Inr (prefix_len r, s1))
                 else Inr (klen, s))
              (\<lambda>(freed_end, s1).
              rbind (kv_free_segments (kv_pool s1)
                       [(py_slice kv_indices plen freed_end, plen), (drop klen kv_indices, klen)])
              (\<lambda>pool.
                let s2 = s1\<lparr>kv_pool := pool\<rparr>
                in if last_node req \<noteq> None
                   then rbind (dec_lock_ref s2 (last_node req)) (\<lambda>(_, s3). Inr s3)
                   else Inr s2))))"

definition cache_unfinished_req ::
  "cache_env \<Rightarrow> radix_cache \<Rightarrow> kv_req \<Rightarrow> bool \<Rightarrow> (kv_req \<times> radix_cache) result" where
  "cache_unfinished_req E s req chunked =
     (if disable s then Inr (req, s)
      else
        rbind (py_nth (req_to_token s) (req_pool_idx req)) (\<lambda>row.
        let ids = fill_ids req; plen = cache_protected_len req;
            kv_indices = take (length ids) row;
            rk = page_aligned (new_radix_key ids (req_extra_key req) (is_eagle s) None (req_cache_salt req))
                   (cache_page_size s);
            vals = take (key_len rk) kv_indices;
            prio = (case req_priority req of None \<Rightarrow> 0 | Some p \<Rightarrow> p)
        in rbind (insert_op E s rk (Some vals) (Some prio) chunked) (\<lambda>(r, s1).
           rbind (kv_free_segment (kv_pool s1) (py_slice kv_indices plen (prefix_len r)) plen) (\<lambda>pool.
           rbind (match_prefix E (s1\<lparr>kv_pool := pool\<rparr>) rk) (\<lambda>(m, s2).
             let new_indices = device_indices m; new_last_node = last_device_node m
             in rbind (assert_that (length new_indices = key_len rk)) (\<lambda>_.
                rbind (py_nth (req_to_token s2) (req_pool_idx req)) (\<lambda>row2.
                rbind (slice_assign row2 plen (length new_indices) (drop plen new_indices)) (\<lambda>row3.
                let s3 = s2\<lparr>req_to_token := (req_to_token s2)[req_pool_idx req := row3]\<rparr>
                in rbind (dec_lock_ref s3 (last_node req)) (\<lambda>(_, s4).
                   rbind (inc_lock_ref s4 (Some new_last_node)) (\<lambda>(_, s5).
                     Inr (req\<lparr>cache_protected_len := length new_indices,
                              prefix_indices :=
                                (if length new_indices < length kv_indices
                                 then new_indices @ drop (length new_indices) kv_indices
                                 else new_indices),
                              last_node := Some new_last_node\<rparr>, s5))))))))))) "

end
