(* ===== verification/PyNum.thy ===== *)
theory PyNum
  imports Prelude Complex_Main "HOL-Library.Product_Lexorder"
begin

text \<open>
  Numbers of the scheduling code. A Python float is a rational here: the code adds, scales and
  compares floats, and the rounding of the last bit is left out. \<open>int(x)\<close> cuts towards zero and
  \<open>//\<close> rounds down, as \<open>div\<close> does on integers.
\<close>

definition py_int :: "rat \<Rightarrow> int" where
  "py_int x = (if x \<ge> 0 then \<lfloor>x\<rfloor> else \<lceil>x\<rceil>)"

definition floor_div :: "int \<Rightarrow> int \<Rightarrow> int result" where
  "floor_div a b = (if b = 0 then Inl ZeroDivisionError else Inr (a div b))"

text \<open>\<open>max(xs, default=d)\<close>, and \<open>t.max()\<close>, \<open>t.min()\<close> of a tensor, which fail on an empty one.\<close>

definition max_default :: "int \<Rightarrow> int list \<Rightarrow> int" where
  "max_default d xs = (case xs of [] \<Rightarrow> d | y # ys \<Rightarrow> fold max ys y)"

definition tensor_max :: "int list \<Rightarrow> int result" where
  "tensor_max xs = (case xs of [] \<Rightarrow> Inl RuntimeError | y # ys \<Rightarrow> Inr (fold max ys y))"

definition tensor_min :: "int list \<Rightarrow> int result" where
  "tensor_min xs = (case xs of [] \<Rightarrow> Inl RuntimeError | y # ys \<Rightarrow> Inr (fold min ys y))"

section \<open>Lemmas\<close>

lemma py_int_le: "0 \<le> x \<Longrightarrow> of_int (py_int x) \<le> x"
  by (simp add: py_int_def)

lemma py_int_of_int [simp]: "py_int (of_int z) = z"
  by (simp add: py_int_def)

lemma py_int_less: "x < of_int (py_int x) + 1"
proof (cases "x \<ge> 0")
  case True
  then show ?thesis using floor_correct [of x] by (simp add: py_int_def)
next
  case False
  have "x \<le> of_int \<lceil>x\<rceil>" by (rule le_of_int_ceiling)
  then have "x < of_int \<lceil>x\<rceil> + 1" by linarith
  then show ?thesis using False by (simp add: py_int_def)
qed

lemma tensor_max_ok: "xs \<noteq> [] \<Longrightarrow> tensor_max xs = Inr (Max (set xs))"
  by (cases xs) (simp_all only: tensor_max_def list.case Max.set_eq_fold [symmetric], simp)

lemma tensor_min_ok: "xs \<noteq> [] \<Longrightarrow> tensor_min xs = Inr (Min (set xs))"
  by (cases xs) (simp_all only: tensor_min_def list.case Min.set_eq_fold [symmetric], simp)

lemma max_default_Max: "max_default d xs = (if xs = [] then d else Max (set xs))"
  by (cases xs) (simp_all only: max_default_def list.case Max.set_eq_fold [symmetric], simp_all)

end
