(* ===== verification/SchedTypes.thy ===== *)
theory SchedTypes
  imports RadixCache PyNum
begin

text \<open>
  What the scheduler works with: requests, the configuration of the process, and the interface
  of the prefix cache with its allocator. The code dispatches to one of several cache classes
  (\<open>base_prefix_cache.py\<close>), so the interface is a record of operations on a state of any type;
  the radix cache and the chunk cache are two of its instances.
\<close>

section \<open>Requests\<close>

datatype dllm_phase = STAGING_PREFILL | STAGING_DECODE | INCOMING_PREFILL | INCOMING_DECODE

record sched_req = kv_req +
  rid :: string
  full_untruncated_fill_ids :: "int list"
  last_host_node :: "nat option"
  best_match_node :: "nat option"
  host_hit_length :: int
  swa_host_hit_length :: int
  mamba_host_hit_length :: int
  storage_hit_length :: int
  num_matched_prefix_tokens :: int
  mamba_branching_seqlen :: "int option"
  max_new_tokens :: int
  ignore_eos :: bool
  return_logprob :: bool
  logprob_start_len :: int
  retracted_stain :: bool
  holds_mamba :: bool
  wait_queue_entry_time :: rat
  routing_key :: "string option"
  extend_range :: "int \<times> int"
  req_finished :: bool
  swa_uuid_for_lock :: "int option"
  fill_ids_alias_origin :: bool \<comment> \<open>\<open>full_untruncated_fill_ids is origin_input_ids\<close>\<close>
  lora_id :: "string option"
  req_beam_width :: "int option" \<comment> \<open>the width of the beam group, if there is one\<close>
  has_embed_overrides :: bool
  has_session :: bool
  session_streaming :: bool
  mamba_cow_src_index :: "int option"
  mamba_needs_clear :: bool
  req_dllm_config :: "(nat \<times> int) option" \<comment> \<open>block size, mask token\<close>
  req_dllm_phase :: "dllm_phase option"
  dllm_incomplete_ids :: "int list"
  dllm_block_offset :: nat
  dllm_initialized :: bool
  inflight_middle_chunks :: nat

definition set_extend_range :: "sched_req \<Rightarrow> int \<Rightarrow> int \<Rightarrow> sched_req" where
  "set_extend_range r start end_pos = r\<lparr>extend_range := (start, end_pos)\<rparr>"

definition extend_len :: "sched_req \<Rightarrow> int" where
  "extend_len r = snd (extend_range r) - fst (extend_range r)"

definition needs_host_load_back :: "sched_req \<Rightarrow> bool" where
  "needs_host_load_back r \<longleftrightarrow>
     host_hit_length r > 0 \<or> swa_host_hit_length r > 0 \<or> mamba_host_hit_length r > 0"

definition compute_max_prefix_len :: "sched_req \<Rightarrow> int \<Rightarrow> int" where
  "compute_max_prefix_len r input_len =
     (let m = input_len - 1;
          m1 = (if return_logprob r \<and> logprob_start_len r \<ge> 0 then min m (logprob_start_len r) else m)
      in max m1 0)"

definition split_cached_prefix_by_tier :: "int \<Rightarrow> int \<Rightarrow> int \<Rightarrow> int \<times> int \<times> int" where
  "split_cached_prefix_by_tier plen host_hit_len storage_hit_len =
     (let storage = min host_hit_len storage_hit_len;
          host = host_hit_len - storage;
          device = max 0 (plen - host_hit_len)
      in (device, host, storage))"

section \<open>Configuration\<close>

datatype tile_mode = LegacyTiles | CompactTiles

record sched_env =
  clip_max_new_tokens :: int
  in_batch_check_threshold :: int
  in_batch_deprioritize_threshold :: int
  is_hip :: bool
  prefill_tile_budget :: int
  prefill_tile_budget_mode :: tile_mode
  radix_force_miss :: bool
  low_priority_values_first :: bool
  is_decode_server :: bool

section \<open>The prefix cache and its allocator\<close>

record full_match =
  fm_device_indices :: "int list"
  fm_last_device_node :: "nat option"
  fm_last_host_node :: "nat option"
  fm_best_match_node :: "nat option"
  fm_host_hit_length :: int
  fm_swa_host_hit_length :: int
  fm_mamba_host_hit_length :: int
  fm_mamba_branching_seqlen :: "int option"
  fm_cache_protected_len :: "nat option"

definition plain_match :: "int list \<Rightarrow> nat option \<Rightarrow> full_match" where
  "plain_match idx n =
     \<lparr>fm_device_indices = idx, fm_last_device_node = n, fm_last_host_node = n, fm_best_match_node = n,
      fm_host_hit_length = 0, fm_swa_host_hit_length = 0, fm_mamba_host_hit_length = 0,
      fm_mamba_branching_seqlen = None, fm_cache_protected_len = None\<rparr>"

record ('c, 'l) cache_ops =
  op_disable :: "'c \<Rightarrow> bool"
  op_is_chunk_cache :: bool
  op_supports_fast_match :: bool
  op_supports_mamba :: bool
  op_swa_reprefill_tail :: nat
  op_sliding_window :: int
  op_root_handle :: "'c \<Rightarrow> nat option"
  op_match_prefix :: "'c \<Rightarrow> radix_key \<Rightarrow> (full_match \<times> 'c) result"
  op_inc_lock :: "'c \<Rightarrow> nat option \<Rightarrow> ('l \<times> 'c) result"
  op_dec_lock :: "'c \<Rightarrow> nat option \<Rightarrow> 'l option \<Rightarrow> 'c result"
  op_lock_uuid :: "'l \<Rightarrow> int option"
  op_init_load_back :: "'c \<Rightarrow> sched_req \<Rightarrow> (int list \<times> nat option \<times> 'c) result"
  op_release_req :: "'c \<Rightarrow> sched_req \<Rightarrow> int \<Rightarrow> 'c result"
  op_dfs_weight_order :: "'c \<Rightarrow> nat option list \<Rightarrow> nat list result"
  op_evictable_size :: "'c \<Rightarrow> int"
  op_full_evictable_size :: "'c \<Rightarrow> int"
  op_swa_evictable_size :: "'c \<Rightarrow> int"
  op_mamba_evictable_size :: "'c \<Rightarrow> int"
  op_available_size :: "'c \<Rightarrow> int"
  op_full_available_size :: "'c \<Rightarrow> int"
  op_swa_available_size :: "'c \<Rightarrow> int"
  op_size_swa :: int
  op_is_hybrid_swa :: bool
  op_is_all_swa :: bool
  op_mamba_slot_cost :: int
  op_mamba_schedulable :: "'c \<Rightarrow> int"

definition zero_match_result :: "('c, 'l) cache_ops \<Rightarrow> 'c \<Rightarrow> full_match \<Rightarrow> full_match" where
  "zero_match_result ops s m =
     (if op_is_chunk_cache ops then m
      else
        let root = op_root_handle ops s
        in m\<lparr>fm_device_indices := [], fm_last_device_node := root, fm_last_host_node := root,
             fm_best_match_node := root, fm_host_hit_length := 0, fm_swa_host_hit_length := 0,
             fm_mamba_host_hit_length := 0\<rparr>)"

definition req_key :: "sched_req \<Rightarrow> int list \<Rightarrow> nat option \<Rightarrow> radix_key" where
  "req_key r ids key_limit = new_radix_key ids (req_extra_key r) False key_limit (req_cache_salt r)"

definition match_prefix_for_req ::
  "sched_env \<Rightarrow> ('c, 'l) cache_ops \<Rightarrow> 'c \<Rightarrow> sched_req \<Rightarrow> int list option \<Rightarrow> (full_match \<times> sched_req \<times> 'c) result" where
  "match_prefix_for_req X ops s r given_ids =
     (let ids = (case given_ids of Some t \<Rightarrow> t | None \<Rightarrow> origin_input_ids r @ output_ids r);
          reprefill_tail = op_swa_reprefill_tail ops;
          key_limit = (if reprefill_tail \<noteq> 0 then Some (length ids - reprefill_tail) else None)
      in rbind (op_match_prefix ops s (req_key r ids key_limit)) (\<lambda>(m0, s1).
         let m = (if radix_force_miss X then zero_match_result ops s1 m0 else m0);
             r1 = r\<lparr>prefix_indices := fm_device_indices m, last_node := fm_last_device_node m,
                    last_host_node := fm_last_host_node m, best_match_node := fm_best_match_node m,
                    host_hit_length := fm_host_hit_length m,
                    swa_host_hit_length := fm_swa_host_hit_length m,
                    mamba_host_hit_length := fm_mamba_host_hit_length m\<rparr>;
             max_len = compute_max_prefix_len r1 (int (length ids));
             r2 = r1\<lparr>num_matched_prefix_tokens :=
                       min (int (length (prefix_indices r1)) + host_hit_length r1) max_len\<rparr>;
             r3 = (case fm_mamba_branching_seqlen m of None \<Rightarrow> r2 | Some b \<Rightarrow> r2\<lparr>mamba_branching_seqlen := Some b\<rparr>);
             r4 = (case fm_cache_protected_len m of None \<Rightarrow> r3 | Some n \<Rightarrow> r3\<lparr>cache_protected_len := n\<rparr>)
         in Inr (m, r4, s1)))"

section \<open>Depth-first order by subtree weight\<close>

text \<open>\<open>calc_weight\<close> and \<open>append_dfs\<close> of \<open>_dfs_weight_order\<close>; the fuel bounds the depth of the tree.\<close>

fun calc_weight :: "nat \<Rightarrow> store \<Rightarrow> nat \<Rightarrow> (nat \<Rightarrow> int) \<Rightarrow> (nat \<Rightarrow> int) result"
and calc_weight_children :: "nat \<Rightarrow> store \<Rightarrow> nat \<Rightarrow> nat list \<Rightarrow> (nat \<Rightarrow> int) \<Rightarrow> (nat \<Rightarrow> int) result"
where
  "calc_weight 0 st n w = Inl Diverges"
| "calc_weight (Suc fuel) st n w =
     rbind (get_node st n) (\<lambda>nd. calc_weight_children fuel st n (map snd (children nd)) w)"
| "calc_weight_children fuel st n [] w = Inr w"
| "calc_weight_children fuel st n (c # cs) w =
     rbind (calc_weight fuel st c w) (\<lambda>w1.
       calc_weight_children fuel st n cs (w1(n := w1 n + w1 c)))"

fun append_dfs :: "nat \<Rightarrow> store \<Rightarrow> (nat \<Rightarrow> int) \<Rightarrow> (nat \<Rightarrow> nat list) \<Rightarrow> nat \<Rightarrow> nat list result"
and append_dfs_children :: "nat \<Rightarrow> store \<Rightarrow> (nat \<Rightarrow> int) \<Rightarrow> (nat \<Rightarrow> nat list) \<Rightarrow> nat list \<Rightarrow> nat list result"
where
  "append_dfs 0 st w idx n = Inl Diverges"
| "append_dfs (Suc fuel) st w idx n =
     rbind (get_node st n) (\<lambda>nd.
     rbind (append_dfs_children fuel st w idx (sort_key (\<lambda>c. - w c) (map snd (children nd)))) (\<lambda>below.
       Inr (below @ idx n)))"
| "append_dfs_children fuel st w idx [] = Inr []"
| "append_dfs_children fuel st w idx (c # cs) =
     rbind (append_dfs fuel st w idx c) (\<lambda>first.
     rbind (append_dfs_children fuel st w idx cs) (\<lambda>rest. Inr (first @ rest)))"

definition last_node_to_indices :: "nat option list \<Rightarrow> nat \<Rightarrow> nat list" where
  "last_node_to_indices handles n = filter (\<lambda>i. handles ! i = Some n) [0..<length handles]"

definition dfs_weight_order :: "radix_cache \<Rightarrow> nat option list \<Rightarrow> nat list result" where
  "dfs_weight_order s handles =
     (let idx = last_node_to_indices handles
      in rbind (calc_weight (Suc (counter s)) (nodes s) (root_node s) (\<lambda>n. int (length (idx n)))) (\<lambda>w.
           append_dfs (Suc (counter s)) (nodes s) w idx (root_node s)))"

section \<open>The radix cache and the chunk cache as instances\<close>

text \<open>
  The radix cache has no sliding-window or state pools and keeps nothing on the host, so the
  operations for those are the defaults of the base class. \<open>rel\<close> releases the slots of a retracted
  request, which the batch does.
\<close>

definition radix_ops ::
  "cache_env \<Rightarrow> (radix_cache \<Rightarrow> sched_req \<Rightarrow> int \<Rightarrow> radix_cache result) \<Rightarrow> (radix_cache, int) cache_ops" where
  "radix_ops E rel =
     \<lparr>op_disable = disable, op_is_chunk_cache = False, op_supports_fast_match = False, op_supports_mamba = False,
      op_swa_reprefill_tail = 0, op_sliding_window = 0,
      op_root_handle = (\<lambda>s. Some (root_node s)),
      op_match_prefix = (\<lambda>s k. rbind (match_prefix E s k) (\<lambda>(m, s1).
        Inr (plain_match (device_indices m) (Some (last_device_node m)), s1))),
      op_inc_lock = inc_lock_ref,
      op_dec_lock = (\<lambda>s n _. rbind (dec_lock_ref s n) (\<lambda>(_, s1). Inr s1)),
      op_lock_uuid = (\<lambda>_. None),
      op_init_load_back = (\<lambda>_ _. Inl NotImplementedError),
      op_release_req = rel, op_dfs_weight_order = dfs_weight_order,
      op_evictable_size = evictable_size, op_full_evictable_size = (\<lambda>_. 0),
      op_swa_evictable_size = (\<lambda>_. 0), op_mamba_evictable_size = (\<lambda>_. 0),
      op_available_size = (\<lambda>s. int (kv_available_size (kv_pool s))),
      op_full_available_size = (\<lambda>_. 0), op_swa_available_size = (\<lambda>_. 0), op_size_swa = 0,
      op_is_hybrid_swa = False, op_is_all_swa = False, op_mamba_slot_cost = 0, op_mamba_schedulable = (\<lambda>_. 0)\<rparr>"

record chunk_cache =
  chunk_rows :: "int list list"
  chunk_pool :: kv_allocator

definition chunk_ops ::
  "(chunk_cache \<Rightarrow> sched_req \<Rightarrow> int \<Rightarrow> chunk_cache result) \<Rightarrow> (chunk_cache, int) cache_ops" where
  "chunk_ops rel =
     \<lparr>op_disable = (\<lambda>_. True), op_is_chunk_cache = True, op_supports_fast_match = False, op_supports_mamba = False,
      op_swa_reprefill_tail = 0, op_sliding_window = 0,
      op_root_handle = (\<lambda>_. None),
      op_match_prefix = (\<lambda>s k. Inr (plain_match [] None, s)),
      op_inc_lock = (\<lambda>s n. Inr (0, s)), op_dec_lock = (\<lambda>s n _. Inr s), op_lock_uuid = (\<lambda>_. None),
      op_init_load_back = (\<lambda>_ _. Inl NotImplementedError),
      op_release_req = rel, op_dfs_weight_order = (\<lambda>_ _. Inl AttributeError),
      op_evictable_size = (\<lambda>_. 0), op_full_evictable_size = (\<lambda>_. 0),
      op_swa_evictable_size = (\<lambda>_. 0), op_mamba_evictable_size = (\<lambda>_. 0),
      op_available_size = (\<lambda>s. int (kv_available_size (chunk_pool s))),
      op_full_available_size = (\<lambda>_. 0), op_swa_available_size = (\<lambda>_. 0), op_size_swa = 0,
      op_is_hybrid_swa = False, op_is_all_swa = False, op_mamba_slot_cost = 0, op_mamba_schedulable = (\<lambda>_. 0)\<rparr>"

text \<open>
  \<open>free_kv_row_segments\<close>: the segments below the eviction floor of the sliding window and those above
  it. On an allocator with a single pool, \<open>free_full\<close> is \<open>free\<close>.
\<close>

fun split_at_floor :: "nat \<Rightarrow> (int list \<times> nat) list \<Rightarrow> int list list \<times> (int list \<times> nat) list" where
  "split_at_floor floor_pos [] = ([], [])"
| "split_at_floor floor_pos ((kv_indices, start_pos) # segments) =
     (let (swa_dead, swa_alive) = split_at_floor floor_pos segments;
          num_indices = length kv_indices;
          num_dead = min (floor_pos - start_pos) num_indices
      in if num_indices = 0 then (swa_dead, swa_alive)
         else ((if num_dead > 0 then take num_dead kv_indices # swa_dead else swa_dead),
               (if num_dead < num_indices then (drop num_dead kv_indices, start_pos + num_dead) # swa_alive
                else swa_alive)))"

definition free_kv_row_segments :: "kv_allocator \<Rightarrow> (int list \<times> nat) list \<Rightarrow> nat \<Rightarrow> kv_allocator result" where
  "free_kv_row_segments al segments swa_evicted_seqlen =
     (let (swa_dead, swa_alive) = split_at_floor swa_evicted_seqlen segments
      in rbind (if swa_dead \<noteq> [] \<and> swa_alive \<noteq> []
                then assert_that (swa_evicted_seqlen mod kv_page_size al = 0) else Inr ()) (\<lambda>_.
         rbind (if swa_dead \<noteq> [] then kv_free al (concat swa_dead) else Inr al) (\<lambda>al1.
           if swa_alive \<noteq> [] then kv_free_segments al1 swa_alive else Inr al1)))"

definition free_kv_row :: "kv_allocator \<Rightarrow> int list \<Rightarrow> (nat \<times> nat) list \<Rightarrow> nat \<Rightarrow> kv_allocator result" where
  "free_kv_row al row ranges swa_evicted_seqlen =
     free_kv_row_segments al (map (\<lambda>(start, end_pos). (py_slice row start end_pos, start)) ranges) swa_evicted_seqlen"

definition chunk_cache_finished_req :: "chunk_cache \<Rightarrow> kv_req \<Rightarrow> nat \<Rightarrow> nat \<Rightarrow> chunk_cache result" where
  "chunk_cache_finished_req s req swa_evicted_seqlen kv_len_to_handle =
     rbind (py_nth (chunk_rows s) (req_pool_idx req)) (\<lambda>row.
     rbind (free_kv_row (chunk_pool s) row [(cache_protected_len req, kv_len_to_handle)] swa_evicted_seqlen)
       (\<lambda>pool. Inr (s\<lparr>chunk_pool := pool\<rparr>)))"

definition chunk_cache_unfinished_req :: "chunk_cache \<Rightarrow> sched_req \<Rightarrow> sched_req result" where
  "chunk_cache_unfinished_req s req =
     rbind (py_nth (chunk_rows s) (req_pool_idx req)) (\<lambda>row.
       Inr (req\<lparr>prefix_indices := take (nat (snd (extend_range req))) row\<rparr>))"

end
