(* ===== verification/SchedulePolicy.thy ===== *)
theory SchedulePolicy
  imports SchedTypes "HOL-Library.Char_ord" "HOL-Library.List_Lexorder"
begin

text \<open>
  \<open>SchedulePolicy\<close> of \<open>managers/schedule_policy.py\<close>: the order in which waiting requests are
  considered for prefill. The cache-aware policies look every request up in the prefix cache, and
  find requests that share a prefix within the queue with a second, simulated radix cache.
  \<open>list.sort\<close> is stable, and so is \<open>sort_key\<close>.
\<close>

datatype policy = LPM | DFS_WEIGHT | FCFS | LOF | RANDOM | ROUTING_KEY

definition is_cache_aware :: "policy \<Rightarrow> bool" where
  "is_cache_aware p \<longleftrightarrow> p = LPM \<or> p = DFS_WEIGHT"

record schedule_policy =
  sp_policy :: policy
  sp_enable_priority :: bool
  sp_priority_sign :: int
  waiting_queue_radix_tree :: radix_cache

definition validate_and_adjust_policy :: "string \<Rightarrow> bool \<Rightarrow> policy result" where
  "validate_and_adjust_policy name tree_disabled =
     (case map_of [(''lpm'', LPM), (''dfs-weight'', DFS_WEIGHT)] name of
        Some p \<Rightarrow> Inr (if tree_disabled then FCFS else p)
      | None \<Rightarrow>
          of_option ValueError
            (map_of [(''fcfs'', FCFS), (''lof'', LOF), (''random'', RANDOM), (''routing-key'', ROUTING_KEY)] name))"

text \<open>\<open>RadixCache.create_simulated()\<close>: page size one, no pools (the pool here is never used), no events.\<close>

definition create_simulated :: "cache_env \<Rightarrow> radix_cache result" where
  "create_simulated E = new_radix_cache E False 1 False False ''lru'' False [] (TokenAlloc (token_init 0 False))"

definition new_schedule_policy ::
  "cache_env \<Rightarrow> ('c, 'l) cache_ops \<Rightarrow> 'c \<Rightarrow> string \<Rightarrow> bool \<Rightarrow> bool \<Rightarrow> schedule_policy result" where
  "new_schedule_policy E ops s name enable_priority low_first =
     rbind (validate_and_adjust_policy name (op_disable ops s)) (\<lambda>p.
     rbind (create_simulated E) (\<lambda>tree.
       Inr \<lparr>sp_policy = p, sp_enable_priority = enable_priority,
            sp_priority_sign = (if low_first then 1 else - 1), waiting_queue_radix_tree = tree\<rparr>))"

definition determine_active_policy :: "schedule_policy \<Rightarrow> 'a list \<Rightarrow> policy" where
  "determine_active_policy sp waiting_queue =
     (if sp_policy sp = LPM \<and> length waiting_queue > 128 then FCFS else sp_policy sp)"

definition waiting_queue_prefix_matched :: "('c, 'l) cache_ops \<Rightarrow> schedule_policy \<Rightarrow> 'a list \<Rightarrow> bool" where
  "waiting_queue_prefix_matched ops sp waiting_queue \<longleftrightarrow>
     is_cache_aware (determine_active_policy sp waiting_queue) \<or> op_supports_fast_match ops"

section \<open>Prefix matches\<close>

fun match_all :: "sched_env \<Rightarrow> ('c, 'l) cache_ops \<Rightarrow> 'c \<Rightarrow> sched_req list \<Rightarrow> (sched_req list \<times> 'c) result" where
  "match_all X ops s [] = Inr ([], s)"
| "match_all X ops s (r # rs) =
     rbind (match_prefix_for_req X ops s r None) (\<lambda>(_, r1, s1).
     rbind (match_all X ops s1 rs) (\<lambda>(rs1, s2). Inr (r1 # rs1, s2)))"

text \<open>One request of \<open>_compute_prefix_matches\<close>: is it deprioritized, and what becomes of the trees.\<close>

definition in_batch_match ::
  "cache_env \<Rightarrow> sched_env \<Rightarrow> radix_cache \<Rightarrow> sched_req \<Rightarrow> int list \<Rightarrow> (bool \<times> radix_cache) result" where
  "in_batch_match E X tree r prefix_ids =
     (if int (length (prefix_indices r)) \<le> in_batch_check_threshold X
      then
        rbind (match_prefix E tree (req_key r prefix_ids None)) (\<lambda>(m, tree1).
          let matching = (if radix_force_miss X then [] else device_indices m)
          in if int (length matching) \<ge> in_batch_deprioritize_threshold X
             then Inr (True, tree1)
             else rbind (insert_op E tree1 (req_key r prefix_ids None) (Some (replicate (length prefix_ids) 0)) (Some 0) False)
                    (\<lambda>(_, tree2). Inr (False, tree2)))
      else Inr (False, tree))"

fun prefix_matches_loop ::
  "cache_env \<Rightarrow> sched_env \<Rightarrow> ('c, 'l) cache_ops \<Rightarrow> 'c \<Rightarrow> radix_cache \<Rightarrow> sched_req list
    \<Rightarrow> (string set \<times> sched_req list \<times> 'c \<times> radix_cache) result"
where
  "prefix_matches_loop E X ops s tree [] = Inr ({}, [], s, tree)"
| "prefix_matches_loop E X ops s tree (r # rs) =
     (let prefix_ids = origin_input_ids r @ output_ids r
      in rbind (match_prefix_for_req X ops s r (Some prefix_ids)) (\<lambda>(_, r1, s1).
         rbind (in_batch_match E X tree r1 prefix_ids) (\<lambda>(deprioritized, tree1).
         rbind (prefix_matches_loop E X ops s1 tree1 rs) (\<lambda>(D, rs1, s2, tree2).
           Inr ((if deprioritized then insert (rid r1) D else D), r1 # rs1, s2, tree2)))))"

definition compute_prefix_matches ::
  "cache_env \<Rightarrow> sched_env \<Rightarrow> ('c, 'l) cache_ops \<Rightarrow> 'c \<Rightarrow> schedule_policy \<Rightarrow> sched_req list
    \<Rightarrow> (string set \<times> sched_req list \<times> 'c \<times> schedule_policy) result"
where
  "compute_prefix_matches E X ops s sp waiting_queue =
     rbind (prefix_matches_loop E X ops s (reset E (waiting_queue_radix_tree sp)) waiting_queue) (\<lambda>(D, q, s1, tree).
       Inr (D, q, s1, sp\<lparr>waiting_queue_radix_tree := tree\<rparr>))"

section \<open>Sorting\<close>

text \<open>A sort whose key can raise: the keys are computed first, as \<open>list.sort(key=...)\<close> does.\<close>

fun map_result :: "('a \<Rightarrow> 'b result) \<Rightarrow> 'a list \<Rightarrow> 'b list result" where
  "map_result f [] = Inr []"
| "map_result f (x # xs) = rbind (f x) (\<lambda>y. rbind (map_result f xs) (\<lambda>ys. Inr (y # ys)))"

definition sort_by :: "('a \<Rightarrow> ('b :: linorder) result) \<Rightarrow> 'a list \<Rightarrow> 'a list result" where
  "sort_by f xs = rbind (map_result f xs) (\<lambda>ks. Inr (map snd (sort_key fst (zip ks xs))))"

definition longest_prefix_key :: "string set \<Rightarrow> sched_req \<Rightarrow> int \<times> int" where
  "longest_prefix_key D r = (if rid r \<notin> D then (0, - num_matched_prefix_tokens r) else (1, 0))"

definition sort_by_longest_prefix :: "sched_req list \<Rightarrow> string set \<Rightarrow> sched_req list" where
  "sort_by_longest_prefix q D = sort_key (longest_prefix_key D) q"

definition sort_by_dfs_weight :: "('c, 'l) cache_ops \<Rightarrow> 'c \<Rightarrow> sched_req list \<Rightarrow> sched_req list result" where
  "sort_by_dfs_weight ops s q =
     rbind (op_dfs_weight_order ops s (map last_node q)) (\<lambda>order. map_result (py_nth q) order)"

definition signed_priority :: "int \<Rightarrow> sched_req \<Rightarrow> int result" where
  "signed_priority sign r = rbind (of_option TypeError (req_priority r)) (\<lambda>p. Inr (p * sign))"

definition sort_by_longest_output :: "bool \<Rightarrow> int \<Rightarrow> sched_req list \<Rightarrow> sched_req list result" where
  "sort_by_longest_output enable_priority sign q =
     (if enable_priority
      then sort_by (\<lambda>r. rbind (signed_priority sign r) (\<lambda>p. Inr (p, - max_new_tokens r))) q
      else Inr (sort_key (\<lambda>r. - max_new_tokens r) q))"

definition sort_by_priority_and_fcfs :: "int \<Rightarrow> sched_req list \<Rightarrow> sched_req list result" where
  "sort_by_priority_and_fcfs sign q =
     sort_by (\<lambda>r. rbind (signed_priority sign r) (\<lambda>p. Inr (p, wait_queue_entry_time r))) q"

definition routing_key_count :: "sched_req list \<Rightarrow> string \<Rightarrow> int" where
  "routing_key_count running k = int (length (filter (\<lambda>r. routing_key r = Some k) running))"

definition truthy_key :: "sched_req \<Rightarrow> string" where
  "truthy_key r = (case routing_key r of Some k \<Rightarrow> k | None \<Rightarrow> [])"

definition routing_sort_key :: "sched_req list \<Rightarrow> sched_req \<Rightarrow> int \<times> int \<times> string" where
  "routing_sort_key running r =
     (let k = truthy_key r
      in if k \<noteq> [] \<and> routing_key_count running k > 0
         then (0, - routing_key_count running k, k)
         else (1, 0, k))"

definition sort_by_routing_key :: "sched_req list \<Rightarrow> sched_req list \<Rightarrow> sched_req list" where
  "sort_by_routing_key q running =
     (if list_all (\<lambda>r. truthy_key r = []) running then q else sort_key (routing_sort_key running) q)"

section \<open>The priority of the queue\<close>

definition calc_priority ::
  "cache_env \<Rightarrow> sched_env \<Rightarrow> (sched_req list \<Rightarrow> sched_req list) \<Rightarrow> ('c, 'l) cache_ops \<Rightarrow> schedule_policy \<Rightarrow> 'c
    \<Rightarrow> sched_req list \<Rightarrow> sched_req list option \<Rightarrow> (sched_req list \<times> 'c \<times> schedule_policy) result"
where
  "calc_priority E X shuffle ops sp s waiting_queue running_batch =
     (let p = determine_active_policy sp waiting_queue
      in rbind
           (if \<not> is_cache_aware p \<and> op_supports_fast_match ops \<and> \<not> is_decode_server X
            then match_all X ops s waiting_queue else Inr (waiting_queue, s)) (\<lambda>(q, s1).
         if sp_policy sp = FCFS
         then if sp_enable_priority sp
              then rbind (sort_by_priority_and_fcfs (sp_priority_sign sp) q) (\<lambda>q1. Inr (q1, s1, sp))
              else Inr (q, s1, sp)
         else if is_cache_aware p
         then rbind (compute_prefix_matches E X ops s1 sp q) (\<lambda>(D, q1, s2, sp1).
                if p = LPM then Inr (sort_by_longest_prefix q1 D, s2, sp1)
                else rbind (sort_by_dfs_weight ops s2 q1) (\<lambda>q2. Inr (q2, s2, sp1)))
         else
           (case p of
              LOF \<Rightarrow> rbind (sort_by_longest_output (sp_enable_priority sp) (sp_priority_sign sp) q) (\<lambda>q1. Inr (q1, s1, sp))
            | RANDOM \<Rightarrow> Inr (shuffle q, s1, sp)
            | ROUTING_KEY \<Rightarrow>
                (case running_batch of
                   None \<Rightarrow> Inr (q, s1, sp)
                 | Some running \<Rightarrow> Inr (sort_by_routing_key q running, s1, sp))
            | _ \<Rightarrow> Inr (q, s1, sp))))"

end
