(* ===== verification/PrefillDelayer.thy ===== *)
theory PrefillDelayer
  imports PyNum
begin

text \<open>
  \<open>managers/prefill_delayer.py\<close>: the ranks of a data-parallel group agree, once per scheduling
  pass, whether to run a prefill now or to wait for more requests. The all-gather of the ranks'
  five numbers and the readings of the clock are arguments of a pass.
\<close>

section \<open>Largest recent attempt\<close>

record batch_tracker =
  window_size :: nat
  recent_attempt_sizes :: "int list"

definition new_batch_tracker :: "int \<Rightarrow> batch_tracker result" where
  "new_batch_tracker w =
     (if w \<le> 0 then Inl ValueError else Inr \<lparr>window_size = nat w, recent_attempt_sizes = []\<rparr>)"

definition tracked_max_prefill_bs :: "batch_tracker \<Rightarrow> int" where
  "tracked_max_prefill_bs t = max_default 0 (recent_attempt_sizes t)"

text \<open>\<open>deque(maxlen=n).append\<close> drops from the left.\<close>

definition deque_append :: "nat \<Rightarrow> 'a list \<Rightarrow> 'a \<Rightarrow> 'a list" where
  "deque_append n xs x = drop (length xs + 1 - n) (xs @ [x])"

definition observe_attempt :: "batch_tracker \<Rightarrow> int \<Rightarrow> (int \<times> batch_tracker) result" where
  "observe_attempt t attempted_prefill_bs =
     (if attempted_prefill_bs \<le> 0 then Inl ValueError
      else
        let t1 = t\<lparr>recent_attempt_sizes := deque_append (window_size t) (recent_attempt_sizes t) attempted_prefill_bs\<rparr>
        in Inr (tracked_max_prefill_bs t1, t1))"

section \<open>The delayer\<close>

record delay_state =
  delayed_count :: int
  start_time :: rat

definition bump_delayed_count :: "delay_state \<Rightarrow> delay_state" where
  "bump_delayed_count st = st\<lparr>delayed_count := delayed_count st + 1\<rparr>"

datatype prefillable_status = All | NoRank | Mixed

datatype output_reason = TokenWatermark | Delay | WaitTimeout | WaitSuccess | NoWait | NoReason

record negotiate_output =
  next_state :: "delay_state option"
  input_estimation :: prefillable_status
  output_allow :: bool
  output_reason :: output_reason
  num_prefillable :: int
  num_token_watermark_force_allow :: int
  wait_forward_passes :: int
  wait_seconds :: rat

record prefill_delayer =
  max_delay_passes :: int
  token_usage_low_watermark :: "rat option"
  queue_min_ratio :: "rat option"
  max_delay_ms :: rat
  delayer_prefill_max_requests :: "int option"
  dp_size :: int
  enable_dp_attention :: bool
  curr_state :: "delay_state option"
  skip_first_delayer :: bool

record delayer_config =
  cfg_queue_min_ratio :: "rat option"
  cfg_max_delay_ms :: "rat option"
  cfg_prefill_max_requests :: "int option"
  cfg_enable_dp_attention :: bool
  cfg_disable_overlap_schedule :: bool
  cfg_nccl_all_gather :: bool

definition new_prefill_delayer ::
  "delayer_config \<Rightarrow> int \<Rightarrow> int \<Rightarrow> rat option \<Rightarrow> bool \<Rightarrow> prefill_delayer result" where
  "new_prefill_delayer c dp passes low_watermark has_device_group =
     (let use_nccl = cfg_disable_overlap_schedule c \<or> cfg_nccl_all_gather c
      in rbind (if use_nccl then assert_that has_device_group else Inr ()) (\<lambda>_.
         rbind (assert_that (\<not> cfg_disable_overlap_schedule c)) (\<lambda>_.
           Inr \<lparr>max_delay_passes = passes, token_usage_low_watermark = low_watermark,
                queue_min_ratio = cfg_queue_min_ratio c,
                max_delay_ms = (case cfg_max_delay_ms c of None \<Rightarrow> 5000 | Some m \<Rightarrow> m),
                delayer_prefill_max_requests = cfg_prefill_max_requests c, dp_size = dp,
                enable_dp_attention = cfg_enable_dp_attention c, curr_state = None,
                skip_first_delayer = True\<rparr>)))"

text \<open>
  What a pass reads from outside: the rows of the first tensor-parallel rank of every
  data-parallel rank after the all-gather, and the clock at its three readings.
\<close>

record rank_info =
  info_prefillable :: int
  info_force_allow :: int
  info_running_batch :: int
  info_max_prefill_bs :: int
  info_waiting_queue_len :: int

record pass_env =
  all_gather :: "rank_info \<Rightarrow> rank_info list"
  wait_clock :: rat
  elapsed_clock :: rat
  new_state_clock :: rat

record negotiate_args =
  local_prefillable :: bool
  arg_running_batch :: int
  arg_max_prefill_bs :: int
  arg_max_running_requests :: int
  arg_waiting_queue_len :: int

definition gather_info :: "pass_env \<Rightarrow> negotiate_args \<Rightarrow> bool \<Rightarrow> rank_info list" where
  "gather_info W a force_allow =
     all_gather W
       \<lparr>info_prefillable = (if local_prefillable a then 1 else 0),
        info_force_allow = (if force_allow then 1 else 0),
        info_running_batch = arg_running_batch a, info_max_prefill_bs = arg_max_prefill_bs a,
        info_waiting_queue_len = arg_waiting_queue_len a\<rparr>"

definition local_slots :: "prefill_delayer \<Rightarrow> int \<Rightarrow> int result" where
  "local_slots d max_running =
     (if \<not> enable_dp_attention d then floor_div (max_running + dp_size d - 1) (dp_size d)
      else Inr max_running)"

text \<open>The queue trigger, with its cap by wall-clock time.\<close>

definition queue_trigger :: "prefill_delayer \<Rightarrow> delay_state option \<Rightarrow> rat \<Rightarrow> int \<Rightarrow> int \<Rightarrow> int \<Rightarrow> bool" where
  "queue_trigger d prev_state elapsed_now running_max max_prefill_bs_max waiting_max =
     (case queue_min_ratio d of
        None \<Rightarrow> False
      | Some ratio \<Rightarrow>
          running_max > 0 \<and>
          (let queue_capacity =
                 (case delayer_prefill_max_requests d of Some m \<Rightarrow> m | None \<Rightarrow> max_prefill_bs_max);
               queue_min_effective = min (py_int (of_int running_max * ratio)) queue_capacity
           in queue_min_effective > 0 \<and> waiting_max < queue_min_effective \<and>
              (case prev_state of
                 None \<Rightarrow> True
               | Some st \<Rightarrow> (elapsed_now - start_time st) * 1000 < max_delay_ms d)))"

definition delay_or_timeout ::
  "prefill_delayer \<Rightarrow> pass_env \<Rightarrow> delay_state option \<Rightarrow> negotiate_output \<Rightarrow> negotiate_output" where
  "delay_or_timeout d W prev_state released =
     (let prev_delayed_count = (case prev_state of Some st \<Rightarrow> delayed_count st | None \<Rightarrow> 0)
      in if prev_delayed_count < max_delay_passes d - 1
         then
           let st = (case prev_state of
                       Some st \<Rightarrow> st
                     | None \<Rightarrow> \<lparr>delayed_count = 0, start_time = new_state_clock W\<rparr>)
           in released\<lparr>next_state := Some (bump_delayed_count st), output_allow := False,
                       output_reason := Delay, wait_forward_passes := 0, wait_seconds := 0\<rparr>
         else released\<lparr>next_state := None, output_allow := True, output_reason := WaitTimeout\<rparr>)"

definition negotiate_pure ::
  "prefill_delayer \<Rightarrow> pass_env \<Rightarrow> rat \<Rightarrow> negotiate_args \<Rightarrow> (negotiate_output \<times> prefill_delayer) result" where
  "negotiate_pure d W token_usage a =
     (let prev_state = curr_state d;
          force_allow = (local_prefillable a \<and>
            (case token_usage_low_watermark d of Some x \<Rightarrow> token_usage < x | None \<Rightarrow> False));
          tp0_info = gather_info W a force_allow
      in rbind (tensor_min (map info_prefillable tp0_info)) (\<lambda>prefillable_min.
         rbind (tensor_max (map info_prefillable tp0_info)) (\<lambda>prefillable_max.
         rbind (tensor_max (map info_force_allow tp0_info)) (\<lambda>force_max.
           let status = (if prefillable_min > 0 then All else if prefillable_max = 0 then NoRank else Mixed);
               released =
                 \<lparr>next_state = None, input_estimation = status, output_allow = True, output_reason = NoReason,
                  num_prefillable = sum_list (map info_prefillable tp0_info),
                  num_token_watermark_force_allow = sum_list (map info_force_allow tp0_info),
                  wait_forward_passes = (case prev_state of Some st \<Rightarrow> delayed_count st | None \<Rightarrow> 0),
                  wait_seconds = (case prev_state of Some st \<Rightarrow> wait_clock W - start_time st | None \<Rightarrow> 0)\<rparr>
           in case status of
                All \<Rightarrow>
                  if force_max > 0 then Inr (released\<lparr>output_reason := TokenWatermark\<rparr>, d)
                  else
                    rbind (local_slots d (arg_max_running_requests a)) (\<lambda>max_running.
                    rbind (tensor_max (map info_running_batch tp0_info)) (\<lambda>running_max.
                    rbind (tensor_max (map info_max_prefill_bs tp0_info)) (\<lambda>prefill_bs_max.
                    rbind (tensor_max (map info_waiting_queue_len tp0_info)) (\<lambda>waiting_max.
                      let queue_condition = queue_trigger d prev_state (elapsed_clock W) running_max prefill_bs_max waiting_max;
                          slot_condition = (max_running - running_max < prefill_bs_max);
                          go = released\<lparr>output_reason := (if prev_state \<noteq> None then WaitSuccess else NoWait)\<rparr>
                      in if slot_condition \<or> queue_condition
                         then if skip_first_delayer d then Inr (go, d\<lparr>skip_first_delayer := False\<rparr>)
                              else Inr (delay_or_timeout d W prev_state released, d)
                         else Inr (go, d)))))
              | NoRank \<Rightarrow> Inr (released, d)
              | Mixed \<Rightarrow>
                  if force_max > 0 then Inr (released\<lparr>output_reason := TokenWatermark\<rparr>, d)
                  else Inr (delay_or_timeout d W prev_state released, d)))))"

definition delayer_negotiate ::
  "prefill_delayer \<Rightarrow> pass_env \<Rightarrow> rat \<Rightarrow> negotiate_args \<Rightarrow> (negotiate_output \<times> prefill_delayer) result" where
  "delayer_negotiate d W token_usage a =
     rbind (negotiate_pure d W token_usage a) (\<lambda>(out, d1). Inr (out, d1\<lparr>curr_state := next_state out\<rparr>))"

section \<open>One pass of a scheduler\<close>

record single_pass =
  delayer :: prefill_delayer
  pass_token_usage :: rat
  pass_result :: "negotiate_output option"
  attempted_prefill_bs :: int

definition new_single_pass :: "prefill_delayer \<Rightarrow> rat \<Rightarrow> single_pass" where
  "new_single_pass d usage =
     \<lparr>delayer = d, pass_token_usage = usage, pass_result = None, attempted_prefill_bs = 0\<rparr>"

definition estimate_attempted_prefill_bs :: "prefill_delayer \<Rightarrow> negotiate_args \<Rightarrow> int result" where
  "estimate_attempted_prefill_bs d a =
     rbind (local_slots d (arg_max_running_requests a)) (\<lambda>local_max.
       let free_slots = max (local_max - arg_running_batch a) 1;
           non_empty_queue_len = max (arg_waiting_queue_len a) 1
       in Inr (min non_empty_queue_len free_slots))"

definition negotiate_should_allow_prefill ::
  "pass_env \<Rightarrow> single_pass \<Rightarrow> negotiate_args \<Rightarrow> (bool \<times> single_pass) result" where
  "negotiate_should_allow_prefill W p a =
     rbind
       (if local_prefillable a
        then rbind (estimate_attempted_prefill_bs (delayer p) a)
               (\<lambda>n. Inr (p\<lparr>attempted_prefill_bs := max (attempted_prefill_bs p) n\<rparr>))
        else Inr p)
     (\<lambda>p1. case pass_result p1 of
             Some out \<Rightarrow> Inr (output_allow out, p1)
           | None \<Rightarrow>
               rbind (delayer_negotiate (delayer p1) W (pass_token_usage p1) a) (\<lambda>(out, d1).
                 Inr (output_allow out, p1\<lparr>delayer := d1, pass_result := Some out\<rparr>)))"

text \<open>
  \<open>_record_single_pass_result\<close>: with the debug log on, an allowed pass that is neither a timeout
  nor a watermark release must have one of the remaining reasons.
\<close>

definition record_single_pass_result :: "bool \<Rightarrow> negotiate_output \<Rightarrow> unit result" where
  "record_single_pass_result debug_log out =
     (if debug_log then
        if output_allow out \<and> output_reason out = WaitTimeout then Inr ()
        else if output_allow out \<and> output_reason out = TokenWatermark then Inr ()
        else assert_that (output_reason out \<in> {NoReason, WaitSuccess, NoWait, Delay})
      else Inr ())"

definition finalize :: "bool \<Rightarrow> pass_env \<Rightarrow> single_pass \<Rightarrow> int \<Rightarrow> (int \<times> single_pass) result" where
  "finalize debug_log W p actual_prefill_bs =
     rbind
       (case pass_result p of
          Some _ \<Rightarrow> Inr p
        | None \<Rightarrow>
            rbind (negotiate_should_allow_prefill W p
                     \<lparr>local_prefillable = False, arg_running_batch = 0, arg_max_prefill_bs = 0,
                      arg_max_running_requests = 0, arg_waiting_queue_len = 0\<rparr>)
              (\<lambda>(_, p1). Inr p1))
     (\<lambda>p1. rbind (of_option AttributeError (pass_result p1)) (\<lambda>out.
            rbind (record_single_pass_result debug_log out) (\<lambda>_.
              Inr (if actual_prefill_bs \<noteq> 0 then actual_prefill_bs else attempted_prefill_bs p1, p1))))"

section \<open>Sequences of passes\<close>

fun delayer_run :: "prefill_delayer \<Rightarrow> (pass_env \<times> rat \<times> negotiate_args) list \<Rightarrow> negotiate_output list result" where
  "delayer_run d [] = Inr []"
| "delayer_run d ((W, usage, a) # passes) =
     rbind (delayer_negotiate d W usage a) (\<lambda>(out, d1).
     rbind (delayer_run d1 passes) (\<lambda>outs. Inr (out # outs)))"

fun observe_all :: "batch_tracker \<Rightarrow> int list \<Rightarrow> batch_tracker result" where
  "observe_all t [] = Inr t"
| "observe_all t (n # ns) = rbind (observe_attempt t n) (\<lambda>(_, t1). observe_all t1 ns)"

definition delay_count :: "delay_state option \<Rightarrow> int" where
  "delay_count st = (case st of Some st \<Rightarrow> delayed_count st | None \<Rightarrow> 0)"

text \<open>The settings of a delayer, which no pass changes.\<close>

definition same_settings :: "prefill_delayer \<Rightarrow> prefill_delayer \<Rightarrow> bool" where
  "same_settings d d' \<longleftrightarrow>
     max_delay_passes d' = max_delay_passes d \<and> token_usage_low_watermark d' = token_usage_low_watermark d \<and>
     queue_min_ratio d' = queue_min_ratio d \<and> max_delay_ms d' = max_delay_ms d \<and>
     delayer_prefill_max_requests d' = delayer_prefill_max_requests d \<and> dp_size d' = dp_size d \<and>
     enable_dp_attention d' = enable_dp_attention d"

text \<open>The verdict as a function of the gathered rows, the settings and the count of delays alone.\<close>

definition timeout_verdict :: "int \<Rightarrow> int \<Rightarrow> bool \<times> output_reason \<times> int" where
  "timeout_verdict limit delays =
     (if delays < limit - 1 then (False, Delay, delays + 1) else (True, WaitTimeout, 0))"

definition verdict ::
  "int \<Rightarrow> int result \<Rightarrow> bool \<Rightarrow> bool \<Rightarrow> int \<Rightarrow> rank_info list \<Rightarrow> (bool \<times> output_reason \<times> int) \<times> bool" where
  "verdict limit slots skip waited delays rows =
     (let P = set (map info_prefillable rows);
          force = Max (set (map info_force_allow rows)) > 0;
          tight = (case slots of Inr n \<Rightarrow> n | Inl _ \<Rightarrow> 0) - Max (set (map info_running_batch rows)) < Max (set (map info_max_prefill_bs rows));
          go = (True, if waited then WaitSuccess else NoWait, 0)
      in if Min P > 0
         then if force then ((True, TokenWatermark, 0), skip)
              else if tight then if skip then (go, False) else (timeout_verdict limit delays, skip)
              else (go, skip)
         else if Max P = 0 then ((True, NoReason, 0), skip)
         else if force then ((True, TokenWatermark, 0), skip)
         else (timeout_verdict limit delays, skip))"

section \<open>Lemmas\<close>

lemma delay_or_timeout_verdict:
  "(output_allow (delay_or_timeout d W prev r), output_reason (delay_or_timeout d W prev r), delay_count (next_state (delay_or_timeout d W prev r)))
     = timeout_verdict (max_delay_passes d) (delay_count prev)"
  by (cases prev) (simp_all add: delay_or_timeout_def timeout_verdict_def delay_count_def bump_delayed_count_def Let_def)

lemma negotiate_verdict:
  assumes q: "queue_min_ratio d = None" and g: "all_gather W = (\<lambda>_. rows)" and run: "delayer_negotiate d W u a = Inr (out, d')"
  shows "((output_allow out, output_reason out, delay_count (curr_state d')), skip_first_delayer d')
      = verdict (max_delay_passes d) (local_slots d (arg_max_running_requests a)) (skip_first_delayer d) (curr_state d \<noteq> None)
          (delay_count (curr_state d)) rows"
proof -
  obtain d0 where np: "negotiate_pure d W u a = Inr (out, d0)" and d': "d' = d0\<lparr>curr_state := next_state out\<rparr>"
    using run by (auto simp: delayer_negotiate_def rbind_eq_Inr)
  have gi: "gather_info W a f = rows" for f by (simp add: gather_info_def g)
  have "rows \<noteq> []"
  proof
    assume "rows = []"
    then have "negotiate_pure d W u a = Inl RuntimeError" unfolding negotiate_pure_def Let_def gi by (simp add: tensor_min_def)
    then show False using np by simp
  qed
  then have ne: "map f rows \<noteq> []" for f :: "rank_info \<Rightarrow> int" by simp
  have qt: "queue_trigger d p e r m w = False" for p e r m w using q by (simp add: queue_trigger_def)
  note run1 = np [unfolded negotiate_pure_def Let_def gi tensor_min_ok [OF ne] tensor_max_ok [OF ne] rbind_simps qt]
  have dc: "delay_count None = 0" by (simp add: delay_count_def)
  define mn mx fm rb pb where "mn = Min (set (map info_prefillable rows))" "mx = Max (set (map info_prefillable rows))"
    "fm = Max (set (map info_force_allow rows))" "rb = Max (set (map info_running_batch rows))" "pb = Max (set (map info_max_prefill_bs rows))"
  note fold = this [symmetric]
  note run2 = run1 [unfolded fold]
  show ?thesis
  proof (cases "mn > 0 \<and> \<not> fm > 0")
    case True
    then obtain sl where sl: "local_slots d (arg_max_running_requests a) = Inr sl"
      using run2 by (cases "local_slots d (arg_max_running_requests a)") simp_all
    show ?thesis
      using run2 True unfolding d' verdict_def Let_def fold sl
      by (cases "sl - rb < pb"; cases "skip_first_delayer d") (auto simp: delay_or_timeout_verdict dc)
  next
    case False
    then show ?thesis
      using run2 unfolding d' verdict_def Let_def fold by (cases "mn > 0"; cases "fm > 0"; cases "mx = 0") (simp_all, (auto simp: delay_or_timeout_verdict dc))
  qed
qed

lemma delay_or_timeout_cases:
  "output_allow (delay_or_timeout d W prev r) \<longleftrightarrow> max_delay_passes d - 1 \<le> delay_count prev"
  "\<not> output_allow (delay_or_timeout d W prev r) \<Longrightarrow> delay_count (next_state (delay_or_timeout d W prev r)) = delay_count prev + 1"
  "output_allow (delay_or_timeout d W prev r) \<Longrightarrow> next_state (delay_or_timeout d W prev r) = None"
  by (auto simp: delay_or_timeout_def delay_count_def bump_delayed_count_def Let_def split: option.splits if_splits)

text \<open>One pass: it succeeds, keeps the settings, and a delay counts one more pass below the limit.\<close>

lemma negotiate_facts:
  assumes g: "\<And>x. all_gather W x \<noteq> []" and dp: "dp_size d \<noteq> 0"
  obtains out d1 where "delayer_negotiate d W usage a = Inr (out, d1)" "same_settings d d1" "curr_state d1 = next_state out"
    "\<not> output_allow out \<Longrightarrow> delay_count (curr_state d) < max_delay_passes d - 1 \<and> delay_count (next_state out) = delay_count (curr_state d) + 1"
    "output_allow out \<Longrightarrow> next_state out = None"
proof -
  define rows where "rows = gather_info W a (local_prefillable a \<and>
            (case token_usage_low_watermark d of Some x \<Rightarrow> usage < x | None \<Rightarrow> False))"
  have ne: "map f rows \<noteq> []" for f :: "rank_info \<Rightarrow> int" using g by (simp add: rows_def gather_info_def)
  obtain slots where slots: "local_slots d (arg_max_running_requests a) = Inr slots"
    using dp by (cases "enable_dp_attention d") (auto simp: local_slots_def floor_div_def)
  have "\<exists>out d1. negotiate_pure d W usage a = Inr (out, d1) \<and> same_settings d d1 \<and> (d1 = d \<or> d1 = d\<lparr>skip_first_delayer := False\<rparr>) \<and>
    (\<not> output_allow out \<longrightarrow> delay_count (curr_state d) < max_delay_passes d - 1 \<and> delay_count (next_state out) = delay_count (curr_state d) + 1) \<and>
    (output_allow out \<longrightarrow> next_state out = None)"
    unfolding negotiate_pure_def rows_def [symmetric] Let_def tensor_min_ok [OF ne] tensor_max_ok [OF ne] slots rbind_simps
    using delay_or_timeout_cases [of d W "curr_state d"]
    by (auto simp: same_settings_def split: prefillable_status.splits)
  then obtain out d1 where o: "negotiate_pure d W usage a = Inr (out, d1)" "same_settings d d1" "d1 = d \<or> d1 = d\<lparr>skip_first_delayer := False\<rparr>"
    "\<not> output_allow out \<longrightarrow> delay_count (curr_state d) < max_delay_passes d - 1 \<and> delay_count (next_state out) = delay_count (curr_state d) + 1"
    "output_allow out \<longrightarrow> next_state out = None" by blast
  then show ?thesis using that [of out "d1\<lparr>curr_state := next_state out\<rparr>"]
    by (auto simp: delayer_negotiate_def same_settings_def)
qed

lemma delayer_run_delays:
  assumes "dp_size d \<noteq> 0" "\<And>W u a x. (W, u, a) \<in> set passes \<Longrightarrow> all_gather W x \<noteq> []"
  shows "\<exists>outs. delayer_run d passes = Inr outs \<and> length outs = length passes \<and>
    ((\<forall>out \<in> set outs. \<not> output_allow out) \<longrightarrow> passes = [] \<or> delay_count (curr_state d) + int (length passes) < max_delay_passes d)"
  using assms
proof (induction d passes rule: delayer_run.induct)
  case (2 d W usage a passes)
  have g: "all_gather W x \<noteq> []" for x using 2(3) [of W usage a x] by simp
  obtain out d1 where n: "delayer_negotiate d W usage a = Inr (out, d1)" "same_settings d d1" "curr_state d1 = next_state out"
    "\<not> output_allow out \<Longrightarrow> delay_count (curr_state d) < max_delay_passes d - 1 \<and> delay_count (next_state out) = delay_count (curr_state d) + 1"
    by (rule negotiate_facts [OF g 2(2), of usage a]) blast
  have "dp_size d1 \<noteq> 0" using n(2) 2(2) by (simp add: same_settings_def)
  then obtain outs where "delayer_run d1 passes = Inr outs" "length outs = length passes"
    "(\<forall>out \<in> set outs. \<not> output_allow out) \<longrightarrow> passes = [] \<or> delay_count (curr_state d1) + int (length passes) < max_delay_passes d1"
    using 2(1) [OF n(1) refl] 2(3) by (metis list.set_intros(2))
  then show ?case using n by (auto simp: same_settings_def)
qed simp

lemma negotiate_reason_logged:
  assumes "delayer_negotiate d W usage a = Inr (out, d1)"
  shows "record_single_pass_result dbg out = Inr ()"
  using assms
  by (auto simp: delayer_negotiate_def negotiate_pure_def rbind_eq_Inr Let_def record_single_pass_result_def assert_that_def
      delay_or_timeout_def split: prefillable_status.splits if_splits)

lemma observe_all_window:
  assumes "list_all (\<lambda>n. 0 < n) ns" "length (recent_attempt_sizes t) \<le> window_size t"
  shows "observe_all t ns = Inr (t\<lparr>recent_attempt_sizes :=
    drop (length (recent_attempt_sizes t) + length ns - window_size t) (recent_attempt_sizes t @ ns)\<rparr>)"
  using assms
proof (induction ns arbitrary: t)
  case (Cons n ns)
  let ?xs = "recent_attempt_sizes t" and ?w = "window_size t"
  let ?t = "t\<lparr>recent_attempt_sizes := deque_append ?w ?xs n\<rparr>"
  have len: "length (deque_append ?w ?xs n) = min ?w (length ?xs + 1)" by (simp add: deque_append_def)
  have "observe_all ?t ns = Inr (?t\<lparr>recent_attempt_sizes :=
      drop (length (deque_append ?w ?xs n) + length ns - ?w) (deque_append ?w ?xs n @ ns)\<rparr>)"
    using Cons.IH [of ?t] Cons.prems len by simp
  moreover have "drop (length (deque_append ?w ?xs n) + length ns - ?w) (deque_append ?w ?xs n @ ns)
      = drop (length ?xs + length (n # ns) - ?w) (?xs @ n # ns)"
  proof (cases "length ?xs + 1 \<le> ?w")
    case True
    then show ?thesis using len by (simp add: deque_append_def min_absorb2)
  next
    case False
    then have w: "length ?xs = ?w" using Cons.prems(2) by simp
    then have "deque_append ?w ?xs n @ ns = drop 1 (?xs @ n # ns)" by (cases ?xs) (simp_all add: deque_append_def)
    moreover have "length (deque_append ?w ?xs n) + length ns - ?w = length ns" "length ?xs + length (n # ns) - ?w = length ns + 1"
      using len w by simp_all
    ultimately show ?thesis by (simp only: drop_drop)
  qed
  ultimately show ?case using Cons.prems by (simp add: observe_attempt_def Let_def)
qed (simp add: Let_def)

section \<open>Properties\<close>

text \<open>
  C33: prefill cannot be delayed forever: whatever the ranks report and whatever the clock says, every sequence of at least max_delay_passes scheduling passes succeeds and contains a pass that is allowed.
\<close>

theorem prefill_delay_is_bounded:
  assumes "dp_size d \<noteq> 0" "\<And>W u a x. (W, u, a) \<in> set passes \<Longrightarrow> all_gather W x \<noteq> []"
    and "0 \<le> delay_count (curr_state d)" "passes \<noteq> []" "max_delay_passes d \<le> int (length passes)"
  shows "\<exists>outs. delayer_run d passes = Inr outs \<and> length outs = length passes \<and> (\<exists>out \<in> set outs. output_allow out)"
proof -
  from delayer_run_delays [of d passes] assms(1,2) obtain outs where "delayer_run d passes = Inr outs" "length outs = length passes"
    "(\<forall>out \<in> set outs. \<not> output_allow out) \<longrightarrow> passes = [] \<or> delay_count (curr_state d) + int (length passes) < max_delay_passes d"
    by blast
  then show ?thesis using assms(3-5) by fastforce
qed

definition demo_delayer :: prefill_delayer where
  "demo_delayer = \<lparr>max_delay_passes = 3, token_usage_low_watermark = None, queue_min_ratio = None, max_delay_ms = 5000,
     delayer_prefill_max_requests = None, dp_size = 2, enable_dp_attention = True, curr_state = None, skip_first_delayer = False\<rparr>"

definition demo_pass :: "pass_env \<times> rat \<times> negotiate_args" where
  "demo_pass =
     (\<lparr>all_gather = (\<lambda>x. [x, x\<lparr>info_prefillable := 0\<rparr>]), wait_clock = 0, elapsed_clock = 0, new_state_clock = 0\<rparr>, 1 / 2,
      \<lparr>local_prefillable = True, arg_running_batch = 1, arg_max_prefill_bs = 4, arg_max_running_requests = 4, arg_waiting_queue_len = 2\<rparr>)"

theorem prefill_delay_is_bounded_witness:
  "\<exists>outs. delayer_run demo_delayer [demo_pass, demo_pass, demo_pass] = Inr outs \<and> (\<exists>out \<in> set outs. output_allow out)"
  using prefill_delay_is_bounded [of demo_delayer "[demo_pass, demo_pass, demo_pass]"]
  by (auto simp: demo_delayer_def demo_pass_def delay_count_def)

text \<open>
  C34: without the queue trigger, the ranks of a group reach the same verdict from the gathered numbers alone: two ranks with the same settings and the same count of delays, that received the same rows, agree on the decision, its reason and the next count, although their clocks and their token usage differ.
\<close>

theorem ranks_agree:
  assumes "same_settings d1 d2" "queue_min_ratio d1 = None" "skip_first_delayer d1 = skip_first_delayer d2"
    and "curr_state d1 = None \<longleftrightarrow> curr_state d2 = None" "delay_count (curr_state d1) = delay_count (curr_state d2)"
    and "all_gather W1 = (\<lambda>_. rows)" "all_gather W2 = (\<lambda>_. rows)" "arg_max_running_requests a1 = arg_max_running_requests a2"
    and "delayer_negotiate d1 W1 u1 a1 = Inr (o1, d1')" "delayer_negotiate d2 W2 u2 a2 = Inr (o2, d2')"
  shows "output_allow o1 = output_allow o2 \<and> output_reason o1 = output_reason o2 \<and>
    delay_count (curr_state d1') = delay_count (curr_state d2') \<and> skip_first_delayer d1' = skip_first_delayer d2'"
proof -
  have S: "max_delay_passes d2 = max_delay_passes d1" "queue_min_ratio d2 = None" "dp_size d2 = dp_size d1" "enable_dp_attention d2 = enable_dp_attention d1"
    using assms(1,2) by (simp_all add: same_settings_def)
  have sl: "local_slots d2 = local_slots d1" using S by (simp add: local_slots_def fun_eq_iff)
  have "((output_allow o1, output_reason o1, delay_count (curr_state d1')), skip_first_delayer d1')
      = ((output_allow o2, output_reason o2, delay_count (curr_state d2')), skip_first_delayer d2')"
    unfolding negotiate_verdict [OF assms(2,6,9)] negotiate_verdict [OF S(2) assms(7,10)] S(1) sl using assms(3-5,8) by simp
  then show ?thesis by simp
qed

theorem ranks_agree_witness:
  "\<exists>o1 o2 d1' d2'. delayer_negotiate demo_delayer (fst demo_pass\<lparr>all_gather := (\<lambda>_. [\<lparr>info_prefillable = 1, info_force_allow = 0,
       info_running_batch = 1, info_max_prefill_bs = 4, info_waiting_queue_len = 2\<rparr>])\<rparr>) (1 / 2) (snd (snd demo_pass)) = Inr (o1, d1') \<and>
     delayer_negotiate demo_delayer (fst demo_pass\<lparr>wait_clock := 7, all_gather := (\<lambda>_. [\<lparr>info_prefillable = 1, info_force_allow = 0,
       info_running_batch = 1, info_max_prefill_bs = 4, info_waiting_queue_len = 2\<rparr>])\<rparr>) (1 / 3) (snd (snd demo_pass)) = Inr (o2, d2') \<and>
     output_allow o1 = output_allow o2"
proof -
  let ?rows = "[\<lparr>info_prefillable = 1, info_force_allow = 0, info_running_batch = 1, info_max_prefill_bs = 4, info_waiting_queue_len = 2\<rparr>]"
  let ?W1 = "fst demo_pass\<lparr>all_gather := (\<lambda>_. ?rows)\<rparr>" and ?W2 = "fst demo_pass\<lparr>wait_clock := 7, all_gather := (\<lambda>_. ?rows)\<rparr>"
  have dp: "dp_size demo_delayer \<noteq> 0" by (simp add: demo_delayer_def)
  obtain o1 d1' where 1: "delayer_negotiate demo_delayer ?W1 (1 / 2) (snd (snd demo_pass)) = Inr (o1, d1')"
    by (rule negotiate_facts [OF _ dp, of ?W1]) simp_all
  obtain o2 d2' where 2: "delayer_negotiate demo_delayer ?W2 (1 / 3) (snd (snd demo_pass)) = Inr (o2, d2')"
    by (rule negotiate_facts [OF _ dp, of ?W2]) simp_all
  have "output_allow o1 = output_allow o2"
    using ranks_agree [OF _ _ _ _ _ _ _ _ 1 2, of ?rows] by (simp add: same_settings_def demo_delayer_def)
  then show ?thesis using 1 2 by blast
qed



text \<open>
  C40: the tracker reports the largest of the latest attempts: after any sequence of positive batch sizes, max_prefill_bs is the maximum of the last window_size of them, and a size that is not positive is a ValueError.
\<close>

theorem tracker_reports_recent_maximum:
  assumes "new_batch_tracker w = Inr t" "list_all (\<lambda>n. 0 < n) ns" "ns \<noteq> []"
  shows "\<exists>t'. observe_all t ns = Inr t' \<and> tracked_max_prefill_bs t' = Max (set (drop (length ns - nat w) ns)) \<and>
    (\<forall>n. n \<le> 0 \<longrightarrow> observe_attempt t' n = Inl ValueError)"
proof -
  have t: "0 < w" "t = \<lparr>window_size = nat w, recent_attempt_sizes = []\<rparr>" using assms(1) by (auto simp: new_batch_tracker_def split: if_splits)
  have "observe_all t ns = Inr (t\<lparr>recent_attempt_sizes := drop (length ns - nat w) ns\<rparr>)"
    using observe_all_window [OF assms(2), of t] t(2) by simp
  moreover have "0 < length ns" using assms(3) by simp
  then have "length ns - nat w < length ns" using t(1) by linarith
  then have "drop (length ns - nat w) ns \<noteq> []" by simp
  ultimately show ?thesis by (simp add: tracked_max_prefill_bs_def max_default_Max observe_attempt_def)
qed

theorem tracker_reports_recent_maximum_witness:
  "\<exists>t t'. new_batch_tracker 2 = Inr t \<and> observe_all t [9, 3, 5] = Inr t' \<and> tracked_max_prefill_bs t' = 5"
proof -
  have "new_batch_tracker 2 = Inr \<lparr>window_size = 2, recent_attempt_sizes = []\<rparr>" by (simp add: new_batch_tracker_def)
  from tracker_reports_recent_maximum [OF this, of "[9, 3, 5]"] this show ?thesis by auto
qed

end
