(* ===== verification/PrefillAdder.thy ===== *)
theory PrefillAdder
  imports SchedulePolicy PrefillDelayer
begin

text \<open>
  \<open>PrefillAdder\<close> of \<open>managers/schedule_policy.py\<close>: admission of waiting requests into the next
  prefill batch. The adder keeps budgets for the tokens of the pool, of one chunk and of one
  batch; it locks the cached prefix of every admitted request. The page size is positive.
\<close>

section \<open>Tile metrics\<close>

definition py_ceil_div :: "int \<Rightarrow> int \<Rightarrow> int" where
  "py_ceil_div v d = - ((- v) div d)"

record tile_metrics =
  extend_lens :: "int list"
  q_tiles_per_request :: "int list"
  max_extend_len :: int
  sum_extend_len :: int
  legacy_q_tiles :: int
  compact_q_tiles :: int
  saved_q_tiles :: int
  saved_q_tile_ratio :: "rat option"

definition estimate_prefill_extend_tile_metrics :: "int list \<Rightarrow> int \<Rightarrow> tile_metrics result" where
  "estimate_prefill_extend_tile_metrics lens block_m =
     (let normalized = map (max 0) lens
      in if block_m = 0 \<and> list_ex (\<lambda>l. l > 0) normalized then Inl ZeroDivisionError
         else
           let q_tiles = map (\<lambda>l. if l > 0 then py_ceil_div l block_m else 0) normalized;
               legacy = int (length q_tiles) * max_default 0 q_tiles;
               compact = sum_list q_tiles;
               saved = legacy - compact
           in Inr \<lparr>extend_lens = normalized, q_tiles_per_request = q_tiles,
                   max_extend_len = max_default 0 normalized, sum_extend_len = sum_list normalized,
                   legacy_q_tiles = legacy, compact_q_tiles = compact, saved_q_tiles = saved,
                   saved_q_tile_ratio = (if legacy \<noteq> 0 then Some (of_int saved / of_int legacy) else None)\<rparr>)"

section \<open>The adder\<close>

datatype add_req_result = CONTINUE | NO_TOKEN | OTHER

record 'c prefill_adder =
  ad_page_size :: int
  ad_tile_block_m :: int
  ad_cache :: 'c
  ad_running :: "sched_req list option"
  ad_new_token_ratio :: rat
  rem_input_tokens :: int
  rem_chunk_tokens :: "int option"
  dllm_block_size :: "int option"
  rem_dllm_tokens :: int
  rem_total_token_offset :: rat
  cur_rem_token_offset :: int
  req_states :: "(rat \<times> int) list option"
  can_run_list :: "sched_req list"
  preempt_list :: "sched_req list"
  new_chunked_req :: "sched_req option"
  log_hit_tokens :: int
  reprocessed_log_hit_tokens :: int
  log_device_hit_tokens :: int
  log_host_hit_tokens :: int
  log_storage_hit_tokens :: int
  log_input_tokens :: int
  reprocessed_log_input_tokens :: int
  rem_swa_token_offset :: int
  rem_mamba_slots :: "int option"
  preemption_threshold :: int
  dsa_prefill_cp_in_seq_split :: bool
  ad_prefill_max_requests :: "int option"
  ad_delayer :: "single_pass option"
  ad_max_prefill_bs :: int
  ad_max_running_requests :: int
  ad_waiting_queue_len :: int

definition running_token_offset :: "sched_env \<Rightarrow> rat \<Rightarrow> sched_req \<Rightarrow> rat" where
  "running_token_offset X ratio r =
     of_int (min (max_new_tokens r - int (length (output_ids r))) (clip_max_new_tokens X)) * ratio"

record adder_args =
  arg_rem_input_tokens :: int
  arg_rem_chunk_tokens :: "int option"
  arg_num_mixed_decode_tokens :: int
  arg_preemption_threshold :: int
  arg_adder_max_prefill_bs :: int
  arg_adder_max_running :: int
  arg_prefill_max_requests :: "int option"
  arg_delayer :: "single_pass option"
  arg_dllm_config :: "(int \<times> int) option" \<comment> \<open>block size, running requests\<close>
  arg_waiting_len :: int
  arg_tile_block_m :: int
  arg_dsa_prefill_cp :: bool

definition new_prefill_adder ::
  "sched_env \<Rightarrow> ('c, 'l) cache_ops \<Rightarrow> int \<Rightarrow> 'c \<Rightarrow> sched_req list option \<Rightarrow> rat \<Rightarrow> adder_args \<Rightarrow> 'c prefill_adder" where
  "new_prefill_adder X ops pg s running ratio g =
     (let mixed = arg_num_mixed_decode_tokens g;
          cost = op_mamba_slot_cost ops
      in \<lparr>ad_page_size = pg, ad_tile_block_m = arg_tile_block_m g, ad_cache = s, ad_running = running,
          ad_new_token_ratio = ratio,
          rem_input_tokens = arg_rem_input_tokens g - mixed,
          rem_chunk_tokens = map_option (\<lambda>c. c - mixed) (arg_rem_chunk_tokens g),
          dllm_block_size = map_option fst (arg_dllm_config g),
          rem_dllm_tokens = (case arg_dllm_config g of Some (block, reqs) \<Rightarrow> reqs * block | None \<Rightarrow> 0),
          rem_total_token_offset =
            of_int mixed +
            (case running of Some rs \<Rightarrow> sum_list (map (running_token_offset X ratio) rs) | None \<Rightarrow> 0),
          cur_rem_token_offset = mixed,
          req_states = None, can_run_list = [], preempt_list = [], new_chunked_req = None,
          log_hit_tokens = 0, reprocessed_log_hit_tokens = 0, log_device_hit_tokens = 0,
          log_host_hit_tokens = 0, log_storage_hit_tokens = 0, log_input_tokens = 0,
          reprocessed_log_input_tokens = 0,
          rem_swa_token_offset = 0,
          rem_mamba_slots =
            (if cost \<noteq> 0
             then Some (op_mamba_schedulable ops s + (if op_supports_mamba ops then op_mamba_evictable_size ops s else 0))
             else None),
          preemption_threshold = arg_preemption_threshold g,
          dsa_prefill_cp_in_seq_split = arg_dsa_prefill_cp g,
          ad_prefill_max_requests = arg_prefill_max_requests g, ad_delayer = arg_delayer g,
          ad_max_prefill_bs = arg_adder_max_prefill_bs g, ad_max_running_requests = arg_adder_max_running g,
          ad_waiting_queue_len = arg_waiting_len g\<rparr>)"

section \<open>Budgets\<close>

text \<open>
  \<open>_admitted_extend_lens\<close> reads the attribute \<open>extend_input_len\<close> of the admitted requests with the
  default 0. A request has no such attribute (its length is \<open>extend_range.length\<close>), so the default
  is what is read.
\<close>

definition admitted_extend_lens :: "'c prefill_adder \<Rightarrow> int list" where
  "admitted_extend_lens a = map (\<lambda>_. 0) (can_run_list a)"

definition check_prefill_tile_budget :: "sched_env \<Rightarrow> 'c prefill_adder \<Rightarrow> int \<Rightarrow> add_req_result option result" where
  "check_prefill_tile_budget X a candidate_extend_len =
     (if \<not> is_hip X \<or> prefill_tile_budget X \<le> 0 then Inr None
      else if can_run_list a = [] then Inr None
      else
        rbind (estimate_prefill_extend_tile_metrics (admitted_extend_lens a @ [candidate_extend_len]) (ad_tile_block_m a)) (\<lambda>metrics.
          let candidate_metric =
                (case prefill_tile_budget_mode X of
                   LegacyTiles \<Rightarrow> legacy_q_tiles metrics
                 | CompactTiles \<Rightarrow> compact_q_tiles metrics)
          in Inr (if candidate_metric \<le> prefill_tile_budget X then None else Some OTHER)))"

definition available_and_evictable :: "('c, 'l) cache_ops \<Rightarrow> 'c \<Rightarrow> int" where
  "available_and_evictable ops s =
     (if op_is_all_swa ops then op_swa_available_size ops s + op_swa_evictable_size ops s
      else if op_is_hybrid_swa ops then op_full_available_size ops s + op_full_evictable_size ops s
      else if op_supports_mamba ops then op_available_size ops s + op_full_evictable_size ops s
      else op_available_size ops s + op_evictable_size ops s)"

definition rem_total_tokens :: "('c, 'l) cache_ops \<Rightarrow> 'c prefill_adder \<Rightarrow> rat" where
  "rem_total_tokens ops a = of_int (available_and_evictable ops (ad_cache a)) - rem_total_token_offset a"

definition rem_swa_tokens :: "('c, 'l) cache_ops \<Rightarrow> 'c prefill_adder \<Rightarrow> int" where
  "rem_swa_tokens ops a =
     op_swa_available_size ops (ad_cache a) + op_swa_evictable_size ops (ad_cache a) - rem_swa_token_offset a"

definition cur_rem_tokens :: "('c, 'l) cache_ops \<Rightarrow> 'c prefill_adder \<Rightarrow> int" where
  "cur_rem_tokens ops a = available_and_evictable ops (ad_cache a) - cur_rem_token_offset a"

definition ceil_paged_tokens :: "'c prefill_adder \<Rightarrow> int \<Rightarrow> int" where
  "ceil_paged_tokens a tokens = - ((- tokens) div ad_page_size a) * ad_page_size a"

definition swa_reserved_tokens :: "('c, 'l) cache_ops \<Rightarrow> 'c prefill_adder \<Rightarrow> int \<Rightarrow> int \<Rightarrow> int \<Rightarrow> int" where
  "swa_reserved_tokens ops a extend_input_len new_tokens swa_host_hit =
     (let headroom = min (extend_input_len + new_tokens) (op_sliding_window ops);
          reserved = headroom + ad_page_size a
      in if swa_host_hit > 0 then reserved + ceil_paged_tokens a swa_host_hit else reserved)"

definition swa_budget_for_req :: "('c, 'l) cache_ops \<Rightarrow> 'c prefill_adder \<Rightarrow> int \<Rightarrow> int \<Rightarrow> int \<Rightarrow> int" where
  "swa_budget_for_req ops a extend_input_len new_tokens swa_host_hit =
     (let alloc = (case rem_chunk_tokens a of Some c \<Rightarrow> min extend_input_len c | None \<Rightarrow> extend_input_len)
      in max (alloc - op_sliding_window ops) 0 + swa_reserved_tokens ops a extend_input_len new_tokens swa_host_hit)"

definition remaining_new_tokens :: "sched_env \<Rightarrow> sched_req \<Rightarrow> int" where
  "remaining_new_tokens X r =
     min (max (max_new_tokens r - int (length (output_ids r))) 0) (clip_max_new_tokens X)"

definition swa_chunk_cap :: "('c, 'l) cache_ops \<Rightarrow> 'c prefill_adder \<Rightarrow> int \<Rightarrow> int \<Rightarrow> int" where
  "swa_chunk_cap ops a new_tokens swa_host_hit =
     (let cap = rem_swa_tokens ops a - swa_reserved_tokens ops a 0 new_tokens swa_host_hit
      in if cap \<le> 0 then 0 else cap div ad_page_size a * ad_page_size a)"

definition swa_req_never_fits :: "('c, 'l) cache_ops \<Rightarrow> 'c prefill_adder \<Rightarrow> int \<Rightarrow> int \<Rightarrow> int \<Rightarrow> bool" where
  "swa_req_never_fits ops a extend_input_len new_tokens swa_host_hit \<longleftrightarrow>
     swa_budget_for_req ops a extend_input_len new_tokens swa_host_hit \<ge> op_size_swa ops"

definition mamba_gap_budget_for_req :: "('c, 'l) cache_ops \<Rightarrow> sched_req \<Rightarrow> int" where
  "mamba_gap_budget_for_req ops r =
     (if op_mamba_slot_cost ops \<noteq> 0 \<and> \<not> holds_mamba r then op_mamba_slot_cost ops else 0)"

definition chunk_budget_exhausted :: "'c prefill_adder \<Rightarrow> bool" where
  "chunk_budget_exhausted a \<longleftrightarrow> (case rem_chunk_tokens a of Some c \<Rightarrow> c < ad_page_size a | None \<Rightarrow> False)"

definition budget_state :: "('c, 'l) cache_ops \<Rightarrow> 'c prefill_adder \<Rightarrow> add_req_result" where
  "budget_state ops a =
     (let no_token = (rem_total_tokens ops a \<le> 0 \<or> cur_rem_tokens ops a \<le> 0);
          no_token1 = (no_token \<or> (op_is_hybrid_swa ops \<and> rem_swa_tokens ops a \<le> 0));
          no_token2 = (no_token1 \<or> (case rem_mamba_slots a of Some n \<Rightarrow> n \<le> 0 | None \<Rightarrow> False))
      in if no_token2 then NO_TOKEN
         else if rem_input_tokens a \<le> 0 then OTHER
         else if dllm_block_size a \<noteq> None
              then (if rem_dllm_tokens a \<le> 0 then OTHER else CONTINUE)
              else (case rem_chunk_tokens a of Some c \<Rightarrow> if c \<le> 0 then OTHER else CONTINUE | None \<Rightarrow> CONTINUE))"

definition update_prefill_budget ::
  "('c, 'l) cache_ops \<Rightarrow> 'c prefill_adder \<Rightarrow> int \<Rightarrow> int \<Rightarrow> int \<Rightarrow> bool \<Rightarrow> int \<Rightarrow> int \<Rightarrow> int \<Rightarrow> 'c prefill_adder" where
  "update_prefill_budget ops a plen extend_input_len0 new_tokens retracted mamba_gap_reserve host_hit_len storage_hit_len =
     (let extend_input_len = ceil_paged_tokens a extend_input_len0;
          page_overhead = ad_page_size a;
          a1 = a\<lparr>rem_total_token_offset := rem_total_token_offset a + of_int (extend_input_len + new_tokens + page_overhead + mamba_gap_reserve),
                 cur_rem_token_offset := cur_rem_token_offset a + (extend_input_len + page_overhead + mamba_gap_reserve),
                 rem_mamba_slots := (if mamba_gap_reserve \<noteq> 0 then map_option (\<lambda>n. n - 1) (rem_mamba_slots a) else rem_mamba_slots a),
                 rem_input_tokens := rem_input_tokens a - extend_input_len\<rparr>;
          a2 = (if op_is_hybrid_swa ops
                then a1\<lparr>rem_swa_token_offset := rem_swa_token_offset a1 + swa_budget_for_req ops a1 extend_input_len new_tokens 0\<rparr>
                else a1);
          a3 = (if dllm_block_size a2 \<noteq> None then a2\<lparr>rem_dllm_tokens := rem_dllm_tokens a2 - extend_input_len\<rparr>
                else a2\<lparr>rem_chunk_tokens := map_option (\<lambda>c. c - extend_input_len) (rem_chunk_tokens a2)\<rparr>);
          a4 = a3\<lparr>log_hit_tokens := log_hit_tokens a3 + plen, log_input_tokens := log_input_tokens a3 + extend_input_len\<rparr>
      in if retracted
         then a4\<lparr>reprocessed_log_hit_tokens := reprocessed_log_hit_tokens a4 + plen,
                 reprocessed_log_input_tokens := reprocessed_log_input_tokens a4 + extend_input_len\<rparr>
         else if plen > 0
         then let (device_hit, host_hit, storage_hit) = split_cached_prefix_by_tier plen host_hit_len storage_hit_len
              in a4\<lparr>log_device_hit_tokens := log_device_hit_tokens a4 + device_hit,
                    log_host_hit_tokens := log_host_hit_tokens a4 + host_hit,
                    log_storage_hit_tokens := log_storage_hit_tokens a4 + storage_hit\<rparr>
         else a4)"

definition get_dllm_remain_tokens :: "('c, 'l) cache_ops \<Rightarrow> 'c prefill_adder \<Rightarrow> int \<Rightarrow> int" where
  "get_dllm_remain_tokens ops a blk =
     (let rem = min (min (rem_dllm_tokens a) blk) (py_int (rem_total_tokens ops a))
      in if rem \<le> 0 then rem_dllm_tokens a else rem)"

section \<open>Admission\<close>

definition admit :: "'c prefill_adder \<Rightarrow> sched_req \<Rightarrow> 'c prefill_adder" where
  "admit a r = a\<lparr>can_run_list := can_run_list a @ [r]\<rparr>"

definition prefix_length :: "sched_req \<Rightarrow> int" where
  "prefix_length r = int (length (prefix_indices r))"

definition cand_extend_input_len :: "sched_req \<Rightarrow> int" where
  "cand_extend_input_len r = int (length (full_untruncated_fill_ids r)) - prefix_length r"

definition add_dllm_req :: "('c, 'l) cache_ops \<Rightarrow> 'c prefill_adder \<Rightarrow> int \<Rightarrow> sched_req \<Rightarrow> int \<Rightarrow> sched_req \<times> 'c prefill_adder" where
  "add_dllm_req ops a blk r plen =
     (let trunc_len = min (rem_dllm_tokens a) blk div ad_page_size a * ad_page_size a;
          r1 = set_extend_range r plen (plen + trunc_len)
      in (r1, update_prefill_budget ops (admit a r1) plen trunc_len 0 (retracted_stain r1)
                (mamba_gap_budget_for_req ops r1) (host_hit_length r1) (storage_hit_length r1)))"

definition req_inc_lock_ref :: "('c, 'l) cache_ops \<Rightarrow> 'c prefill_adder \<Rightarrow> sched_req \<Rightarrow> (sched_req \<times> 'c prefill_adder) result" where
  "req_inc_lock_ref ops a r =
     rbind (op_inc_lock ops (ad_cache a) (last_node r)) (\<lambda>(l, s1).
       Inr ((if op_is_hybrid_swa ops then r\<lparr>swa_uuid_for_lock := op_lock_uuid ops l\<rparr> else r), a\<lparr>ad_cache := s1\<rparr>))"

definition negotiate :: "pass_env \<Rightarrow> 'c prefill_adder \<Rightarrow> (bool \<times> 'c prefill_adder) result" where
  "negotiate W a =
     (case ad_delayer a of
        None \<Rightarrow> Inr (True, a)
      | Some p \<Rightarrow>
          rbind (of_option AttributeError (ad_running a)) (\<lambda>running.
          rbind (negotiate_should_allow_prefill W p
                   \<lparr>local_prefillable = True, arg_running_batch = int (length running),
                    arg_max_prefill_bs = ad_max_prefill_bs a,
                    arg_max_running_requests = ad_max_running_requests a,
                    arg_waiting_queue_len = ad_waiting_queue_len a\<rparr>) (\<lambda>(allowed, p1).
            Inr (allowed, a\<lparr>ad_delayer := Some p1\<rparr>))))"

definition add_dllm_staging_req ::
  "sched_env \<Rightarrow> ('c, 'l) cache_ops \<Rightarrow> 'c prefill_adder \<Rightarrow> sched_req \<Rightarrow> (add_req_result \<times> sched_req \<times> 'c prefill_adder) result" where
  "add_dllm_staging_req X ops a r =
     rbind (of_option AssertionError (dllm_block_size a)) (\<lambda>blk.
       let rem = get_dllm_remain_tokens ops a blk;
           cand = cand_extend_input_len r
       in if rem \<le> 0 then Inr (NO_TOKEN, r, a)
          else if dllm_incomplete_ids r \<noteq> [] \<and> cand > rem then Inr (NO_TOKEN, r, a)
          else
            let truncated = (cand > rem);
                new_len = min cand rem;
                r1 = set_extend_range r (prefix_length r) (prefix_length r + new_len);
                new_tokens = (if truncated then 0 else min (max_new_tokens r) (clip_max_new_tokens X));
                a1 = update_prefill_budget ops (admit a r1) 0 (extend_len r1) new_tokens (retracted_stain r)
                       (mamba_gap_budget_for_req ops r) 0 0
            in Inr ((if get_dllm_remain_tokens ops a1 blk \<le> 0 then NO_TOKEN else CONTINUE), r1, a1))"

text \<open>The result of \<open>add_chunked_req\<close> is the request when its prefill is not finished.\<close>

definition add_chunked_req ::
  "sched_env \<Rightarrow> pass_env \<Rightarrow> ('c, 'l) cache_ops \<Rightarrow> 'c prefill_adder \<Rightarrow> sched_req
    \<Rightarrow> (sched_req option \<times> 'c prefill_adder) result"
where
  "add_chunked_req X W ops a r =
     rbind
       (case dllm_block_size a of
          Some blk \<Rightarrow> Inr (Some (get_dllm_remain_tokens ops a blk))
        | None \<Rightarrow>
            rbind (of_option TypeError (rem_chunk_tokens a)) (\<lambda>chunk.
              let rem0 = min chunk (py_int (rem_total_tokens ops a));
                  rem = (if op_is_hybrid_swa ops then min rem0 (rem_swa_tokens ops a - ad_page_size a) else rem0)
              in Inr (if rem \<le> 0 then (if op_is_hybrid_swa ops then None else Some chunk) else Some rem)))
     (\<lambda>rem_or_stop.
       case rem_or_stop of
         None \<Rightarrow> Inr (Some r, a)
       | Some rem \<Rightarrow>
           rbind (negotiate W a) (\<lambda>(_, a1).
             let cand = cand_extend_input_len r;
                 truncated = (cand > rem);
                 new_len = min cand rem;
                 r1 = set_extend_range r (prefix_length r) (prefix_length r + new_len);
                 a2 = update_prefill_budget ops (admit a1 r1) 0 (extend_len r1)
                        (if truncated then 0 else min (max_new_tokens r) (clip_max_new_tokens X))
                        (retracted_stain r) (mamba_gap_budget_for_req ops r) 0 0
             in Inr ((if truncated then Some r1 else None), a2)))"

section \<open>Requests that ignore the end of sequence\<close>

definition req_state_of :: "'c prefill_adder \<Rightarrow> sched_req \<Rightarrow> (rat \<times> int) option" where
  "req_state_of a r =
     (let ratio = (if ignore_eos r then 1 else ad_new_token_ratio a);
          tokens_left = of_int (max_new_tokens r) * ratio - of_int (int (length (output_ids r)));
          tokens_occupied = int (length (origin_input_ids r)) + int (length (output_ids r))
      in if tokens_left \<le> 0 then None else Some (tokens_left, tokens_occupied))"

text \<open>The index at which the insertion loop stops: the last one when no entry is large enough.\<close>

fun insert_sort_index :: "rat \<Rightarrow> (rat \<times> int) list \<Rightarrow> nat" where
  "insert_sort_index t [] = 0"
| "insert_sort_index t [x] = 0"
| "insert_sort_index t (x # y # xs) = (if t \<le> fst x then 0 else Suc (insert_sort_index t (y # xs)))"

definition insert_req_state :: "(rat \<times> int) list \<Rightarrow> rat \<times> int \<Rightarrow> (rat \<times> int) list" where
  "insert_req_state states e =
     (let i = insert_sort_index (fst e) states in take i states @ e # drop i states)"

definition next_req_states :: "'c prefill_adder \<Rightarrow> sched_req \<Rightarrow> (rat \<times> int) list" where
  "next_req_states a r =
     (case req_states a of
        None \<Rightarrow>
          sort_key fst (List.map_filter (req_state_of a)
            (r # (case ad_running a of Some rs \<Rightarrow> rs | None \<Rightarrow> []) @ can_run_list a))
      | Some states \<Rightarrow>
          (case req_state_of a r of None \<Rightarrow> states | Some e \<Rightarrow> insert_req_state states e))"

text \<open>Enough tokens at every point where a request of the list finishes; one token per request is kept.\<close>

fun eos_tokens_suffice :: "rat \<Rightarrow> int \<Rightarrow> (rat \<times> int) list \<Rightarrow> bool" where
  "eos_tokens_suffice cur_rem tokens_freed [] = True"
| "eos_tokens_suffice cur_rem tokens_freed ((tokens_left, tokens_occupied) # states) =
     (let bs = of_int (int (Suc (length states)));
          min_free_tokens = cur_rem + of_int tokens_freed - tokens_left * bs
      in if min_free_tokens \<le> bs then False
         else eos_tokens_suffice cur_rem (tokens_freed + tokens_occupied) states)"

definition add_one_req_ignore_eos ::
  "sched_env \<Rightarrow> pass_env \<Rightarrow> ('c, 'l) cache_ops \<Rightarrow> 'c prefill_adder \<Rightarrow> sched_req
    \<Rightarrow> (add_req_result \<times> sched_req \<times> 'c prefill_adder) result"
where
  "add_one_req_ignore_eos X W ops a r =
     (let cand = cand_extend_input_len r;
          paged_input = ceil_paged_tokens a cand + mamba_gap_budget_for_req ops r
      in if of_int paged_input > min (of_int (cur_rem_tokens ops a)) (rem_total_tokens ops a) then Inr (NO_TOKEN, r, a)
         else if op_is_hybrid_swa ops \<and> swa_budget_for_req ops a cand (remaining_new_tokens X r) 0 > rem_swa_tokens ops a
         then Inr (NO_TOKEN, r, a)
         else
           let states = next_req_states a r;
               a1 = a\<lparr>req_states := Some states\<rparr>
           in if \<not> op_is_hybrid_swa ops \<and>
                 \<not> eos_tokens_suffice (of_int (cur_rem_tokens ops a1 - ceil_paged_tokens a1 cand)) 0 states
              then Inr (NO_TOKEN, r, a1)
              else
                rbind (negotiate W a1) (\<lambda>(allowed, a2).
                  if \<not> allowed then Inr (OTHER, r, a2)
                  else
                    (case dllm_block_size a2 of
                       Some blk \<Rightarrow>
                         if rem_dllm_tokens a2 \<le> 0 then Inr (OTHER, r, a2)
                         else rbind (check_prefill_tile_budget X a2 cand) (\<lambda>tile_stop.
                           (case tile_stop of
                              Some stop \<Rightarrow> Inr (stop, r, a2)
                            | None \<Rightarrow>
                                let (r1, a3) = add_dllm_req ops a2 blk r 0
                                in Inr (budget_state ops a3, r1, a3)))
                     | None \<Rightarrow>
                         if (case rem_chunk_tokens a2 of None \<Rightarrow> True | Some c \<Rightarrow> cand \<le> c)
                         then rbind (check_prefill_tile_budget X a2 cand) (\<lambda>tile_stop.
                           (case tile_stop of
                              Some stop \<Rightarrow> Inr (stop, r, a2)
                            | None \<Rightarrow>
                                let r1 = set_extend_range r (prefix_length r) (int (length (full_untruncated_fill_ids r)));
                                    a3 = update_prefill_budget ops (admit a2 r1) 0 (extend_len r1)
                                           (min (max_new_tokens r) (clip_max_new_tokens X)) (retracted_stain r)
                                           (mamba_gap_budget_for_req ops r) 0 0
                                in Inr (budget_state ops a3, r1, a3)))
                         else
                           (case rem_chunk_tokens a2 of
                              None \<Rightarrow> Inl TypeError
                            | Some chunk \<Rightarrow>
                                if chunk \<le> 0 then Inr (OTHER, r, a2)
                                else rbind (check_prefill_tile_budget X a2 chunk) (\<lambda>tile_stop.
                                  (case tile_stop of
                                     Some stop \<Rightarrow> Inr (stop, r, a2)
                                   | None \<Rightarrow>
                                       rbind (assert_that (prefix_indices r = [])) (\<lambda>_.
                                       let r1 = set_extend_range r (prefix_length r) (prefix_length r + chunk);
                                           a3 = update_prefill_budget ops ((admit a2 r1)\<lparr>new_chunked_req := Some r1\<rparr>) 0 chunk 0
                                                  (retracted_stain r) (mamba_gap_budget_for_req ops r) 0 0
                                       in Inr (budget_state ops a3, r1, a3))))))))"

section \<open>Admission of one request\<close>

text \<open>The sliding-window gate: \<open>None\<close> is \<open>NO_TOKEN\<close>, otherwise the limit of this chunk.\<close>

definition swa_gate ::
  "sched_env \<Rightarrow> ('c, 'l) cache_ops \<Rightarrow> 'c prefill_adder \<Rightarrow> sched_req \<Rightarrow> int \<Rightarrow> int option \<Rightarrow> int option option" where
  "swa_gate X ops a r real_input_tokens limit0 =
     (if \<not> op_is_hybrid_swa ops then Some limit0
      else
        let new_tokens = remaining_new_tokens X r
        in if swa_budget_for_req ops a real_input_tokens new_tokens (swa_host_hit_length r) < rem_swa_tokens ops a
           then Some limit0
           else if \<not> swa_req_never_fits ops a real_input_tokens new_tokens (swa_host_hit_length r) then None
           else
             let swa_cap = swa_chunk_cap ops a new_tokens (swa_host_hit_length r)
             in (case rem_chunk_tokens a of
                   None \<Rightarrow> None
                 | Some chunk \<Rightarrow> if swa_cap \<le> 0 then None else Some (Some (min chunk swa_cap))))"

definition load_back ::
  "('c, 'l) cache_ops \<Rightarrow> 'c prefill_adder \<Rightarrow> sched_req \<Rightarrow> (sched_req \<times> 'c prefill_adder) result" where
  "load_back ops a r =
     (if needs_host_load_back r
      then rbind (op_init_load_back ops (ad_cache a) r) (\<lambda>(new_indices, node, s1).
             let idx = prefix_indices r @ new_indices
             in Inr (r\<lparr>prefix_indices := idx, last_node := node, cache_protected_len := length idx\<rparr>, a\<lparr>ad_cache := s1\<rparr>))
      else Inr (r, a))"

text \<open>The length of a truncated chunk; \<open>None\<close> when not even one page fits.\<close>

definition chunk_length :: "'c prefill_adder \<Rightarrow> int \<Rightarrow> int option \<Rightarrow> int \<Rightarrow> int option result" where
  "chunk_length a limit0 truncation_align_size plen =
     (let trunc_len = limit0 div ad_page_size a * ad_page_size a
      in if trunc_len \<le> 0 then Inr None
         else
           rbind
             (case truncation_align_size of
                None \<Rightarrow> Inr (Some trunc_len)
              | Some align \<Rightarrow>
                  if trunc_len < align then Inr None
                  else rbind (floor_div trunc_len align) (\<lambda>q. Inr (Some (align * q))))
           (\<lambda>aligned. case aligned of
              None \<Rightarrow> Inr None
            | Some t \<Rightarrow>
                let now_input_len = (t + plen) div ad_page_size a * ad_page_size a;
                    t1 = now_input_len - plen
                in Inr (if t1 \<le> 0 then None else Some t1)))"

text \<open>
  The three ways to admit a request inside the \<open>with\<close> block: \<open>Some res\<close> for a \<open>return res\<close>, \<open>None\<close> when
  the block runs to its end.
\<close>

type_synonym 'c admission = "(add_req_result option \<times> sched_req \<times> 'c prefill_adder) result"

definition admit_dllm :: "sched_env \<Rightarrow> ('c, 'l) cache_ops \<Rightarrow> 'c prefill_adder \<Rightarrow> sched_req \<Rightarrow> int \<Rightarrow> int \<Rightarrow> int option \<Rightarrow> 'c admission" where
  "admit_dllm X ops a r blk input_tokens truncation_align_size =
     (if rem_dllm_tokens a \<le> 0 then Inr (Some OTHER, r, a)
      else
        rbind (assert_that (truncation_align_size = None)) (\<lambda>_.
        rbind (check_prefill_tile_budget X a input_tokens) (\<lambda>tile_stop.
          (case tile_stop of
             Some stop \<Rightarrow> Inr (Some stop, r, a)
           | None \<Rightarrow>
               let (r1, a1) = add_dllm_req ops a blk r (prefix_length r)
               in rbind (req_inc_lock_ref ops a1 r1) (\<lambda>(r2, a2).
                    Inr (None, r2, a2\<lparr>can_run_list := butlast (can_run_list a2) @ [r2]\<rparr>))))))"

definition admit_whole :: "sched_env \<Rightarrow> ('c, 'l) cache_ops \<Rightarrow> 'c prefill_adder \<Rightarrow> sched_req \<Rightarrow> int \<Rightarrow> 'c admission" where
  "admit_whole X ops a r input_tokens =
     rbind (check_prefill_tile_budget X a input_tokens) (\<lambda>tile_stop.
       (case tile_stop of
          Some stop \<Rightarrow> Inr (Some stop, r, a)
        | None \<Rightarrow>
            let r1 = set_extend_range r (prefix_length r) (int (length (full_untruncated_fill_ids r)))
            in rbind (req_inc_lock_ref ops a r1) (\<lambda>(r2, a1).
                 Inr (None, r2,
                   update_prefill_budget ops (admit a1 r2) (prefix_length r) input_tokens
                     (min (max_new_tokens r2) (clip_max_new_tokens X)) (retracted_stain r2)
                     (mamba_gap_budget_for_req ops r2) (host_hit_length r2) (storage_hit_length r2)))))"

definition admit_chunk :: "sched_env \<Rightarrow> ('c, 'l) cache_ops \<Rightarrow> 'c prefill_adder \<Rightarrow> sched_req \<Rightarrow> int \<Rightarrow> int option \<Rightarrow> 'c admission" where
  "admit_chunk X ops a r limit0 truncation_align_size =
     rbind (chunk_length a limit0 truncation_align_size (prefix_length r)) (\<lambda>len.
       (case len of
          None \<Rightarrow> Inr (Some OTHER, r, a)
        | Some trunc_len \<Rightarrow>
            rbind (check_prefill_tile_budget X a trunc_len) (\<lambda>tile_stop.
              (case tile_stop of
                 Some stop \<Rightarrow> Inr (Some stop, r, a)
               | None \<Rightarrow>
                   let r1 = set_extend_range r (prefix_length r) (prefix_length r + trunc_len)
                   in rbind (req_inc_lock_ref ops a r1) (\<lambda>(r2, a1).
                        Inr (None, r2,
                          update_prefill_budget ops ((admit a1 r2)\<lparr>new_chunked_req := Some r2\<rparr>) (prefix_length r)
                            trunc_len 0 (retracted_stain r2) (mamba_gap_budget_for_req ops r2)
                            (host_hit_length r2) (storage_hit_length r2)))))))"

definition add_one_req_locked ::
  "sched_env \<Rightarrow> pass_env \<Rightarrow> ('c, 'l) cache_ops \<Rightarrow> 'c prefill_adder \<Rightarrow> sched_req \<Rightarrow> int \<Rightarrow> int \<Rightarrow> int option \<Rightarrow> int option \<Rightarrow> 'c admission"
where
  "add_one_req_locked X W ops a r total_tokens real_input_tokens limit0 truncation_align_size =
     (if of_int total_tokens \<ge> rem_total_tokens ops a then Inr (Some NO_TOKEN, r, a)
      else
        case swa_gate X ops a r real_input_tokens limit0 of
          None \<Rightarrow> Inr (Some NO_TOKEN, r, a)
        | Some chunk_tokens_limit \<Rightarrow>
            rbind (negotiate W a) (\<lambda>(allowed, a1).
              if \<not> allowed then Inr (Some OTHER, r, a1)
              else
                rbind (load_back ops a1 r) (\<lambda>(r1, a2).
                  let input_tokens = ceil_paged_tokens a2 (cand_extend_input_len r1)
                  in if rem_chunk_tokens a2 = None \<and> can_run_list a2 \<noteq> [] \<and> input_tokens \<ge> rem_input_tokens a2
                     then Inr (Some OTHER, r1, a2)
                     else
                       (case dllm_block_size a2 of
                          Some blk \<Rightarrow> admit_dllm X ops a2 r1 blk input_tokens truncation_align_size
                        | None \<Rightarrow>
                            (case chunk_tokens_limit of
                               None \<Rightarrow> admit_whole X ops a2 r1 input_tokens
                             | Some c \<Rightarrow>
                                 if input_tokens \<le> c then admit_whole X ops a2 r1 input_tokens
                                 else admit_chunk X ops a2 r1 c truncation_align_size)))))"

definition add_one_req ::
  "sched_env \<Rightarrow> pass_env \<Rightarrow> ('c, 'l) cache_ops \<Rightarrow> 'c prefill_adder \<Rightarrow> sched_req \<Rightarrow> int option
    \<Rightarrow> (add_req_result \<times> sched_req \<times> 'c prefill_adder) result"
where
  "add_one_req X W ops a r truncation_align_size =
     (if dsa_prefill_cp_in_seq_split a \<and> can_run_list a \<noteq> [] then Inr (OTHER, r, a)
      else if (case ad_prefill_max_requests a of Some x \<Rightarrow> int (length (can_run_list a)) \<ge> x | None \<Rightarrow> False)
      then Inr (OTHER, r, a)
      else if ignore_eos r \<and> op_disable ops (ad_cache a) then add_one_req_ignore_eos X W ops a r
      else
        let cand = cand_extend_input_len r;
            total_tokens = cand + remaining_new_tokens X r + ad_page_size a + mamba_gap_budget_for_req ops r;
            real_input_tokens = ceil_paged_tokens a (cand - host_hit_length r)
        in if of_int total_tokens \<ge> rem_total_tokens ops a then Inr (NO_TOKEN, r, a)
           else
             case swa_gate X ops a r real_input_tokens (rem_chunk_tokens a) of
               None \<Rightarrow> Inr (NO_TOKEN, r, a)
             | Some limit0 \<Rightarrow>
                 if rem_chunk_tokens a = None \<and> can_run_list a \<noteq> [] \<and> real_input_tokens \<ge> rem_input_tokens a
                 then Inr (OTHER, r, a)
                 else
                   rbind (op_inc_lock ops (ad_cache a) (last_node r)) (\<lambda>(l, s1).
                   rbind (add_one_req_locked X W ops (a\<lparr>ad_cache := s1\<rparr>) r total_tokens real_input_tokens limit0 truncation_align_size)
                     (\<lambda>(returned, r1, a1).
                   rbind (op_dec_lock ops (ad_cache a1) (last_node r) (if op_is_chunk_cache ops then None else Some l)) (\<lambda>s2.
                     let a2 = a1\<lparr>ad_cache := s2\<rparr>
                     in Inr ((case returned of Some res \<Rightarrow> res | None \<Rightarrow> budget_state ops a2), r1, a2)))))"

section \<open>Preemption\<close>

text \<open>
  The preempted requests are collected in a set before they are appended to \<open>preempt_list\<close>, in an
  order Python does not specify; here they keep the order in which they were chosen.
\<close>

fun pick_preemptible ::
  "sched_env \<Rightarrow> rat \<Rightarrow> int \<Rightarrow> int \<Rightarrow> int \<Rightarrow> rat \<Rightarrow> sched_req list \<Rightarrow> (sched_req list \<times> rat) result"
where
  "pick_preemptible X ratio sign threshold prio min_tokens [] = Inr ([], min_tokens)"
| "pick_preemptible X ratio sign threshold prio min_tokens (r # rs) =
     rbind (of_option TypeError (req_priority r)) (\<lambda>p.
       if (prio - p) * (- sign) > threshold
       then
         let m = min_tokens - running_token_offset X ratio r
         in if m \<le> 0 then Inr ([r], m)
            else rbind (pick_preemptible X ratio sign threshold prio m rs) (\<lambda>(picked, m1). Inr (r # picked, m1))
       else Inr ([], min_tokens))"

fun release_preempted ::
  "sched_env \<Rightarrow> ('c, 'l) cache_ops \<Rightarrow> string list \<Rightarrow> int \<Rightarrow> int \<Rightarrow> 'c prefill_adder \<Rightarrow> sched_req list
    \<Rightarrow> (sched_req list \<times> 'c prefill_adder) result"
where
  "release_preempted X ops rids total_reqs released a [] = Inr ([], a)"
| "release_preempted X ops rids total_reqs released a (r # rs) =
     (if rid r \<in> set rids
      then
        rbind (op_release_req ops (ad_cache a) r (total_reqs - (released + 1))) (\<lambda>s1.
          release_preempted X ops rids total_reqs (released + 1)
            (a\<lparr>ad_cache := s1,
               rem_total_token_offset := rem_total_token_offset a - running_token_offset X (ad_new_token_ratio a) r\<rparr>) rs)
      else
        rbind (release_preempted X ops rids total_reqs released a rs) (\<lambda>(keep, a1). Inr (r # keep, a1)))"

definition preempt_to_schedule ::
  "sched_env \<Rightarrow> ('c, 'l) cache_ops \<Rightarrow> 'c prefill_adder \<Rightarrow> sched_req \<Rightarrow> (bool \<times> 'c prefill_adder) result" where
  "preempt_to_schedule X ops a r =
     rbind (of_option AttributeError (ad_running a)) (\<lambda>running.
       let sign = (if low_priority_values_first X then 1 else - 1);
           valid = filter (\<lambda>x. rid x \<notin> set (map rid (preempt_list a)) \<and> \<not> req_finished x) running
       in rbind (sort_by (\<lambda>x. rbind (signed_priority (- sign) x) (\<lambda>p. Inr (p, - wait_queue_entry_time x))) valid) (\<lambda>sorted_reqs.
          let min_tokens = of_int (cand_extend_input_len r + min (max_new_tokens r) (clip_max_new_tokens X)) - rem_total_tokens ops a
          in rbind (if sorted_reqs = [] then Inr ([], min_tokens)
                    else rbind (of_option TypeError (req_priority r)) (\<lambda>prio.
                      pick_preemptible X (ad_new_token_ratio a) sign (preemption_threshold a) prio min_tokens sorted_reqs))
             (\<lambda>(picked, rest_tokens).
               if picked = [] \<or> rest_tokens > 0 then Inr (False, a)
               else
                 rbind (release_preempted X ops (map rid picked) (int (length running)) 0 a running) (\<lambda>(keep, a1).
                   Inr (True, a1\<lparr>ad_running := Some keep, preempt_list := preempt_list a1 @ picked\<rparr>)))))"

end
