(* ===== verification/RoundInput.thy ===== *)
theory RoundInput
  imports SchedTypes
begin

text \<open>
  What a request prepares before it is considered for prefill: \<open>init_next_round_input\<close> of
  \<open>managers/schedule_batch.py\<close> with the helpers of the request class, and the diffusion-LLM part of a
  request (\<open>dllm/mixin/req.py\<close>). The positions of multimodal inputs, which the method also
  updates for retracted requests, are tensors of the model runner and not part of the request here.
\<close>

section \<open>The token ids to fill\<close>

definition refresh_fill_ids :: "sched_req \<Rightarrow> sched_req" where
  "refresh_fill_ids r =
     (let n_have_output = int (length (full_untruncated_fill_ids r)) - int (length (origin_input_ids r))
      in if \<not> fill_ids_alias_origin r \<and> 0 \<le> n_have_output \<and> n_have_output \<le> int (length (output_ids r))
         then r\<lparr>full_untruncated_fill_ids := full_untruncated_fill_ids r @ drop (nat n_have_output) (output_ids r)\<rparr>
         else r\<lparr>full_untruncated_fill_ids := origin_input_ids r @ output_ids r, fill_ids_alias_origin := False\<rparr>)"

section \<open>Diffusion LLM requests\<close>

definition init_diffusion_llm :: "(nat \<times> int) option \<Rightarrow> sched_req \<Rightarrow> sched_req" where
  "init_diffusion_llm config r =
     r\<lparr>req_dllm_config := config, dllm_incomplete_ids := [], dllm_block_offset := 0,
       req_dllm_phase :=
         (case config of
            None \<Rightarrow> None
          | Some (blk, mask_id) \<Rightarrow> Some (if length (origin_input_ids r) < blk then INCOMING_DECODE else INCOMING_PREFILL))\<rparr>"

definition is_dllm_prefill :: "sched_req \<Rightarrow> bool" where
  "is_dllm_prefill r \<longleftrightarrow> req_dllm_phase r = Some STAGING_PREFILL \<or> req_dllm_phase r = Some INCOMING_PREFILL"

definition init_fill_ids_for_dllm :: "nat \<times> int \<Rightarrow> sched_req \<Rightarrow> sched_req result" where
  "init_fill_ids_for_dllm config r =
     (case config of (blk, mask_id) \<Rightarrow>
        if dllm_incomplete_ids r \<noteq> []
        then rbind (assert_that (length (dllm_incomplete_ids r) = blk)) (\<lambda>_.
               Inr (r\<lparr>full_untruncated_fill_ids :=
                        take (length (prefix_indices r)) (full_untruncated_fill_ids r) @ dllm_incomplete_ids r,
                      fill_ids_alias_origin := False\<rparr>))
        else
          Inr (r\<lparr>dllm_block_offset := (if \<not> dllm_initialized r then 0 else dllm_block_offset r + blk),
                 full_untruncated_fill_ids := origin_input_ids r @ output_ids r @ replicate blk mask_id,
                 fill_ids_alias_origin := False, dllm_initialized := True\<rparr>))"

definition determine_dllm_phase :: "nat \<times> int \<Rightarrow> sched_req \<Rightarrow> sched_req" where
  "determine_dllm_phase config r =
     (case config of (blk, mask_id) \<Rightarrow>
        if dllm_incomplete_ids r \<noteq> [] then r\<lparr>req_dllm_phase := Some STAGING_DECODE\<rparr>
        else
          let plen = length (prefix_indices r);
              min_required_length = plen + blk
          in if length (full_untruncated_fill_ids r) < min_required_length then r
             else
               let input_block = py_slice (full_untruncated_fill_ids r) plen min_required_length
               in r\<lparr>req_dllm_phase :=
                      Some (if mask_id \<notin> set input_block then STAGING_PREFILL else STAGING_DECODE)\<rparr>)"

definition update_block_offset_for_dllm :: "nat \<times> int \<Rightarrow> sched_req \<Rightarrow> sched_req result" where
  "update_block_offset_for_dllm config r =
     (case config of (blk, mask_id) \<Rightarrow>
        let plen = length (prefix_indices r)
        in if blk = 0 then Inl ZeroDivisionError
           else rbind (assert_that (plen mod blk = 0)) (\<lambda>_.
             Inr (if plen > dllm_block_offset r then r\<lparr>dllm_block_offset := plen\<rparr> else r)))"

section \<open>The next round\<close>

definition next_round_ids :: "sched_req \<Rightarrow> sched_req result" where
  "next_round_ids r =
     rbind
       (case req_dllm_config r of
          Some config \<Rightarrow> rbind (init_fill_ids_for_dllm config r) (\<lambda>r1. Inr (determine_dllm_phase config r1))
        | None \<Rightarrow> Inr (refresh_fill_ids r))
     (\<lambda>r1. Inr (if has_session r1 \<and> session_streaming r1 \<and> return_logprob r1 \<and> logprob_start_len r1 \<ge> 0
                then r1\<lparr>logprob_start_len := - 1\<rparr> else r1))"

text \<open>The key of the lookup: the ids and how many of them may match.\<close>

definition next_round_key :: "('c, 'l) cache_ops \<Rightarrow> sched_req \<Rightarrow> radix_key" where
  "next_round_key ops r =
     (let input_len = length (full_untruncated_fill_ids r);
          max_len = nat (compute_max_prefix_len r (int input_len));
          tail = op_swa_reprefill_tail ops;
          capped = (if tail \<noteq> 0 then min max_len (input_len - tail) else max_len);
          (ids, lim) = (if has_embed_overrides r then ([], None) else (full_untruncated_fill_ids r, Some capped));
          lim1 = (if tail \<noteq> 0 then Some (case lim of None \<Rightarrow> input_len - tail | Some l \<Rightarrow> min l (input_len - tail)) else lim)
      in req_key r ids lim1)"

definition take_match :: "full_match \<Rightarrow> sched_req \<Rightarrow> sched_req" where
  "take_match m r =
     r\<lparr>prefix_indices := fm_device_indices m, last_node := fm_last_device_node m,
       last_host_node := fm_last_host_node m, best_match_node := fm_best_match_node m,
       host_hit_length := fm_host_hit_length m, swa_host_hit_length := fm_swa_host_hit_length m,
       mamba_host_hit_length := fm_mamba_host_hit_length m, mamba_branching_seqlen := fm_mamba_branching_seqlen m,
       cache_protected_len :=
         (case fm_cache_protected_len m of Some n \<Rightarrow> n | None \<Rightarrow> length (fm_device_indices m))\<rparr>"

definition init_next_round_input ::
  "sched_env \<Rightarrow> ('c, 'l) cache_ops \<Rightarrow> 'c \<Rightarrow> sched_req \<Rightarrow> (sched_req \<times> 'c) result" where
  "init_next_round_input X ops s r =
     rbind (next_round_ids r) (\<lambda>r1.
     rbind (op_match_prefix ops s (next_round_key ops r1)) (\<lambda>(m0, s1).
       let m = (if radix_force_miss X then zero_match_result ops s1 m0 else m0);
           r2 = take_match m r1
       in rbind (case req_dllm_config r2 of
                   Some config \<Rightarrow> update_block_offset_for_dllm config r2
                 | None \<Rightarrow> Inr r2) (\<lambda>r3. Inr (r3, s1))))"

end
