(* ===== verification/PrefillPass.thy ===== *)
theory PrefillPass
  imports PrefillAdder RoundInput
begin

text \<open>
  One scheduling pass: \<open>_get_new_batch_prefill_raw\<close> of \<open>managers/scheduler.py\<close> up to the point where
  the admitted requests become a batch of tensors. The pass orders the waiting queue, continues the
  chunked request, admits requests until a budget is exhausted, and takes the admitted ones out of
  the queue. Services the pass asks (the LoRA loader, the storage prefetch of the hierarchical
  cache, the beam coordinator, the pool of request rows) are fields of its configuration. Requests
  are compared by identity in the code and by their id here. Three things around the pass are left
  out: requests whose grammar became ready enter the queue before it, the events of the hierarchical
  cache are processed before it, and the groups of the mamba allocator enclose the loop. The counter
  \<open>inflight_middle_chunks\<close> is advanced on the chunked request the pass leaves, not on its copy in the batch.
\<close>

section \<open>Waiting for free slots\<close>

definition resolve_min_free_slots :: "int option \<Rightarrow> int \<Rightarrow> bool \<Rightarrow> int option" where
  "resolve_min_free_slots user_value max_running_requests0 is_dflash_family =
     (let max_running_requests = max 0 max_running_requests0
      in case user_value of
           Some v \<Rightarrow> let threshold = min v max_running_requests in if threshold > 1 then Some threshold else None
         | None \<Rightarrow>
             if is_dflash_family \<and> max_running_requests \<ge> 8
             then Some (min 4 (max 2 ((max_running_requests + 5) div 6)))
             else None)"

definition should_delay :: "int \<Rightarrow> int \<Rightarrow> int \<Rightarrow> bool" where
  "should_delay min_free_slots running_bs num_allocatable_reqs \<longleftrightarrow>
     running_bs > 0 \<and> num_allocatable_reqs < min_free_slots"

section \<open>Configuration and state\<close>

record 'c pass_cfg =
  cfg_enable_lora :: bool
  cfg_lora_drainer :: "(sched_req \<Rightarrow> bool) option"
  cfg_lora_overlap_loading :: bool
  cfg_try_overlap_load_lora :: "string option \<Rightarrow> string option set \<Rightarrow> bool"
  cfg_validate_lora_batch :: "string option set \<Rightarrow> bool"
  cfg_pp_max_micro_batch_size :: int
  cfg_rows_available :: "'c \<Rightarrow> int"
  cfg_pending_member_rows :: "sched_req list \<Rightarrow> int"
  cfg_disagg_prefill :: bool
  cfg_priority_preemption :: bool
  cfg_hicache_storage :: bool
  cfg_buffer_only :: bool
  cfg_check_prefetch_progress :: "'c \<Rightarrow> string \<Rightarrow> bool \<times> 'c"
  cfg_pop_prefetch_loaded_tokens :: "'c \<Rightarrow> string \<Rightarrow> int \<times> 'c"
  cfg_plan_staged_splice :: "'c \<Rightarrow> string \<Rightarrow> int \<Rightarrow> (int \<times> int) \<times> 'c"
  cfg_hierarchical_cache :: bool
  cfg_truncation_align_size :: "int option"
  cfg_free_mamba :: "'c \<Rightarrow> sched_req \<Rightarrow> 'c"
  cfg_is_hybrid_swa :: bool
  cfg_min_free_slots :: "int option"
  cfg_test_retract_no_prefill_bs :: "int option" \<comment> \<open>set when retraction is under test\<close>
  cfg_chunked_prefill_size :: "int option"
  cfg_predict_next_chunk_size :: "(int \<Rightarrow> int option) option" \<comment> \<open>set when chunks are sized dynamically\<close>
  cfg_page_size :: int
  cfg_new_token_ratio :: rat
  cfg_is_mixed_chunk :: bool
  cfg_add_request_to_queue :: "sched_req list \<Rightarrow> sched_req \<Rightarrow> sched_req list"

record 'c pass_state =
  ps_waiting :: "sched_req list"
  ps_chunked_req :: "sched_req option"
  ps_running :: "sched_req list"
  ps_batch_is_full :: bool
  ps_cache :: 'c
  ps_policy :: schedule_policy

definition running_reqs :: "'c prefill_adder \<Rightarrow> sched_req list" where
  "running_reqs a = (case ad_running a of Some rs \<Rightarrow> rs | None \<Rightarrow> [])"

definition get_num_allocatable_reqs ::
  "'c pass_cfg \<Rightarrow> 'c \<Rightarrow> sched_req list \<Rightarrow> int \<Rightarrow> int option \<Rightarrow> int result" where
  "get_num_allocatable_reqs F s running running_bs beam_width =
     (let pp_budget = cfg_pp_max_micro_batch_size F - running_bs;
          available = max (cfg_rows_available F s - cfg_pending_member_rows F running) 0;
          res = min pp_budget available
      in case beam_width of
           None \<Rightarrow> Inr res
         | Some w \<Rightarrow> rbind (floor_div available w) (\<lambda>q. Inr (min res q)))"

definition can_schedule_lora_req :: "'c pass_cfg \<Rightarrow> sched_req \<Rightarrow> string option set \<Rightarrow> bool" where
  "can_schedule_lora_req F r running_loras =
     (if (case cfg_lora_drainer F of Some allows \<Rightarrow> \<not> allows r | None \<Rightarrow> False) then False
      else if lora_id r \<in> running_loras then True
      else if cfg_lora_overlap_loading F then cfg_try_overlap_load_lora F (lora_id r) running_loras
      else cfg_validate_lora_batch F (insert (lora_id r) running_loras))"

section \<open>The admission loop\<close>

text \<open>
  The checks in front of a request: is the batch full, and can room be made? The result is whether
  the loop goes on, with the adder and the flag.
\<close>

definition make_room ::
  "sched_env \<Rightarrow> ('c, 'l) cache_ops \<Rightarrow> 'c pass_cfg \<Rightarrow> 'c prefill_adder \<Rightarrow> bool \<Rightarrow> sched_req \<Rightarrow> (bool \<times> bool \<times> 'c prefill_adder) result" where
  "make_room X ops F a full r =
     rbind (get_num_allocatable_reqs F (ad_cache a) (running_reqs a) (int (length (running_reqs a))) (req_beam_width r)) (\<lambda>allocatable.
       let admitted = int (length (can_run_list a));
           full1 = (full \<or> admitted \<ge> allocatable);
           full2 = (full1 \<or> (cfg_disagg_prefill F \<and> admitted \<ge> cfg_rows_available F (ad_cache a)))
       in if \<not> full2 then Inr (True, full2, a)
          else if \<not> cfg_priority_preemption F then Inr (False, full2, a)
          else rbind (preempt_to_schedule X ops a r) (\<lambda>(preempted, a1). Inr (preempted, full2, a1)))"

text \<open>The storage prefetch: \<open>None\<close> while it is under way, otherwise the request with its loaded tokens.\<close>

definition prefetched :: "'c pass_cfg \<Rightarrow> 'c prefill_adder \<Rightarrow> sched_req \<Rightarrow> sched_req option \<times> 'c prefill_adder" where
  "prefetched F a r =
     (if \<not> cfg_hicache_storage F then (Some r, a)
      else
        let (prefetch_done, s1) = cfg_check_prefetch_progress F (ad_cache a) (rid r)
        in if \<not> prefetch_done then (None, a\<lparr>ad_cache := s1\<rparr>)
           else
             let (loaded_tokens, s2) = cfg_pop_prefetch_loaded_tokens F s1 (rid r)
             in (Some (if loaded_tokens > 0 then r\<lparr>storage_hit_length := loaded_tokens\<rparr> else r), a\<lparr>ad_cache := s2\<rparr>))"

definition staged_splice :: "'c pass_cfg \<Rightarrow> 'c prefill_adder \<Rightarrow> sched_req \<Rightarrow> sched_req \<times> 'c prefill_adder" where
  "staged_splice F a r =
     (if cfg_hicache_storage F \<and> cfg_buffer_only F
      then
        let ((held_tokens, held_swa_tokens), s1) = cfg_plan_staged_splice F (ad_cache a) (rid r) (prefix_length r)
        in ((if held_tokens > 0 then r\<lparr>host_hit_length := held_tokens, swa_host_hit_length := held_swa_tokens\<rparr> else r),
            a\<lparr>ad_cache := s1\<rparr>)
      else (r, a))"

text \<open>What happens when a request ends the loop: the flag, and the recurrent state it had reserved.\<close>

definition after_stop ::
  "'c pass_cfg \<Rightarrow> add_req_result \<Rightarrow> 'c prefill_adder \<Rightarrow> bool \<Rightarrow> sched_req \<Rightarrow> sched_req \<times> bool \<times> 'c prefill_adder" where
  "after_stop F res a full r =
     (let full1 = (if res = NO_TOKEN
                   then (if cfg_hierarchical_cache F then can_run_list a \<noteq> [] \<or> running_reqs a \<noteq> [] else True)
                   else full);
          added = (can_run_list a \<noteq> [] \<and> rid (last (can_run_list a)) = rid r)
      in if added then (r, full1, a)
         else
           let r1 = r\<lparr>mamba_cow_src_index := None, mamba_needs_clear := False\<rparr>
           in if holds_mamba r \<and> \<not> has_session r
              then (r1\<lparr>holds_mamba := False\<rparr>, full1, a\<lparr>ad_cache := cfg_free_mamba F (ad_cache a) r\<rparr>)
              else (r1, full1, a))"

text \<open>The loop returns the queue with its updated requests, the adder, the flag and the adapters in use.\<close>

fun admission_loop ::
  "sched_env \<Rightarrow> pass_env \<Rightarrow> ('c, 'l) cache_ops \<Rightarrow> 'c pass_cfg \<Rightarrow> sched_req list \<Rightarrow> 'c prefill_adder \<Rightarrow> bool \<Rightarrow> string option set
    \<Rightarrow> (sched_req list \<times> 'c prefill_adder \<times> bool) result"
where
  "admission_loop X W ops F [] a full loras = Inr ([], a, full)"
| "admission_loop X W ops F (r # rs) a full loras =
     (let continue = (\<lambda>r a full loras.
            rbind (admission_loop X W ops F rs a full loras) (\<lambda>(rs1, a1, full1). Inr (r # rs1, a1, full1)))
      in if chunk_budget_exhausted a then Inr (r # rs, a, full)
         else if cfg_enable_lora F \<and> \<not> can_schedule_lora_req F r loras then continue r a full loras
         else
           rbind (make_room X ops F a full r) (\<lambda>(go_on, full1, a1).
             if \<not> go_on then Inr (r # rs, a1, full1)
             else
               (case prefetched F a1 r of
                  (None, a2) \<Rightarrow> continue r a2 full1 loras
                | (Some r1, a2) \<Rightarrow>
                    rbind (init_next_round_input X ops (ad_cache a2) r1) (\<lambda>(r2, s1).
                      let (r3, a3) = staged_splice F (a2\<lparr>ad_cache := s1\<rparr>) r2
                      in rbind (add_one_req X W ops a3 r3 (cfg_truncation_align_size F)) (\<lambda>(res, r4, a4).
                           let loras1 = (if cfg_enable_lora F then insert (lora_id r4) loras else loras)
                           in if res = CONTINUE then continue r4 a4 full1 loras1
                              else let (r5, full2, a5) = after_stop F res a4 full1 r4
                                   in Inr (r5 # rs, a5, full2))))))"

section \<open>The pass\<close>

text \<open>The early exits in front of the ordering of the queue: whether the pass stops, with the flag.\<close>

definition pass_stops_early :: "'c pass_cfg \<Rightarrow> 'c pass_state \<Rightarrow> (bool \<times> bool) result" where
  "pass_stops_early F st =
     (let full0 = (if cfg_priority_preemption F \<or> cfg_is_hybrid_swa F then False else ps_batch_is_full st);
          running_bs = int (length (ps_running st))
      in if (full0 \<or> ps_waiting st = []) \<and> ps_chunked_req st = None then Inr (True, full0)
         else
           rbind (get_num_allocatable_reqs F (ps_cache st) (ps_running st) running_bs None) (\<lambda>allocatable.
             if (case cfg_min_free_slots F of
                   Some m \<Rightarrow> ps_chunked_req st = None \<and> should_delay m running_bs allocatable
                 | None \<Rightarrow> False) then Inr (True, full0)
             else if allocatable \<le> 0 \<and> ps_chunked_req st = None \<and> \<not> cfg_priority_preemption F then Inr (True, True)
             else Inr (False, full0)))"

definition pass_chunk_size :: "'c pass_cfg \<Rightarrow> sched_req option \<Rightarrow> int option" where
  "pass_chunk_size F chunked =
     (case (chunked, cfg_predict_next_chunk_size F) of
        (Some r, Some predict) \<Rightarrow>
          (case predict (prefix_length r) of Some n \<Rightarrow> Some n | None \<Rightarrow> cfg_chunked_prefill_size F)
      | _ \<Rightarrow> cfg_chunked_prefill_size F)"

definition pass_chunked_req ::
  "sched_env \<Rightarrow> pass_env \<Rightarrow> ('c, 'l) cache_ops \<Rightarrow> 'c prefill_adder \<Rightarrow> sched_req option \<Rightarrow> (sched_req option \<times> 'c prefill_adder) result" where
  "pass_chunked_req X W ops a chunked =
     (case chunked of
        None \<Rightarrow> Inr (None, a)
      | Some r \<Rightarrow> rbind (next_round_ids r) (\<lambda>r1. add_chunked_req X W ops a r1))"

text \<open>What the pass leaves behind the loop: the queue without the admitted requests, the chunked request.\<close>

definition pass_finish ::
  "'c pass_cfg \<Rightarrow> 'c pass_state \<Rightarrow> sched_req list \<Rightarrow> 'c prefill_adder \<Rightarrow> bool \<Rightarrow> sched_req option
    \<Rightarrow> (sched_req list option \<times> 'c pass_state) result" where
  "pass_finish F st queue0 a full chunked =
     (let st1 = st\<lparr>ps_waiting := queue0, ps_chunked_req := chunked, ps_running := running_reqs a, ps_batch_is_full := full,
                   ps_cache := ad_cache a\<rparr>
      in if can_run_list a = [] then Inr (None, st1)
         else
           let waiting = filter (\<lambda>x. rid x \<notin> set (map rid (can_run_list a))) queue0;
               waiting1 = foldl (cfg_add_request_to_queue F) waiting (preempt_list a)
           in rbind (case new_chunked_req a of
                       None \<Rightarrow> Inr chunked
                     | Some c \<Rightarrow> rbind (assert_that (chunked = None)) (\<lambda>_. Inr (Some c))) (\<lambda>chunked1.
                Inr (Some (can_run_list a),
                     st1\<lparr>ps_waiting := waiting1,
                         ps_chunked_req := map_option (\<lambda>c. c\<lparr>inflight_middle_chunks := inflight_middle_chunks c + 1\<rparr>) chunked1\<rparr>)))"

definition get_new_batch_prefill_raw ::
  "cache_env \<Rightarrow> sched_env \<Rightarrow> pass_env \<Rightarrow> (sched_req list \<Rightarrow> sched_req list) \<Rightarrow> ('c, 'l) cache_ops \<Rightarrow> 'c pass_cfg \<Rightarrow> adder_args
    \<Rightarrow> 'c pass_state \<Rightarrow> (sched_req list option \<times> 'c pass_state) result"
where
  "get_new_batch_prefill_raw E X W shuffle ops F g st =
     rbind (pass_stops_early F st) (\<lambda>(stop, full0).
       if stop then Inr (None, st\<lparr>ps_batch_is_full := full0\<rparr>)
       else
         rbind (calc_priority E X shuffle ops (ps_policy st) (ps_cache st) (ps_waiting st) (Some (ps_running st))) (\<lambda>(queue0, s1, policy1).
           let st1 = st\<lparr>ps_waiting := queue0, ps_cache := s1, ps_policy := policy1, ps_batch_is_full := full0\<rparr>;
               running_bs = int (length (ps_running st))
           in if (case cfg_test_retract_no_prefill_bs F of Some b \<Rightarrow> running_bs > b | None \<Rightarrow> False) then Inr (None, st1)
              else
                let a0 = new_prefill_adder X ops (cfg_page_size F) s1 (Some (ps_running st)) (cfg_new_token_ratio F)
                           (g\<lparr>arg_rem_chunk_tokens := pass_chunk_size F (ps_chunked_req st),
                              arg_num_mixed_decode_tokens := (if cfg_is_mixed_chunk F then running_bs else 0),
                              arg_waiting_len := int (length queue0)\<rparr>)
                in rbind (pass_chunked_req X W ops a0 (ps_chunked_req st)) (\<lambda>(chunked, a1).
                     let loras = lora_id ` set (filter (\<lambda>r. \<not> req_finished r) (ps_running st)) \<union> lora_id ` set (can_run_list a1)
                     in rbind (admission_loop X W ops F queue0 a1 full0 loras) (\<lambda>(queue1, a2, full1).
                          pass_finish F st1 queue1 a2 full1 chunked))))"

end
