(* ===== verification/RadixShape.thy ===== *)
theory RadixShape
  imports RadixCache
begin

text \<open>
  What the radix tree means. The shape of the store keeps of every node what the tree structure
  depends on: children, parent, namespace, units, slots and lock count. On shapes this theory
  states when a store is a tree, what it caches (\<open>below\<close>), the paths from the root (\<open>walk\<close>),
  and what splitting a node, adding a leaf and removing a leaf do to all of it.
\<close>

section \<open>Shapes\<close>

record snode =
  s_children :: "(ckey \<times> nat) list"
  s_parent :: "nat option"
  s_ns :: "string option \<times> string option"
  s_units :: "key_unit list"
  s_val :: "int list option"
  s_lock :: int

type_synonym shape = "nat \<rightharpoonup> snode"

definition snode_of :: "tree_node \<Rightarrow> snode" where
  "snode_of nd = \<lparr>s_children = children nd, s_parent = parent nd, s_ns = namespace (key nd),
     s_units = key_iter (key nd), s_val = val nd, s_lock = lock_ref nd\<rparr>"

definition shape_of :: "store \<Rightarrow> shape" where
  "shape_of st n = map_option snode_of (st n)"

definition page_key :: "nat \<Rightarrow> string option \<times> string option \<Rightarrow> key_unit list \<Rightarrow> ckey" where
  "page_key ps ns us = ckey_of ns (take ps us)"

abbreviation snode_ckey :: "nat \<Rightarrow> snode \<Rightarrow> ckey" where
  "snode_ckey ps nd \<equiv> page_key ps (s_ns nd) (s_units nd)"

text \<open>A node other than the root: whole pages of units, one slot per unit.\<close>

definition snode_ok :: "nat \<Rightarrow> snode \<Rightarrow> bool" where
  "snode_ok ps nd \<longleftrightarrow> s_units nd \<noteq> [] \<and> ps dvd length (s_units nd) \<and>
     (\<exists>v. s_val nd = Some v \<and> length v = length (s_units nd))"

definition root_ok :: "snode \<Rightarrow> bool" where
  "root_ok nd \<longleftrightarrow> s_parent nd = None \<and> s_units nd = [] \<and> s_val nd = Some []"

definition tree_shape :: "nat \<Rightarrow> nat \<Rightarrow> shape \<Rightarrow> bool" where
  "tree_shape ps r sh \<longleftrightarrow>
     0 < ps \<and> (\<exists>rd. sh r = Some rd \<and> root_ok rd) \<and>
     (\<forall>n nd. sh n = Some nd \<longrightarrow> distinct (map fst (s_children nd))) \<and>
     (\<forall>n nd. sh n = Some nd \<longrightarrow> n \<noteq> r \<longrightarrow> snode_ok ps nd) \<and>
     (\<forall>n nd k c. sh n = Some nd \<longrightarrow> (k, c) \<in> set (s_children nd) \<longrightarrow>
        c \<noteq> r \<and> (\<exists>cd. sh c = Some cd \<and> s_parent cd = Some n \<and> k = snode_ckey ps cd)) \<and>
     (\<forall>c cd. sh c = Some cd \<longrightarrow> c \<noteq> r \<longrightarrow>
        (\<exists>p pd. s_parent cd = Some p \<and> sh p = Some pd \<and> (snode_ckey ps cd, c) \<in> set (s_children pd) \<and>
           (p \<noteq> r \<longrightarrow> s_ns pd = s_ns cd))) \<and>
     (\<exists>d :: nat \<Rightarrow> nat. \<forall>n nd p. sh n = Some nd \<longrightarrow> s_parent nd = Some p \<longrightarrow> d p < d n)"

text \<open>The content read downwards from a node in a namespace, in whole pages.\<close>

inductive below ::
  "nat \<Rightarrow> string option \<times> string option \<Rightarrow> shape \<Rightarrow> nat \<Rightarrow> key_unit list \<Rightarrow> int list \<Rightarrow> bool"
  for ps ns sh
where
  below_here: "below ps ns sh n [] []"
| below_part: "sh n = Some nd \<Longrightarrow> (k, c) \<in> set (s_children nd) \<Longrightarrow> sh c = Some cd \<Longrightarrow> s_ns cd = ns \<Longrightarrow>
    s_val cd = Some v \<Longrightarrow> m \<le> length (s_units cd) \<Longrightarrow> ps dvd m \<Longrightarrow>
    below ps ns sh n (take m (s_units cd)) (take m v)"
| below_step: "sh n = Some nd \<Longrightarrow> (k, c) \<in> set (s_children nd) \<Longrightarrow> sh c = Some cd \<Longrightarrow> s_ns cd = ns \<Longrightarrow>
    s_val cd = Some v \<Longrightarrow> below ps ns sh c us vs \<Longrightarrow>
    below ps ns sh n (s_units cd @ us) (v @ vs)"

text \<open>A path from one node down to another.\<close>

inductive walk ::
  "string option \<times> string option \<Rightarrow> shape \<Rightarrow> nat \<Rightarrow> nat \<Rightarrow> key_unit list \<Rightarrow> int list \<Rightarrow> bool"
  for ns sh
where
  walk_here: "walk ns sh n n [] []"
| walk_step: "sh n = Some nd \<Longrightarrow> (k, c) \<in> set (s_children nd) \<Longrightarrow> sh c = Some cd \<Longrightarrow> s_ns cd = ns \<Longrightarrow>
    s_val cd = Some v \<Longrightarrow> walk ns sh c m us vs \<Longrightarrow> walk ns sh n m (s_units cd @ us) (v @ vs)"

section \<open>Changes of shape\<close>

text \<open>Splitting \<open>c\<close> after \<open>m\<close> units: \<open>new\<close> takes its place and its first units.\<close>

definition shape_split :: "nat \<Rightarrow> nat \<Rightarrow> nat \<Rightarrow> nat \<Rightarrow> nat \<Rightarrow> shape \<Rightarrow> shape" where
  "shape_split ps new c p m sh =
     (case sh c of None \<Rightarrow> sh | Some cd \<Rightarrow>
       let top = cd\<lparr>s_children := [(page_key ps (s_ns cd) (drop m (s_units cd)), c)], s_parent := Some p,
                    s_units := take m (s_units cd), s_val := map_option (take m) (s_val cd)\<rparr>;
           bot = cd\<lparr>s_parent := Some new, s_units := drop m (s_units cd), s_val := map_option (drop m) (s_val cd)\<rparr>;
           sh1 = sh(new \<mapsto> top, c \<mapsto> bot)
       in sh1(p := map_option (\<lambda>pd. pd\<lparr>s_children := AList.update (snode_ckey ps cd) new (s_children pd)\<rparr>) (sh1 p)))"

definition shape_leaf :: "nat \<Rightarrow> nat \<Rightarrow> nat \<Rightarrow> string option \<times> string option \<Rightarrow> key_unit list \<Rightarrow> int list \<Rightarrow> shape \<Rightarrow> shape" where
  "shape_leaf ps new p ns us v sh =
     (let sh1 = sh(new \<mapsto> \<lparr>s_children = [], s_parent = Some p, s_ns = ns, s_units = us, s_val = Some v, s_lock = 0\<rparr>)
      in sh1(p := map_option (\<lambda>pd. pd\<lparr>s_children := AList.update (page_key ps ns us) new (s_children pd)\<rparr>) (sh1 p)))"

definition shape_delete :: "nat \<Rightarrow> nat \<Rightarrow> nat \<Rightarrow> shape \<Rightarrow> shape" where
  "shape_delete ps x p sh =
     (case sh x of None \<Rightarrow> sh | Some xd \<Rightarrow>
       (sh(p := map_option (\<lambda>pd. pd\<lparr>s_children := AList.delete (snode_ckey ps xd) (s_children pd)\<rparr>) (sh p)))(x := None))"

section \<open>Trees\<close>

named_theorems tree_dest \<open>facts of a tree shape\<close>

lemma tree_shapeD [tree_dest]:
  assumes "tree_shape ps r sh"
  shows "0 < ps" "\<exists>rd. sh r = Some rd \<and> root_ok rd"
    "sh n = Some nd \<Longrightarrow> distinct (map fst (s_children nd))"
    "sh n = Some nd \<Longrightarrow> n \<noteq> r \<Longrightarrow> snode_ok ps nd"
    "sh n = Some nd \<Longrightarrow> (k, c) \<in> set (s_children nd) \<Longrightarrow>
       c \<noteq> r \<and> (\<exists>cd. sh c = Some cd \<and> s_parent cd = Some n \<and> k = snode_ckey ps cd)"
    "sh n = Some nd \<Longrightarrow> n \<noteq> r \<Longrightarrow>
       \<exists>p pd. s_parent nd = Some p \<and> sh p = Some pd \<and> (snode_ckey ps nd, n) \<in> set (s_children pd) \<and>
          (p \<noteq> r \<longrightarrow> s_ns pd = s_ns nd)"
  using assms unfolding tree_shape_def by blast+

lemma tree_shapeI:
  assumes "0 < ps" "\<exists>rd. sh r = Some rd \<and> root_ok rd"
    "\<And>n nd. sh n = Some nd \<Longrightarrow> distinct (map fst (s_children nd))"
    "\<And>n nd. sh n = Some nd \<Longrightarrow> n \<noteq> r \<Longrightarrow> snode_ok ps nd"
    "\<And>n nd k c. sh n = Some nd \<Longrightarrow> (k, c) \<in> set (s_children nd) \<Longrightarrow>
       c \<noteq> r \<and> (\<exists>cd. sh c = Some cd \<and> s_parent cd = Some n \<and> k = snode_ckey ps cd)"
    "\<And>n nd. sh n = Some nd \<Longrightarrow> n \<noteq> r \<Longrightarrow>
       \<exists>p pd. s_parent nd = Some p \<and> sh p = Some pd \<and> (snode_ckey ps nd, n) \<in> set (s_children pd) \<and>
          (p \<noteq> r \<longrightarrow> s_ns pd = s_ns nd)"
    "\<exists>d :: nat \<Rightarrow> nat. \<forall>n nd p. sh n = Some nd \<longrightarrow> s_parent nd = Some p \<longrightarrow> d p < d n"
  shows "tree_shape ps r sh"
  using assms unfolding tree_shape_def by blast

lemma take_page_nonempty: "0 < ps \<Longrightarrow> us \<noteq> [] \<Longrightarrow> ps dvd length us \<Longrightarrow> length (take ps us) = ps"
  by (auto simp: min_def dest: dvd_imp_le)

text \<open>The child with a given page key, and the namespace and page it determines.\<close>

lemma child_unique:
  assumes "tree_shape ps r sh" "sh n = Some nd" "(k, c) \<in> set (s_children nd)" "sh c = Some cd"
  shows "k = snode_ckey ps cd" "map_of (s_children nd) k = Some c" "snode_ok ps cd"
proof -
  from tree_shapeD(5) [OF assms(1-3)] assms(4) show "k = snode_ckey ps cd" by auto
  show "map_of (s_children nd) k = Some c"
    using tree_shapeD(3) [OF assms(1,2)] assms(3) by (simp add: map_of_is_SomeI)
  show "snode_ok ps cd" using tree_shapeD(4,5) [OF assms(1)] assms(2-4) by blast
qed

lemma child_lookup:
  assumes "tree_shape ps r sh" "sh n = Some nd" "map_of (s_children nd) k = Some c"
  obtains cd where "sh c = Some cd" "(k, c) \<in> set (s_children nd)" "k = snode_ckey ps cd" "snode_ok ps cd"
    "s_parent cd = Some n" "c \<noteq> r"
proof -
  have "(k, c) \<in> set (s_children nd)" using assms(3) by (rule map_of_SomeD)
  then show ?thesis using that tree_shapeD(4,5) [OF assms(1)] assms(2) by blast
qed

section \<open>Content\<close>

lemma below_length:
  assumes "tree_shape ps r sh" "below ps ns sh n us vs"
  shows "length vs = length us \<and> ps dvd length us"
  using assms(2)
proof induction
  case (below_part n nd k c cd v m)
  then show ?case using child_unique(3) [OF assms(1) below_part(1,2,3)] by (auto simp: snode_ok_def min_def)
next
  case (below_step n nd k c cd v us vs)
  then show ?case using child_unique(3) [OF assms(1) below_step(1,2,3)] by (auto simp: snode_ok_def)
qed simp

lemma page_key_prefix:
  assumes "0 < ps" "us \<noteq> []" "ps dvd length us" "m = length us" "take m us' = us" "m \<le> length us'"
  shows "page_key ps ns us' = page_key ps ns us"
proof -
  have "ps \<le> m" using assms by (auto dest: dvd_imp_le)
  then have "take ps us' = take ps us" using assms(4,5) by (metis min.absorb1 take_take)
  then show ?thesis by (simp add: page_key_def)
qed

lemma page_key_append:
  assumes "0 < ps" "us \<noteq> []" "ps dvd length us"
  shows "page_key ps ns (us @ us') = page_key ps ns us"
  using dvd_imp_le [OF assms(3)] assms(2) by (simp add: page_key_def)

lemma belowE:
  assumes tree: "tree_shape ps r sh" and b: "below ps ns sh n us vs" and ne: "us \<noteq> []"
  obtains nd c cd v where "sh n = Some nd" "map_of (s_children nd) (page_key ps ns us) = Some c"
    "sh c = Some cd" "s_ns cd = ns" "s_val cd = Some v"
    "(length us \<le> length (s_units cd) \<and> us = take (length us) (s_units cd) \<and> vs = take (length us) v) \<or>
     (\<exists>us' vs'. us = s_units cd @ us' \<and> vs = v @ vs' \<and> below ps ns sh c us' vs')"
  using b ne
proof cases
  case (below_part nd k c cd v m)
  have ok: "snode_ok ps cd" and k: "k = snode_ckey ps cd" "map_of (s_children nd) k = Some c"
    using child_unique [OF tree below_part(3-5)] by auto
  have len: "length us = m" using below_part by simp
  have "page_key ps ns (s_units cd) = page_key ps ns us"
    by (rule page_key_prefix [OF tree_shapeD(1) [OF tree] ne, of m]) (use below_part len in auto)
  then show ?thesis using that [of nd c cd v] below_part k len by auto
next
  case (below_step nd k c cd v us' vs')
  have ok: "snode_ok ps cd" and k: "k = snode_ckey ps cd" "map_of (s_children nd) k = Some c"
    using child_unique [OF tree below_step(3-5)] by auto
  have "page_key ps ns us = page_key ps ns (s_units cd)"
    unfolding below_step(1) by (rule page_key_append) (use ok tree_shapeD(1) [OF tree] in \<open>auto simp: snode_ok_def\<close>)
  then show ?thesis using that [of nd c cd v] below_step k by auto
qed simp

lemma below_unique:
  assumes tree: "tree_shape ps r sh"
  shows "below ps ns sh n us vs \<Longrightarrow> below ps ns sh n us vs' \<Longrightarrow> vs = vs'"
proof (induction "length us" arbitrary: n us vs vs' rule: less_induct)
  case less
  show ?case
  proof (cases "us = []")
    case True
    then show ?thesis using below_length [OF tree less.prems(1)] below_length [OF tree less.prems(2)] by simp
  next
    case False
    obtain nd c cd v where 1: "sh n = Some nd" "map_of (s_children nd) (page_key ps ns us) = Some c"
      "sh c = Some cd" "s_val cd = Some v"
      "(length us \<le> length (s_units cd) \<and> us = take (length us) (s_units cd) \<and> vs = take (length us) v) \<or>
       (\<exists>us' vs'. us = s_units cd @ us' \<and> vs = v @ vs' \<and> below ps ns sh c us' vs')"
      by (rule belowE [OF tree less.prems(1) False]) blast
    obtain nd' c' cd' v' where 2: "sh n = Some nd'" "map_of (s_children nd') (page_key ps ns us) = Some c'"
      "sh c' = Some cd'" "s_val cd' = Some v'"
      "(length us \<le> length (s_units cd') \<and> us = take (length us) (s_units cd') \<and> vs' = take (length us) v') \<or>
       (\<exists>us' ws. us = s_units cd' @ us' \<and> vs' = v' @ ws \<and> below ps ns sh c' us' ws)"
      by (rule belowE [OF tree less.prems(2) False]) blast
    have eq: "c' = c" "cd' = cd" "v' = v" using 1 2 by auto
    have ok: "snode_ok ps cd" by (rule child_lookup [OF tree 1(1,2)]) (use 1(3) in auto)
    then have len: "length v = length (s_units cd)" "s_units cd \<noteq> []" using 1(4) by (auto simp: snode_ok_def)
    consider "length us \<le> length (s_units cd)" | "length (s_units cd) < length us" by linarith
    then show ?thesis
    proof cases
      case short: 1
      have "ws = []" if "us = s_units cd @ us'" "below ps ns sh c us' ws" for us' ws
        using that short below_length [OF tree that(2)] by simp
      then show ?thesis using 1(5) 2(5) short len unfolding eq by auto
    next
      case long: 2
      then obtain us1 ws1 us2 ws2 where "us = s_units cd @ us1" "vs = v @ ws1" "below ps ns sh c us1 ws1"
        "us = s_units cd @ us2" "vs' = v @ ws2" "below ps ns sh c us2 ws2"
        using 1(5) 2(5) unfolding eq by auto
      then show ?thesis using less.hyps [of us1 c ws1 ws2] len by auto
    qed
  qed
qed

lemma below_prefix:
  assumes tree: "tree_shape ps r sh" and b: "below ps ns sh n us vs" and m: "ps dvd m"
  shows "below ps ns sh n (take m us) (take m vs)"
  using b m
proof (induction arbitrary: m)
  case (below_here n)
  then show ?case by (simp add: below.below_here)
next
  case (below_part n nd k c cd v m')
  have "ps dvd min m m'" using below_part by (simp add: min_def)
  then show ?case
    using below.below_part [OF below_part(1-5), of "min m m'" ps] below_part(6) by simp
next
  case (below_step n nd k c cd v us vs)
  have ok: "snode_ok ps cd" "length v = length (s_units cd)"
    using child_unique(3) [OF tree below_step(1-3)] below_step(5) by (auto simp: snode_ok_def)
  show ?case
  proof (cases "m \<le> length (s_units cd)")
    case True
    then show ?thesis
      using below.below_part [OF below_step(1-5), of m ps] below_step.prems ok(2) by simp
  next
    case False
    have "ps dvd length (s_units cd)" using ok by (simp add: snode_ok_def)
    then have "ps dvd m - length (s_units cd)" using below_step.prems by (simp add: dvd_diff_nat)
    then have "below ps ns sh c (take (m - length (s_units cd)) us) (take (m - length (s_units cd)) vs)"
      by (rule below_step.IH)
    then show ?thesis using below.below_step [OF below_step(1-5)] False ok(2) by simp
  qed
qed

lemma walk_below: "walk ns sh n m us vs \<Longrightarrow> below ps ns sh m us' vs' \<Longrightarrow> below ps ns sh n (us @ us') (vs @ vs')"
proof (induction rule: walk.induct)
  case (walk_step n nd k c cd v m us vs)
  then show ?case using below.below_step [OF walk_step(1-5), of ps "us @ us'" "vs @ vs'"] by simp
qed simp

lemma walk_below_self: "walk ns sh n m us vs \<Longrightarrow> below ps ns sh n us vs"
  using walk_below [OF _ below_here] by fastforce

lemma walk_append: "walk ns sh n m us vs \<Longrightarrow> walk ns sh m l us' vs' \<Longrightarrow> walk ns sh n l (us @ us') (vs @ vs')"
proof (induction rule: walk.induct)
  case (walk_step n nd k c cd v m us vs)
  then show ?case using walk.walk_step [OF walk_step(1-5), of l "us @ us'" "vs @ vs'"] by simp
qed simp

section \<open>Association lists as dictionaries\<close>

lemma set_alist_update:
  assumes "distinct (map fst xs)" "(k, c) \<in> set xs"
  shows "set (AList.update k v xs) = insert (k, v) (set xs - {(k, c)})"
  using assms
proof (induction xs)
  case (Cons x xs)
  obtain k' c' where x: "x = (k', c')" by (cases x)
  show ?case
  proof (cases "k' = k")
    case True
    then have "k \<notin> fst ` set xs" using Cons.prems x by simp
    then have "(k, c) \<notin> set xs" "c' = c" using Cons.prems True x by force+
    then show ?thesis using True x by auto
  next
    case False
    then show ?thesis using Cons x by auto
  qed
qed simp

lemma alist_update_new: "k \<notin> fst ` set xs \<Longrightarrow> AList.update k v xs = xs @ [(k, v)]"
  by (induction xs) auto

lemma set_alist_delete: "set (AList.delete k xs) = {(k', v) \<in> set xs. k' \<noteq> k}"
  by (auto simp: AList.delete_eq)

section \<open>Splitting a node\<close>

text \<open>The situation in which the code splits a node.\<close>

definition splittable :: "nat \<Rightarrow> nat \<Rightarrow> nat \<Rightarrow> nat \<Rightarrow> nat \<Rightarrow> nat \<Rightarrow> shape \<Rightarrow> bool" where
  "splittable ps r new c p m sh \<longleftrightarrow>
     tree_shape ps r sh \<and> sh new = None \<and> c \<noteq> r \<and> 0 < m \<and> ps dvd m \<and>
     (\<exists>cd. sh c = Some cd \<and> s_parent cd = Some p \<and> m < length (s_units cd))"

lemma parent_rank:
  assumes "tree_shape ps r sh"
  obtains d :: "nat \<Rightarrow> nat" where "\<And>n nd p. sh n = Some nd \<Longrightarrow> s_parent nd = Some p \<Longrightarrow> d p < d n"
  using assms unfolding tree_shape_def by blast

lemma splitE:
  assumes "splittable ps r new c p m sh"
  obtains cd pd v where "sh c = Some cd" "sh p = Some pd" "s_val cd = Some v" "snode_ok ps cd"
    "s_parent cd = Some p" "(snode_ckey ps cd, c) \<in> set (s_children pd)" "p \<noteq> r \<Longrightarrow> s_ns pd = s_ns cd"
    "new \<noteq> c" "new \<noteq> p" "new \<noteq> r" "p \<noteq> c" "length v = length (s_units cd)"
    "page_key ps (s_ns cd) (take m (s_units cd)) = snode_ckey ps cd"
proof -
  from assms obtain cd where tree: "tree_shape ps r sh" and new: "sh new = None" and c: "c \<noteq> r"
    and cd: "sh c = Some cd" "s_parent cd = Some p" and m: "m < length (s_units cd)" "0 < m" "ps dvd m"
    by (auto simp: splittable_def)
  obtain pd where pd: "sh p = Some pd" "(snode_ckey ps cd, c) \<in> set (s_children pd)" "p \<noteq> r \<Longrightarrow> s_ns pd = s_ns cd"
    using tree_shapeD(6) [OF tree cd(1) c] cd(2) by auto
  have ok: "snode_ok ps cd" by (rule tree_shapeD(4) [OF tree cd(1) c])
  obtain v where v: "s_val cd = Some v" "length v = length (s_units cd)" using ok by (auto simp: snode_ok_def)
  obtain rd where "sh r = Some rd" using tree_shapeD(2) [OF tree] by auto
  moreover obtain d :: "nat \<Rightarrow> nat" where "\<And>n nd p. sh n = Some nd \<Longrightarrow> s_parent nd = Some p \<Longrightarrow> d p < d n"
    by (rule parent_rank [OF tree]) blast
  then have "p \<noteq> c" using cd by force
  moreover have "new \<noteq> c" "new \<noteq> p" using new cd pd by auto
  moreover have "new \<noteq> r" using \<open>sh r = Some rd\<close> new by auto
  moreover have "ps \<le> m" using m by (auto dest: dvd_imp_le)
  ultimately show ?thesis
    using that [OF cd(1) pd(1) v(1) ok cd(2) pd(2)] pd(3) v(2) by (simp add: page_key_def min_def)
qed

lemma shape_split_apply:
  assumes "sh c = Some cd" "sh p = Some pd" "new \<noteq> c" "new \<noteq> p" "p \<noteq> c"
  shows "shape_split ps new c p m sh x =
    (if x = new then Some (cd\<lparr>s_children := [(page_key ps (s_ns cd) (drop m (s_units cd)), c)], s_parent := Some p,
                    s_units := take m (s_units cd), s_val := map_option (take m) (s_val cd)\<rparr>)
     else if x = c then Some (cd\<lparr>s_parent := Some new, s_units := drop m (s_units cd), s_val := map_option (drop m) (s_val cd)\<rparr>)
     else if x = p then Some (pd\<lparr>s_children := AList.update (snode_ckey ps cd) new (s_children pd)\<rparr>)
     else sh x)"
  using assms by (auto simp: shape_split_def Let_def)

lemma split_rank:
  assumes tree: "tree_shape ps r sh" and new: "sh new = None"
    and cd: "sh c = Some cd" "sh p = Some pd" "s_parent cd = Some p" and ne: "new \<noteq> c" "new \<noteq> p" "p \<noteq> c"
  shows "\<exists>d :: nat \<Rightarrow> nat. \<forall>n nd q. shape_split ps new c p m sh n = Some nd \<longrightarrow> s_parent nd = Some q \<longrightarrow> d q < d n"
proof -
  obtain d :: "nat \<Rightarrow> nat" where d: "\<And>n nd p. sh n = Some nd \<Longrightarrow> s_parent nd = Some p \<Longrightarrow> d p < d n"
    by (rule parent_rank [OF tree]) blast
  have parents_old: "q \<noteq> new" if "sh n = Some nd" "s_parent nd = Some q" for n nd q
  proof (cases "n = r")
    case True
    then show ?thesis using tree_shapeD(2) [OF tree] that by (auto simp: root_ok_def)
  next
    case False
    then show ?thesis using tree_shapeD(6) [OF tree that(1) False] that new by auto
  qed
  let ?d = "\<lambda>x. if x = new then 2 * d c - 1 else 2 * d x"
  have pc: "d p < d c" by (rule d [OF cd(1,3)])
  have "?d q < ?d n" if "shape_split ps new c p m sh n = Some nd" "s_parent nd = Some q" for n nd q
    using that unfolding shape_split_apply [OF cd(1,2) ne]
    by (auto split: if_splits simp: cd(3) dest: d parents_old intro: less_imp_le pc)
      (use pc d parents_old cd ne in \<open>force+\<close>)?
  then have "\<forall>n nd q. shape_split ps new c p m sh n = Some nd \<longrightarrow> s_parent nd = Some q \<longrightarrow> ?d q < ?d n" by blast
  then show ?thesis by (rule exI [of _ ?d])
qed

lemma shape_split_tree:
  assumes s: "splittable ps r new c p m sh"
  shows "tree_shape ps r (shape_split ps new c p m sh)"
proof -
  have tree: "tree_shape ps r sh" and new: "sh new = None" and c: "c \<noteq> r" and m: "0 < m" "ps dvd m"
    and mlt: "\<And>cd. sh c = Some cd \<Longrightarrow> m < length (s_units cd)"
    using s by (auto simp: splittable_def)
  obtain cd pd v where cd: "sh c = Some cd" "sh p = Some pd" "s_val cd = Some v" "snode_ok ps cd" "s_parent cd = Some p"
    and ch: "(snode_ckey ps cd, c) \<in> set (s_children pd)" and ns: "p \<noteq> r \<Longrightarrow> s_ns pd = s_ns cd"
    and ne: "new \<noteq> c" "new \<noteq> p" "new \<noteq> r" "p \<noteq> c" and lv: "length v = length (s_units cd)"
    and pk: "page_key ps (s_ns cd) (take m (s_units cd)) = snode_ckey ps cd"
    by (rule splitE [OF s]) blast
  note ap = shape_split_apply [OF cd(1,2) ne(1,2,4), of ps m]
  have dp: "distinct (map fst (s_children pd))" by (rule tree_shapeD(3) [OF tree cd(2)])
  have chp: "set (AList.update (snode_ckey ps cd) new (s_children pd)) =
      insert (snode_ckey ps cd, new) (set (s_children pd) - {(snode_ckey ps cd, c)})"
    by (rule set_alist_update [OF dp ch])
  obtain d :: "nat \<Rightarrow> nat" where d: "\<And>n nd p. sh n = Some nd \<Longrightarrow> s_parent nd = Some p \<Longrightarrow> d p < d n"
    by (rule parent_rank [OF tree]) blast
  show ?thesis
  proof (rule tree_shapeI)
    show "0 < ps" by (rule tree_shapeD(1) [OF tree])
    show "\<exists>rd. shape_split ps new c p m sh r = Some rd \<and> root_ok rd"
      using tree_shapeD(2) [OF tree] ne c cd(2) by (auto simp: ap root_ok_def)
    show "\<exists>d :: nat \<Rightarrow> nat. \<forall>n nd q. shape_split ps new c p m sh n = Some nd \<longrightarrow> s_parent nd = Some q \<longrightarrow> d q < d n"
      by (rule split_rank [OF tree new cd(1,2,5) ne(1,2,4)])
  next
    fix n nd assume "shape_split ps new c p m sh n = Some nd"
    then show "distinct (map fst (s_children nd))"
      using tree_shapeD(3) [OF tree] cd dp by (auto simp: ap distinct_update split: if_splits)
  next
    fix n nd assume "shape_split ps new c p m sh n = Some nd" "n \<noteq> r"
    moreover have "ps dvd length (s_units cd) - m" using cd(4) m by (simp add: snode_ok_def dvd_diff_nat)
    ultimately show "snode_ok ps nd"
      using tree_shapeD(4) [OF tree] cd mlt [OF cd(1)] m lv
      by (auto simp: ap snode_ok_def split: if_splits)
  next
    fix n nd k x assume n: "shape_split ps new c p m sh n = Some nd" "(k, x) \<in> set (s_children nd)"
    have old: "x \<noteq> r \<and> (\<exists>xd. shape_split ps new c p m sh x = Some xd \<and> s_parent xd = Some n \<and> k = snode_ckey ps xd)"
      if o: "sh n = Some od" "(k, x) \<in> set (s_children od)" "x \<noteq> c" for od
    proof -
      obtain xd where xd: "sh x = Some xd" "s_parent xd = Some n" "k = snode_ckey ps xd" "x \<noteq> r"
        using tree_shapeD(5) [OF tree o(1,2)] by auto
      then have "x \<noteq> new" using new by auto
      then show ?thesis using xd o(3) cd by (auto simp: ap)
    qed
    consider "n = new" | "n = c" | "n = p" "x = new" | "n = p" "x \<noteq> new" | "n \<noteq> new" "n \<noteq> c" "n \<noteq> p" by blast
    then show "x \<noteq> r \<and> (\<exists>cd. shape_split ps new c p m sh x = Some cd \<and> s_parent cd = Some n \<and> k = snode_ckey ps cd)"
    proof cases
      case 1
      then show ?thesis using n c ne by (auto simp: ap)
    next
      case 2
      then have in_cd: "(k, x) \<in> set (s_children cd)" using n ne by (auto simp: ap)
      then have "x \<noteq> c" using tree_shapeD(5) [OF tree cd(1) in_cd] cd d by force
      then show ?thesis using old [of cd] 2 cd in_cd by simp
    next
      case 3
      have "(k, new) \<notin> set (s_children pd)" using tree_shapeD(5) [OF tree cd(2), of k new] new by auto
      then have "k = snode_ckey ps cd" using n 3 ne chp by (auto simp: ap)
      then show ?thesis using 3 ne pk by (auto simp: ap)
    next
      case 4
      then have in_pd: "(k, x) \<in> set (s_children pd)" "(k, x) \<noteq> (snode_ckey ps cd, c)"
        using n ne chp by (auto simp: ap)
      then have "x \<noteq> c" using tree_shapeD(5) [OF tree cd(2) in_pd(1)] cd by auto
      then show ?thesis using old [of pd] 4 cd in_pd by simp
    next
      case 5
      then have o: "sh n = Some nd" using n by (simp add: ap)
      then have "x \<noteq> c" using tree_shapeD(5) [OF tree o n(2)] cd 5 by auto
      then show ?thesis using old [OF o n(2)] by simp
    qed
  next
    fix x xd assume x: "shape_split ps new c p m sh x = Some xd" "x \<noteq> r"
    have old: "\<exists>q qd. s_parent xd = Some q \<and> shape_split ps new c p m sh q = Some qd \<and>
        (snode_ckey ps xd, x) \<in> set (s_children qd) \<and> (q \<noteq> r \<longrightarrow> s_ns qd = s_ns xd)"
      if o: "sh x = Some od" "x \<noteq> c" "s_parent xd = s_parent od" "s_ns xd = s_ns od" "s_units xd = s_units od" for od
    proof -
      obtain q qd where q: "s_parent od = Some q" "sh q = Some qd" "(snode_ckey ps od, x) \<in> set (s_children qd)"
        "q \<noteq> r \<longrightarrow> s_ns qd = s_ns od"
        using tree_shapeD(6) [OF tree o(1) x(2)] by auto
      have "q \<noteq> new" using q new by auto
      then have "\<exists>qd'. shape_split ps new c p m sh q = Some qd' \<and> (snode_ckey ps od, x) \<in> set (s_children qd') \<and>
          s_ns qd' = s_ns qd"
      proof (cases "q = p")
        case True
        then have "qd = pd" using q cd by simp
        then show ?thesis using True q ne o(2) chp by (simp add: ap)
      next
        case False
        then show ?thesis using \<open>q \<noteq> new\<close> q cd by (cases "q = c") (simp_all add: ap)
      qed
      then show ?thesis using q o by auto
    qed
    consider "x = new" | "x = c" | "x = p" | "x \<noteq> new" "x \<noteq> c" "x \<noteq> p" by blast
    then show "\<exists>q qd. s_parent xd = Some q \<and> shape_split ps new c p m sh q = Some qd \<and>
        (snode_ckey ps xd, x) \<in> set (s_children qd) \<and> (q \<noteq> r \<longrightarrow> s_ns qd = s_ns xd)"
    proof cases
      case 1
      then have "xd = cd\<lparr>s_children := [(page_key ps (s_ns cd) (drop m (s_units cd)), c)], s_parent := Some p,
          s_units := take m (s_units cd), s_val := map_option (take m) (s_val cd)\<rparr>"
        using x ne by (simp add: ap)
      then show ?thesis using 1 ne chp pk ns by (simp add: ap)
    next
      case 2
      then have "xd = cd\<lparr>s_parent := Some new, s_units := drop m (s_units cd), s_val := map_option (drop m) (s_val cd)\<rparr>"
        using x ne by (simp add: ap)
      then show ?thesis using 2 ne by (simp add: ap)
    next
      case 3
      then have "xd = pd\<lparr>s_children := AList.update (snode_ckey ps cd) new (s_children pd)\<rparr>"
        using x ne by (simp add: ap)
      then show ?thesis by (intro old [of pd]) (use 3 cd ne in simp_all)
    next
      case 4
      then show ?thesis by (intro old [of xd]) (use x in \<open>simp_all add: ap\<close>)
    qed
  qed
qed

text \<open>The parts of the old and of the new tree that correspond.\<close>

lemma split_children:
  assumes s: "splittable ps r new c p m sh"
  shows "sh n = Some od \<Longrightarrow> (k, x) \<in> set (s_children od) \<Longrightarrow> x \<noteq> c \<Longrightarrow> sh x = Some xd \<Longrightarrow>
      \<exists>nd xd'. shape_split ps new c p m sh n = Some nd \<and> (k, x) \<in> set (s_children nd) \<and>
        shape_split ps new c p m sh x = Some xd' \<and> s_ns xd' = s_ns xd \<and> s_units xd' = s_units xd \<and> s_val xd' = s_val xd"
    and "sh n = Some od \<Longrightarrow> (k, c) \<in> set (s_children od) \<Longrightarrow> n = p"
    and "shape_split ps new c p m sh n = Some nd \<Longrightarrow> (k, x) \<in> set (s_children nd) \<Longrightarrow> n \<noteq> new \<Longrightarrow> x \<noteq> new \<Longrightarrow>
      shape_split ps new c p m sh x = Some xd' \<Longrightarrow>
      \<exists>od xd. sh n = Some od \<and> (k, x) \<in> set (s_children od) \<and> sh x = Some xd \<and>
        s_ns xd' = s_ns xd \<and> s_units xd' = s_units xd \<and> s_val xd' = s_val xd"
    and "shape_split ps new c p m sh n = Some nd \<Longrightarrow> (k, new) \<in> set (s_children nd) \<Longrightarrow> n = p"
proof -
  have tree: "tree_shape ps r sh" and new: "sh new = None" using s by (auto simp: splittable_def)
  obtain cd pd v where cd: "sh c = Some cd" "sh p = Some pd" "s_val cd = Some v" "s_parent cd = Some p"
    and ch: "(snode_ckey ps cd, c) \<in> set (s_children pd)"
    and ne: "new \<noteq> c" "new \<noteq> p" "new \<noteq> r" "p \<noteq> c"
    by (rule splitE [OF s]) blast
  note ap = shape_split_apply [OF cd(1,2) ne(1,2,4), of ps m]
  have dp: "distinct (map fst (s_children pd))" by (rule tree_shapeD(3) [OF tree cd(2)])
  have chp: "set (AList.update (snode_ckey ps cd) new (s_children pd)) =
      insert (snode_ckey ps cd, new) (set (s_children pd) - {(snode_ckey ps cd, c)})"
    by (rule set_alist_update [OF dp ch])
  show "sh n = Some od \<Longrightarrow> (k, c) \<in> set (s_children od) \<Longrightarrow> n = p"
    using tree_shapeD(5) [OF tree, of n od k c] cd by auto
  show "\<exists>nd xd'. shape_split ps new c p m sh n = Some nd \<and> (k, x) \<in> set (s_children nd) \<and>
        shape_split ps new c p m sh x = Some xd' \<and> s_ns xd' = s_ns xd \<and> s_units xd' = s_units xd \<and> s_val xd' = s_val xd"
    if a: "sh n = Some od" "(k, x) \<in> set (s_children od)" "x \<noteq> c" "sh x = Some xd"
  proof -
    have new': "n \<noteq> new" "x \<noteq> new" using a new by auto
    have "\<exists>nd. shape_split ps new c p m sh n = Some nd \<and> (k, x) \<in> set (s_children nd)"
    proof (cases "n = p")
      case True
      then show ?thesis using a cd ne chp by (simp add: ap)
    next
      case False
      then show ?thesis using a cd new' by (cases "n = c") (simp_all add: ap)
    qed
    moreover have "\<exists>xd'. shape_split ps new c p m sh x = Some xd' \<and>
        s_ns xd' = s_ns xd \<and> s_units xd' = s_units xd \<and> s_val xd' = s_val xd"
      using a cd ne new' by (cases "x = p") (simp_all add: ap)
    ultimately show ?thesis by blast
  qed
  have old_child: "x \<noteq> c \<and> (\<exists>od. sh n = Some od \<and> (k, x) \<in> set (s_children od))"
    if n: "shape_split ps new c p m sh n = Some nd" "(k, x) \<in> set (s_children nd)"
      and ne2: "n \<noteq> new" "x \<noteq> new" for n nd k x
  proof -
    have "\<exists>od. sh n = Some od \<and> (k, x) \<in> set (s_children od) \<and> (n = p \<longrightarrow> (k, x) \<noteq> (snode_ckey ps cd, c))"
    proof (cases "n = p")
      case True
      then have "nd = pd\<lparr>s_children := AList.update (snode_ckey ps cd) new (s_children pd)\<rparr>"
        using n ne by (simp add: ap)
      then show ?thesis using n(2) ne2 True cd(2) chp by simp
    next
      case False
      show ?thesis
      proof (cases "n = c")
        case True
        then have "s_children nd = s_children cd" using n(1) ne2 by (auto simp: ap)
        then show ?thesis using True n(2) cd False by simp
      qed (use False n ne2 in \<open>simp add: ap\<close>)
    qed
    then obtain od where od: "sh n = Some od" "(k, x) \<in> set (s_children od)" "n = p \<longrightarrow> (k, x) \<noteq> (snode_ckey ps cd, c)"
      by blast
    have "x \<noteq> c"
    proof
      assume x: "x = c"
      then have "n = p" "k = snode_ckey ps cd" using tree_shapeD(5) [OF tree od(1,2)] cd by auto
      then show False using od(3) x by simp
    qed
    then show ?thesis using od by blast
  qed
  show "\<exists>od xd. sh n = Some od \<and> (k, x) \<in> set (s_children od) \<and> sh x = Some xd \<and>
        s_ns xd' = s_ns xd \<and> s_units xd' = s_units xd \<and> s_val xd' = s_val xd"
    if a: "shape_split ps new c p m sh n = Some nd" "(k, x) \<in> set (s_children nd)" "n \<noteq> new" "x \<noteq> new"
      "shape_split ps new c p m sh x = Some xd'"
  proof -
    from old_child [OF a(1-4)] obtain od where od: "x \<noteq> c" "sh n = Some od" "(k, x) \<in> set (s_children od)" by blast
    moreover have "\<exists>xd. sh x = Some xd \<and> s_ns xd' = s_ns xd \<and> s_units xd' = s_units xd \<and> s_val xd' = s_val xd"
      using a(4,5) od(1) cd(2) by (cases "x = p") (auto simp: ap)
    ultimately show ?thesis by blast
  qed
  show "n = p" if a: "shape_split ps new c p m sh n = Some nd" "(k, new) \<in> set (s_children nd)"
  proof -
    obtain xd where xd: "shape_split ps new c p m sh new = Some xd" "s_parent xd = Some n"
      using tree_shapeD(5) [OF shape_split_tree [OF s] a] by auto
    then show ?thesis by (auto simp: ap)
  qed
qed

lemma below_split1:
  assumes s: "splittable ps r new c p m sh"
  shows "below ps ns sh n us vs \<Longrightarrow> below ps ns (shape_split ps new c p m sh) n us vs"
proof (induction rule: below.induct)
  case (below_here n)
  then show ?case by (rule below.below_here)
next
  let ?S = "shape_split ps new c p m sh"
  obtain cd pd v where cd: "sh c = Some cd" "sh p = Some pd" "s_val cd = Some v"
    and ch: "(snode_ckey ps cd, c) \<in> set (s_children pd)"
    and ne: "new \<noteq> c" "new \<noteq> p" "p \<noteq> c" and lv: "length v = length (s_units cd)"
    by (rule splitE [OF s]) blast
  have m: "m < length (s_units cd)" "ps dvd m" and tree: "tree_shape ps r sh" using s cd by (auto simp: splittable_def)
  note ap = shape_split_apply [OF cd(1,2) ne, of ps m]
  have sp: "?S p = Some (pd\<lparr>s_children := AList.update (snode_ckey ps cd) new (s_children pd)\<rparr>)"
    using ne by (simp add: ap)
  have in_p: "(snode_ckey ps cd, new) \<in> set (AList.update (snode_ckey ps cd) new (s_children pd))"
    using set_alist_update [OF tree_shapeD(3) [OF tree cd(2)] ch] by simp
  have via: "below ps ns ?S p (take m (s_units cd) @ us) (take m v @ vs)"
    if "s_ns cd = ns" "below ps ns ?S new us vs" for us vs
    using below.below_step [of ?S p "pd\<lparr>s_children := AList.update (snode_ckey ps cd) new (s_children pd)\<rparr>" _ new
        "cd\<lparr>s_children := [(page_key ps (s_ns cd) (drop m (s_units cd)), c)], s_parent := Some p,
            s_units := take m (s_units cd), s_val := map_option (take m) (s_val cd)\<rparr>"] sp in_p that cd
    by (simp add: ap)
  have via2: "below ps ns ?S new (drop m (s_units cd) @ us) (drop m v @ vs)"
    if "s_ns cd = ns" "below ps ns ?S c us vs" for us vs
    using below.below_step [of ?S new _ _ c "cd\<lparr>s_parent := Some new, s_units := drop m (s_units cd), s_val := map_option (drop m) (s_val cd)\<rparr>"]
      that cd ne by (simp add: ap)
  { case (below_part n nd k x xd w m')
    show ?case
    proof (cases "x = c")
      case False
      then show ?thesis
        using split_children(1) [OF s below_part(1,2) False below_part(3)] below_part(4-7)
        by (metis below.below_part)
    next
      case True
      then have eq: "xd = cd" "w = v" "n = p" using below_part cd split_children(2) [OF s below_part(1)] by auto
      show ?thesis
      proof (cases "m' \<le> m")
        case le: True
        have "below ps ns ?S p (take m' (take m (s_units cd))) (take m' (take m v))"
          using below.below_part [of ?S p "pd\<lparr>s_children := AList.update (snode_ckey ps cd) new (s_children pd)\<rparr>"
              "snode_ckey ps cd" new "cd\<lparr>s_children := [(page_key ps (s_ns cd) (drop m (s_units cd)), c)],
                 s_parent := Some p, s_units := take m (s_units cd), s_val := map_option (take m) (s_val cd)\<rparr>" ns "take m v" m' ps]
            sp in_p below_part le cd eq m by (simp add: ap)
        then show ?thesis using le eq by (simp add: min_def)
      next
        case gt: False
        have "ps dvd m' - m" using below_part(7) m(2) by (simp add: dvd_diff_nat)
        then have "below ps ns ?S new (take (m' - m) (drop m (s_units cd))) (take (m' - m) (drop m v))"
          using below.below_part [of ?S new _ "page_key ps (s_ns cd) (drop m (s_units cd))" c
              "cd\<lparr>s_parent := Some new, s_units := drop m (s_units cd), s_val := map_option (drop m) (s_val cd)\<rparr>" ns "drop m v" "m' - m" ps]
            below_part cd eq ne by (simp add: ap)
        from via [OF _ this] show ?thesis
          using below_part eq gt take_add [of m "m' - m" "s_units cd"] take_add [of m "m' - m" v] by simp
      qed
    qed
  next
    case (below_step n nd k x xd w us vs)
    show ?case
    proof (cases "x = c")
      case False
      then show ?thesis
        using split_children(1) [OF s below_step(1,2) False below_step(3)] below_step(4,5) below_step.IH
        by (metis below.below_step)
    next
      case True
      then have eq: "xd = cd" "w = v" "n = p" using below_step cd split_children(2) [OF s below_step(1)] by auto
      have "below ps ns ?S p (take m (s_units cd) @ drop m (s_units cd) @ us) (take m v @ drop m v @ vs)"
        by (rule via [OF _ via2]) (use below_step True eq in auto)
      then show ?thesis using eq by (simp flip: append_assoc)
    qed
  }
qed

end
