(* ===== verification/RadixEdit.thy ===== *)
theory RadixEdit
  imports RadixShape
begin

text \<open>
  What the changes of shape do to the content of the tree: a split keeps it, a new leaf adds
  the pages of the leaf behind the path to its parent, and removing a leaf keeps every path
  that does not end there.
\<close>

section \<open>Splitting a node\<close>

lemma in_alist_update: "(k, v) \<in> set (AList.update k v xs)"
  by (induction xs) auto

lemma below_split2:
  assumes s: "splittable ps r new c p m sh" and cd: "sh c = Some cd" "s_val cd = Some v"
  shows "below ps ns (shape_split ps new c p m sh) n us vs \<Longrightarrow>
    (n \<noteq> new \<longrightarrow> below ps ns sh n us vs) \<and>
    (n = new \<longrightarrow> s_ns cd = ns \<longrightarrow> below ps ns sh p (take m (s_units cd) @ us) (take m v @ vs))"
proof (induction rule: below.induct)
  let ?S = "shape_split ps new c p m sh"
  obtain pd where pd: "sh p = Some pd" and ch: "(snode_ckey ps cd, c) \<in> set (s_children pd)"
    and ne: "new \<noteq> c" "new \<noteq> p" "p \<noteq> c" and lv: "length v = length (s_units cd)"
    by (rule splitE [OF s]) (use cd in auto)
  have m: "m < length (s_units cd)" "ps dvd m" and tree: "tree_shape ps r sh"
    using s cd by (auto simp: splittable_def)
  note ap = shape_split_apply [OF cd(1) pd ne, of ps m]
  have part: "below ps ns sh p (take j (s_units cd)) (take j v)"
    if "s_ns cd = ns" "j \<le> length (s_units cd)" "ps dvd j" for j
    by (rule below_part [OF pd ch cd(1) that(1) cd(2) that(2,3)])
  have step: "below ps ns sh p (s_units cd @ us) (v @ vs)" if "s_ns cd = ns" "below ps ns sh c us vs" for us vs
    by (rule below_step [OF pd ch cd(1) that(1) cd(2) that(2)])
  have snew: "?S new = Some (cd\<lparr>s_children := [(page_key ps (s_ns cd) (drop m (s_units cd)), c)], s_parent := Some p,
        s_units := take m (s_units cd), s_val := map_option (take m) (s_val cd)\<rparr>)" by (simp add: ap)
  have sc: "?S c = Some (cd\<lparr>s_parent := Some new, s_units := drop m (s_units cd), s_val := map_option (drop m) (s_val cd)\<rparr>)"
    using ne by (simp add: ap)
  { case (below_here n)
    then show ?case using part [of m] m by (auto intro: below.below_here)
  next
    case (below_part n nd k x xd w m')
    show ?case
    proof (cases "n = new")
      case True
      then have x: "x = c" "nd = the (?S new)" using below_part snew by auto
      then have xd: "s_ns xd = s_ns cd" "s_units xd = drop m (s_units cd)" "w = drop m v"
        using below_part sc cd by auto
      have "below ps ns sh p (take (m + m') (s_units cd)) (take (m + m') v)" if "s_ns cd = ns"
        by (rule part) (use that below_part(6,7) xd m in \<open>auto\<close>)
      then show ?thesis using True xd by (simp add: take_add)
    next
      case n: False
      show ?thesis
      proof (cases "x = new")
        case True
        then have "n = p" using split_children(4) [OF s below_part(1)] below_part(2) by simp
        moreover have "s_ns xd = s_ns cd" "s_units xd = take m (s_units cd)" "w = take m v"
          using below_part(3,5) True snew cd by auto
        moreover have "m' \<le> m" using below_part(6) calculation(3) by simp
        moreover have "below ps ns sh p (take m' (s_units cd)) (take m' v)"
          by (rule part) (use below_part(4,7) calculation m in auto)
        ultimately show ?thesis using n by (simp add: min_def)
      next
        case False
        from split_children(3) [OF s below_part(1,2) n False below_part(3)] obtain od xd' where
          "sh n = Some od" "(k, x) \<in> set (s_children od)" "sh x = Some xd'" "s_ns xd = s_ns xd'"
          "s_units xd = s_units xd'" "s_val xd = s_val xd'" by blast
        then show ?thesis using n below_part(4-7) below.below_part [of sh n od k x xd'] by simp
      qed
    qed
  next
    case (below_step n nd k x xd w us vs)
    show ?case
    proof (cases "n = new")
      case True
      then have x: "x = c" using below_step(1,2) snew by auto
      then have xd: "s_ns xd = s_ns cd" "s_units xd = drop m (s_units cd)" "w = drop m v"
        using below_step sc cd by auto
      have "below ps ns sh c us vs" using below_step.IH x ne by simp
      then have "below ps ns sh p (s_units cd @ us) (v @ vs)" if "s_ns cd = ns" using step that by blast
      then show ?thesis using True xd by (simp flip: append_assoc)
    next
      case n: False
      show ?thesis
      proof (cases "x = new")
        case True
        then have "n = p" using split_children(4) [OF s below_step(1)] below_step(2) by simp
        moreover have "s_ns xd = s_ns cd" "s_units xd = take m (s_units cd)" "w = take m v"
          using below_step(3,5) True snew cd by auto
        ultimately show ?thesis using n below_step.IH below_step(4) True by simp
      next
        case False
        from split_children(3) [OF s below_step(1,2) n False below_step(3)] obtain od xd' where
          "sh n = Some od" "(k, x) \<in> set (s_children od)" "sh x = Some xd'" "s_ns xd = s_ns xd'"
          "s_units xd = s_units xd'" "s_val xd = s_val xd'" by blast
        then show ?thesis using n False below_step(4,5) below_step.IH below.below_step [of sh n od k x xd'] by simp
      qed
    qed
  }
qed

lemma below_split:
  assumes "splittable ps r new c p m sh" "n \<noteq> new"
  shows "below ps ns (shape_split ps new c p m sh) n us vs \<longleftrightarrow> below ps ns sh n us vs"
proof -
  obtain cd v where "sh c = Some cd" "s_val cd = Some v" by (rule splitE [OF assms(1)]) blast
  then show ?thesis using below_split1 [OF assms(1)] below_split2 [OF assms(1)] assms(2) by blast
qed

lemma walk_split:
  assumes s: "splittable ps r new c p m sh"
  shows "walk ns sh n x us vs \<Longrightarrow> walk ns (shape_split ps new c p m sh) n x us vs"
proof (induction rule: walk.induct)
  case (walk_here n)
  then show ?case by (rule walk.walk_here)
next
  let ?S = "shape_split ps new c p m sh"
  case (walk_step n nd k y yd w x us vs)
  show ?case
  proof (cases "y = c")
    case False
    then show ?thesis
      using split_children(1) [OF s walk_step(1,2) False walk_step(3)] walk_step(4,5) walk_step.IH
      by (metis walk.walk_step)
  next
    case True
    obtain cd pd v where cd: "sh c = Some cd" "sh p = Some pd" "s_val cd = Some v"
      and ch: "(snode_ckey ps cd, c) \<in> set (s_children pd)" and ne: "new \<noteq> c" "new \<noteq> p" "p \<noteq> c"
      by (rule splitE [OF s]) blast
    note ap = shape_split_apply [OF cd(1,2) ne, of ps m]
    have eq: "yd = cd" "w = v" "n = p" using True walk_step cd split_children(2) [OF s walk_step(1)] by auto
    have in_p: "(snode_ckey ps cd, new) \<in> set (AList.update (snode_ckey ps cd) new (s_children pd))"
      by (rule in_alist_update)
    have snew: "?S new = Some (cd\<lparr>s_children := [(page_key ps (s_ns cd) (drop m (s_units cd)), c)], s_parent := Some p,
        s_units := take m (s_units cd), s_val := map_option (take m) (s_val cd)\<rparr>)" by (simp add: ap)
    have sc: "?S c = Some (cd\<lparr>s_parent := Some new, s_units := drop m (s_units cd), s_val := map_option (drop m) (s_val cd)\<rparr>)"
      using ne by (simp add: ap)
    have "walk ns ?S new x (drop m (s_units cd) @ us) (drop m v @ vs)"
      using walk.walk_step [of ?S new _ _ c "cd\<lparr>s_parent := Some new, s_units := drop m (s_units cd),
          s_val := map_option (drop m) (s_val cd)\<rparr>" ns "drop m v" x us vs] walk_step.IH walk_step(4) True eq cd snew sc
      by simp
    then have "walk ns ?S p x (take m (s_units cd) @ drop m (s_units cd) @ us) (take m v @ drop m v @ vs)"
      using walk.walk_step [of ?S p "pd\<lparr>s_children := AList.update (snode_ckey ps cd) new (s_children pd)\<rparr>" _ new
          "cd\<lparr>s_children := [(page_key ps (s_ns cd) (drop m (s_units cd)), c)], s_parent := Some p,
            s_units := take m (s_units cd), s_val := map_option (take m) (s_val cd)\<rparr>" ns "take m v" x
          "drop m (s_units cd) @ us" "drop m v @ vs"] walk_step(4) eq cd ne in_p by (simp add: ap)
    then show ?thesis using eq by (simp flip: append_assoc)
  qed
qed

lemma walk_split_new:
  assumes s: "splittable ps r new c p m sh" and cd: "sh c = Some cd" "s_val cd = Some v" "s_ns cd = ns"
  shows "walk ns (shape_split ps new c p m sh) p new (take m (s_units cd)) (take m v)"
proof -
  obtain pd where pd: "sh p = Some pd" and ch: "(snode_ckey ps cd, c) \<in> set (s_children pd)"
    and ne: "new \<noteq> c" "new \<noteq> p" "p \<noteq> c"
    by (rule splitE [OF s]) (use cd in auto)
  note ap = shape_split_apply [OF cd(1) pd ne, of ps m]
  have in_p: "(snode_ckey ps cd, new) \<in> set (AList.update (snode_ckey ps cd) new (s_children pd))"
    by (rule in_alist_update)
  show ?thesis
    using walk.walk_step [of "shape_split ps new c p m sh" p "pd\<lparr>s_children := AList.update (snode_ckey ps cd) new (s_children pd)\<rparr>" _ new
          "cd\<lparr>s_children := [(page_key ps (s_ns cd) (drop m (s_units cd)), c)], s_parent := Some p,
            s_units := take m (s_units cd), s_val := map_option (take m) (s_val cd)\<rparr>" ns "take m v" new "[]" "[]"]
      walk_here in_p cd ne by (simp add: ap)
qed

section \<open>Adding a leaf\<close>

definition leaf_place ::
  "nat \<Rightarrow> nat \<Rightarrow> nat \<Rightarrow> nat \<Rightarrow> string option \<times> string option \<Rightarrow> key_unit list \<Rightarrow> int list \<Rightarrow> shape \<Rightarrow> bool" where
  "leaf_place ps r new p ns us v sh \<longleftrightarrow>
     tree_shape ps r sh \<and> sh new = None \<and> us \<noteq> [] \<and> ps dvd length us \<and> length v = length us \<and>
     (\<exists>pd. sh p = Some pd \<and> page_key ps ns us \<notin> fst ` set (s_children pd) \<and> (p \<noteq> r \<longrightarrow> s_ns pd = ns))"

lemma shape_leaf_apply:
  assumes "sh p = Some pd" "new \<noteq> p" "page_key ps ns us \<notin> fst ` set (s_children pd)"
  shows "shape_leaf ps new p ns us v sh x =
    (if x = new then Some \<lparr>s_children = [], s_parent = Some p, s_ns = ns, s_units = us, s_val = Some v, s_lock = 0\<rparr>
     else if x = p then Some (pd\<lparr>s_children := s_children pd @ [(page_key ps ns us, new)]\<rparr>)
     else sh x)"
  using assms by (auto simp: shape_leaf_def Let_def alist_update_new)

lemma leafE:
  assumes "leaf_place ps r new p ns us v sh"
  obtains pd where "tree_shape ps r sh" "sh new = None" "us \<noteq> []" "ps dvd length us" "length v = length us"
    "sh p = Some pd" "page_key ps ns us \<notin> fst ` set (s_children pd)" "p \<noteq> r \<Longrightarrow> s_ns pd = ns" "new \<noteq> p" "new \<noteq> r"
proof -
  from assms obtain pd where "tree_shape ps r sh" "sh new = None" "us \<noteq> []" "ps dvd length us" "length v = length us"
    "sh p = Some pd" "page_key ps ns us \<notin> fst ` set (s_children pd)" "p \<noteq> r \<longrightarrow> s_ns pd = ns"
    by (auto simp: leaf_place_def)
  moreover from this have "new \<noteq> p" "new \<noteq> r" using tree_shapeD(2) by force+
  ultimately show ?thesis using that by blast
qed

lemma parent_in_tree: "tree_shape ps r sh \<Longrightarrow> sh n = Some nd \<Longrightarrow> s_parent nd = Some q \<Longrightarrow> sh q \<noteq> None"
  using tree_shapeD(2) [of ps r sh] tree_shapeD(6) [of ps r sh n nd] by (cases "n = r") (auto simp: root_ok_def)

lemma shape_leaf_tree:
  assumes l: "leaf_place ps r new p ns us v sh"
  shows "tree_shape ps r (shape_leaf ps new p ns us v sh)"
proof -
  obtain pd where tree: "tree_shape ps r sh" and new: "sh new = None" and us: "us \<noteq> []" "ps dvd length us" "length v = length us"
    and pd: "sh p = Some pd" "page_key ps ns us \<notin> fst ` set (s_children pd)" "p \<noteq> r \<Longrightarrow> s_ns pd = ns"
    and ne: "new \<noteq> p" "new \<noteq> r" by (rule leafE [OF l]) blast
  note ap = shape_leaf_apply [where sh = sh and p = p and pd = pd and new = new, OF pd(1) ne(1) pd(2), of v]
  let ?S = "shape_leaf ps new p ns us v sh"
  have keep: "\<exists>nd. ?S n = Some nd \<and> s_parent nd = s_parent od \<and> s_ns nd = s_ns od \<and> s_units nd = s_units od \<and>
      s_val nd = s_val od \<and> set (s_children od) \<subseteq> set (s_children nd)" if "sh n = Some od" for n od
    using that new pd by (auto simp: ap)
  have split: "n = new \<or> (\<exists>od. sh n = Some od \<and> s_parent nd = s_parent od \<and> s_ns nd = s_ns od \<and> s_units nd = s_units od \<and>
      s_val nd = s_val od \<and> (s_children nd = s_children od \<or> n = p \<and> od = pd \<and> s_children nd = s_children pd @ [(page_key ps ns us, new)]))"
    if "?S n = Some nd" for n nd
    using that pd by (auto simp: ap split: if_splits)
  show ?thesis
  proof (rule tree_shapeI)
    show "0 < ps" by (rule tree_shapeD(1) [OF tree])
    show "\<exists>rd. ?S r = Some rd \<and> root_ok rd"
    proof -
      obtain rd where "sh r = Some rd" "root_ok rd" using tree_shapeD(2) [OF tree] by blast
      then show ?thesis using keep [of r rd] by (auto simp: root_ok_def)
    qed
    obtain d :: "nat \<Rightarrow> nat" where d: "\<And>n nd p. sh n = Some nd \<Longrightarrow> s_parent nd = Some p \<Longrightarrow> d p < d n"
      by (rule parent_rank [OF tree]) blast
    let ?d = "\<lambda>x. if x = new then Suc (d p) else d x"
    have "?d q < ?d n" if q: "?S n = Some nd" "s_parent nd = Some q" for n nd q
    proof (cases "n = new")
      case True
      then show ?thesis using q ne by (auto simp: ap)
    next
      case False
      then obtain od where od: "sh n = Some od" "s_parent od = Some q" using split [OF q(1)] q(2) by auto
      then have "q \<noteq> new" using parent_in_tree [OF tree od] new by auto
      then show ?thesis using d [OF od] False by simp
    qed
    then have "\<forall>n nd q. ?S n = Some nd \<longrightarrow> s_parent nd = Some q \<longrightarrow> ?d q < ?d n" by blast
    then show "\<exists>d :: nat \<Rightarrow> nat. \<forall>n nd q. ?S n = Some nd \<longrightarrow> s_parent nd = Some q \<longrightarrow> d q < d n" by (rule exI [of _ ?d])
  next
    fix n nd assume n: "?S n = Some nd"
    then show "distinct (map fst (s_children nd))"
      using split [OF n] tree_shapeD(3) [OF tree] pd by (auto simp: ap)
  next
    fix n nd assume n: "?S n = Some nd" "n \<noteq> r"
    then show "snode_ok ps nd"
      using split [OF n(1)] tree_shapeD(4) [OF tree _ n(2)] us by (auto simp: ap snode_ok_def)
  next
    fix n nd k c assume n: "?S n = Some nd" "(k, c) \<in> set (s_children nd)"
    show "c \<noteq> r \<and> (\<exists>cd. ?S c = Some cd \<and> s_parent cd = Some n \<and> k = snode_ckey ps cd)"
    proof (cases "n = p \<and> (k, c) = (page_key ps ns us, new)")
      case True
      then show ?thesis using ne by (auto simp: ap)
    next
      case False
      then have "n \<noteq> new" using n by (auto simp: ap)
      then obtain od where od: "sh n = Some od" "(k, c) \<in> set (s_children od)"
        using split [OF n(1)] n(2) False by auto
      then obtain cd where cd: "c \<noteq> r" "sh c = Some cd" "s_parent cd = Some n" "k = snode_ckey ps cd"
        using tree_shapeD(5) [OF tree] by blast
      then show ?thesis using keep [OF cd(2)] by auto
    qed
  next
    fix n nd assume n: "?S n = Some nd" "n \<noteq> r"
    show "\<exists>q qd. s_parent nd = Some q \<and> ?S q = Some qd \<and> (snode_ckey ps nd, n) \<in> set (s_children qd) \<and> (q \<noteq> r \<longrightarrow> s_ns qd = s_ns nd)"
    proof (cases "n = new")
      case True
      then show ?thesis using n ne pd by (auto simp: ap)
    next
      case False
      then obtain od where od: "sh n = Some od" "s_parent nd = s_parent od" "s_ns nd = s_ns od" "s_units nd = s_units od"
        using split [OF n(1)] by auto
      obtain q qd where q: "s_parent od = Some q" "sh q = Some qd" "(snode_ckey ps od, n) \<in> set (s_children qd)"
        "q \<noteq> r \<longrightarrow> s_ns qd = s_ns od"
        using tree_shapeD(6) [OF tree od(1) n(2)] by blast
      then show ?thesis using keep [OF q(2)] od by auto
    qed
  qed
qed

lemma below_leaf:
  assumes l: "leaf_place ps r new p ns us v sh" and n: "n \<noteq> new"
  shows "below ps ns' (shape_leaf ps new p ns us v sh) n us' vs' \<longleftrightarrow>
    below ps ns' sh n us' vs' \<or>
    (ns' = ns \<and> (\<exists>us1 vs1 m. walk ns sh n p us1 vs1 \<and> m \<le> length us \<and> ps dvd m \<and>
       us' = us1 @ take m us \<and> vs' = vs1 @ take m v))" (is "?L \<longleftrightarrow> ?R")
proof -
  obtain pd where tree: "tree_shape ps r sh" and new: "sh new = None" and us: "us \<noteq> []" "ps dvd length us" "length v = length us"
    and pd: "sh p = Some pd" "page_key ps ns us \<notin> fst ` set (s_children pd)" "p \<noteq> r \<Longrightarrow> s_ns pd = ns"
    and ne: "new \<noteq> p" "new \<noteq> r" by (rule leafE [OF l]) blast
  note ap = shape_leaf_apply [where sh = sh and p = p and pd = pd and new = new, OF pd(1) ne(1) pd(2), of v]
  let ?S = "shape_leaf ps new p ns us v sh"
  have keep: "\<exists>nd. ?S n = Some nd \<and> s_ns nd = s_ns od \<and> s_units nd = s_units od \<and>
      s_val nd = s_val od \<and> set (s_children od) \<subseteq> set (s_children nd)" if "sh n = Some od" for n od
    using that new pd by (auto simp: ap)
  have mono: "below ps ns' sh n a b \<Longrightarrow> below ps ns' ?S n a b" for n a b
  proof (induction rule: below.induct)
    case (below_part n nd k c cd w m)
    obtain nd' cd' where "?S n = Some nd'" "(k, c) \<in> set (s_children nd')" "?S c = Some cd'"
      "s_ns cd' = s_ns cd" "s_units cd' = s_units cd" "s_val cd' = s_val cd"
      using keep [OF below_part(1)] keep [OF below_part(3)] below_part(2) by auto
    then show ?case using below.below_part [of ?S n nd' k c cd'] below_part by simp
  next
    case (below_step n nd k c cd w a b)
    obtain nd' cd' where "?S n = Some nd'" "(k, c) \<in> set (s_children nd')" "?S c = Some cd'"
      "s_ns cd' = s_ns cd" "s_units cd' = s_units cd" "s_val cd' = s_val cd"
      using keep [OF below_step(1)] keep [OF below_step(3)] below_step(2) by auto
    then show ?case using below.below_step [of ?S n nd' k c cd'] below_step by simp
  qed (rule below.below_here)
  have walk_mono: "walk ns sh n m a b \<Longrightarrow> walk ns ?S n m a b" for n m a b
  proof (induction rule: walk.induct)
    case (walk_step n nd k c cd w m a b)
    obtain nd' cd' where "?S n = Some nd'" "(k, c) \<in> set (s_children nd')" "?S c = Some cd'"
      "s_ns cd' = s_ns cd" "s_units cd' = s_units cd" "s_val cd' = s_val cd"
      using keep [OF walk_step(1)] keep [OF walk_step(3)] walk_step(2) by auto
    then show ?case using walk.walk_step [of ?S n nd' k c cd'] walk_step by simp
  qed (rule walk.walk_here)
  have sp: "?S p = Some (pd\<lparr>s_children := s_children pd @ [(page_key ps ns us, new)]\<rparr>)"
    and snew: "?S new = Some \<lparr>s_children = [], s_parent = Some p, s_ns = ns, s_units = us, s_val = Some v, s_lock = 0\<rparr>"
    using ne by (simp_all add: ap)
  have leaf: "below ps ns ?S p (take m us) (take m v)" if "m \<le> length us" "ps dvd m" for m
    using below_part [of ?S p "pd\<lparr>s_children := s_children pd @ [(page_key ps ns us, new)]\<rparr>" "page_key ps ns us" new _ ns v m ps]
      sp snew that by simp
  have new_leaf: "a = [] \<and> b = []" if "below ps ns' ?S new a b" for a b
    using that by cases (use snew in auto)
  show ?thesis
  proof
    assume ?R
    then show ?L
    proof
      assume "below ps ns' sh n us' vs'"
      then show ?L by (rule mono)
    next
      assume "ns' = ns \<and> (\<exists>us1 vs1 m. walk ns sh n p us1 vs1 \<and> m \<le> length us \<and> ps dvd m \<and>
        us' = us1 @ take m us \<and> vs' = vs1 @ take m v)"
      then show ?L using walk_below walk_mono leaf by blast
    qed
  next
    have "n \<noteq> new \<longrightarrow> below ps ns' sh n a b \<or>
      (ns' = ns \<and> (\<exists>us1 vs1 m. walk ns sh n p us1 vs1 \<and> m \<le> length us \<and> ps dvd m \<and>
       a = us1 @ take m us \<and> b = vs1 @ take m v))" if "below ps ns' ?S n a b" for n a b
      using that
    proof (induction rule: below.induct)
      case (below_here n)
      then show ?case by (simp add: below.below_here)
    next
      case (below_part n nd k c cd w m)
      show ?case
      proof (cases "n = p \<and> c = new")
        case True
        then have "ns' = ns" "s_units cd = us" "w = v" using below_part snew by auto
        then show ?thesis using True below_part walk_here [of ns sh p] by fastforce
      next
        case False
        show ?thesis
        proof
          assume "n \<noteq> new"
          then obtain od where "sh n = Some od" "(k, c) \<in> set (s_children od)"
            using below_part(1,2) False pd(1) by (auto simp: ap split: if_splits)
          moreover from this obtain od' where "sh c = Some od'" using tree_shapeD(5) [OF tree] by blast
          moreover have "c \<noteq> new" using calculation new by auto
          ultimately show "below ps ns' sh n (take m (s_units cd)) (take m w) \<or>
            (ns' = ns \<and> (\<exists>us1 vs1 j. walk ns sh n p us1 vs1 \<and> j \<le> length us \<and> ps dvd j \<and>
             take m (s_units cd) = us1 @ take j us \<and> take m w = vs1 @ take j v))"
            using below_part below.below_part [of sh n od k c od' ns' w m ps] keep [of c od'] by auto
        qed
      qed
    next
      case (below_step n nd k c cd w a b)
      show ?case
      proof (cases "n = p \<and> c = new")
        case True
        then have "ns' = ns" "s_units cd = us" "w = v" "a = []" "b = []"
          using below_step snew new_leaf by auto
        then show ?thesis using True us walk_here [of ns sh p] by fastforce
      next
        case False
        show ?thesis
        proof
          assume "n \<noteq> new"
          then obtain od where od: "sh n = Some od" "(k, c) \<in> set (s_children od)"
            using below_step(1,2) False pd(1) by (auto simp: ap split: if_splits)
          then obtain od' where od': "sh c = Some od'" using tree_shapeD(5) [OF tree] by blast
          then have c: "c \<noteq> new" using new by auto
          have same: "s_ns cd = s_ns od'" "s_units cd = s_units od'" "s_val cd = s_val od'"
            using keep [OF od'] below_step(3) by auto
          from below_step.IH c have "below ps ns' sh c a b \<or>
            (ns' = ns \<and> (\<exists>us1 vs1 m. walk ns sh c p us1 vs1 \<and> m \<le> length us \<and> ps dvd m \<and>
             a = us1 @ take m us \<and> b = vs1 @ take m v))" by blast
          then show "below ps ns' sh n (s_units cd @ a) (w @ b) \<or>
            (ns' = ns \<and> (\<exists>us1 vs1 m. walk ns sh n p us1 vs1 \<and> m \<le> length us \<and> ps dvd m \<and>
             s_units cd @ a = us1 @ take m us \<and> w @ b = vs1 @ take m v))"
          proof
            assume "below ps ns' sh c a b"
            then show ?thesis
              using below.below_step [OF od od'] below_step(4,5) same by simp
          next
            assume "ns' = ns \<and> (\<exists>us1 vs1 m. walk ns sh c p us1 vs1 \<and> m \<le> length us \<and> ps dvd m \<and>
             a = us1 @ take m us \<and> b = vs1 @ take m v)"
            then obtain us1 vs1 m where w: "ns' = ns" "walk ns sh c p us1 vs1" "m \<le> length us" "ps dvd m"
              "a = us1 @ take m us" "b = vs1 @ take m v" by blast
            have "walk ns sh n p (s_units cd @ us1) (w @ vs1)"
              using walk.walk_step [OF od od', of ns w p us1 vs1] below_step(4,5) same w by simp
            then show ?thesis using w by fastforce
          qed
        qed
      qed
    qed
    then show "?L \<Longrightarrow> ?R" using n by blast
  qed
qed

lemma walk_leaf:
  assumes l: "leaf_place ps r new p ns us v sh"
  shows "walk ns' sh n m a b \<Longrightarrow> walk ns' (shape_leaf ps new p ns us v sh) n m a b"
    and "walk ns sh n p a b \<Longrightarrow> walk ns (shape_leaf ps new p ns us v sh) n new (a @ us) (b @ v)"
proof -
  obtain pd where new: "sh new = None" and pd: "sh p = Some pd" "page_key ps ns us \<notin> fst ` set (s_children pd)"
    and ne: "new \<noteq> p" by (rule leafE [OF l]) blast
  let ?S = "shape_leaf ps new p ns us v sh"
  note ap = shape_leaf_apply [where sh = sh and p = p and pd = pd and new = new, OF pd(1) ne pd(2), of v]
  have keep: "\<exists>nd. ?S n = Some nd \<and> s_ns nd = s_ns od \<and> s_units nd = s_units od \<and>
      s_val nd = s_val od \<and> set (s_children od) \<subseteq> set (s_children nd)" if "sh n = Some od" for n od
    using that new pd by (auto simp: ap)
  show mono: "walk ns' sh n m a b \<Longrightarrow> walk ns' ?S n m a b" for ns' n m a b
  proof (induction rule: walk.induct)
    case (walk_step n nd k c cd w m a b)
    obtain nd' cd' where "?S n = Some nd'" "(k, c) \<in> set (s_children nd')" "?S c = Some cd'"
      "s_ns cd' = s_ns cd" "s_units cd' = s_units cd" "s_val cd' = s_val cd"
      using keep [OF walk_step(1)] keep [OF walk_step(3)] walk_step(2) by auto
    then show ?case using walk.walk_step [of ?S n nd' k c cd'] walk_step by simp
  qed (rule walk.walk_here)
  have sp: "?S p = Some (pd\<lparr>s_children := s_children pd @ [(page_key ps ns us, new)]\<rparr>)"
    and snew: "?S new = Some \<lparr>s_children = [], s_parent = Some p, s_ns = ns, s_units = us, s_val = Some v, s_lock = 0\<rparr>"
    using ne by (simp_all add: ap)
  have "walk ns ?S p new us v"
    using walk.walk_step [of ?S p "pd\<lparr>s_children := s_children pd @ [(page_key ps ns us, new)]\<rparr>" "page_key ps ns us" new
      "\<lparr>s_children = [], s_parent = Some p, s_ns = ns, s_units = us, s_val = Some v, s_lock = 0\<rparr>" ns v new "[]" "[]"]
      sp snew walk.walk_here [of ns ?S new] by simp
  then show "walk ns sh n p a b \<Longrightarrow> walk ns ?S n new (a @ us) (b @ v)"
    using mono walk_append by blast
qed

section \<open>Removing a leaf\<close>

definition leaf_of :: "nat \<Rightarrow> nat \<Rightarrow> nat \<Rightarrow> nat \<Rightarrow> shape \<Rightarrow> bool" where
  "leaf_of ps r x p sh \<longleftrightarrow> tree_shape ps r sh \<and> x \<noteq> r \<and>
     (\<exists>xd. sh x = Some xd \<and> s_parent xd = Some p \<and> s_children xd = [])"

lemma leaf_ofE:
  assumes "leaf_of ps r x p sh"
  obtains xd pd where "tree_shape ps r sh" "x \<noteq> r" "sh x = Some xd" "s_parent xd = Some p" "s_children xd = []"
    "sh p = Some pd" "(snode_ckey ps xd, x) \<in> set (s_children pd)" "p \<noteq> x"
    "\<And>y. shape_delete ps x p sh y = (if y = x then None
       else if y = p then Some (pd\<lparr>s_children := AList.delete (snode_ckey ps xd) (s_children pd)\<rparr>) else sh y)"
proof -
  from assms obtain xd where x: "tree_shape ps r sh" "x \<noteq> r" "sh x = Some xd" "s_parent xd = Some p" "s_children xd = []"
    by (auto simp: leaf_of_def)
  from tree_shapeD(6) [OF x(1,3,2)] x(4) obtain pd where
    p: "sh p = Some pd" "(snode_ckey ps xd, x) \<in> set (s_children pd)" by auto
  have "p \<noteq> x" using p x by auto
  then show ?thesis using that x p by (simp add: shape_delete_def)
qed

lemma shape_delete_tree:
  assumes l: "leaf_of ps r x p sh"
  shows "tree_shape ps r (shape_delete ps x p sh)"
proof -
  let ?S = "shape_delete ps x p sh"
  obtain xd pd where tree: "tree_shape ps r sh" and x: "x \<noteq> r" "sh x = Some xd" "s_parent xd = Some p" "s_children xd = []"
    and pd: "sh p = Some pd" "(snode_ckey ps xd, x) \<in> set (s_children pd)" "p \<noteq> x"
    and ap: "\<And>y. ?S y = (if y = x then None
       else if y = p then Some (pd\<lparr>s_children := AList.delete (snode_ckey ps xd) (s_children pd)\<rparr>) else sh y)"
    by (rule leaf_ofE [OF l]) blast
  have old: "y \<noteq> x \<and> (\<exists>od. sh y = Some od \<and> s_parent nd = s_parent od \<and> s_ns nd = s_ns od \<and> s_units nd = s_units od \<and>
      s_val nd = s_val od \<and> (s_children nd = s_children od \<or> y = p \<and> od = pd \<and> s_children nd = AList.delete (snode_ckey ps xd) (s_children pd)))"
    if "?S y = Some nd" for y nd
    using that pd by (auto simp: ap split: if_splits)
  have keep: "\<exists>nd. ?S y = Some nd \<and> s_parent nd = s_parent od \<and> s_ns nd = s_ns od \<and> s_units nd = s_units od \<and> s_val nd = s_val od \<and>
      (\<forall>k c. (k, c) \<in> set (s_children od) \<longrightarrow> c \<noteq> x \<longrightarrow> (k, c) \<in> set (s_children nd))" if "sh y = Some od" "y \<noteq> x" for y od
  proof (cases "y = p")
    case True
    have "k \<noteq> snode_ckey ps xd" if "(k, c) \<in> set (s_children pd)" "c \<noteq> x" for k c
      using child_unique(2) [OF tree pd(1) pd(2) x(2)] map_of_is_SomeI [OF tree_shapeD(3) [OF tree pd(1)] that(1)] that(2) by auto
    then show ?thesis using True that pd by (auto simp: ap set_alist_delete)
  next
    case False
    then show ?thesis using that by (simp add: ap)
  qed
  show ?thesis
  proof (rule tree_shapeI)
    show "0 < ps" by (rule tree_shapeD(1) [OF tree])
    show "\<exists>rd. ?S r = Some rd \<and> root_ok rd"
    proof -
      obtain rd where "sh r = Some rd" "root_ok rd" using tree_shapeD(2) [OF tree] by blast
      then show ?thesis using keep [of r rd] x(1) by (auto simp: root_ok_def)
    qed
    obtain d :: "nat \<Rightarrow> nat" where "\<And>n nd p. sh n = Some nd \<Longrightarrow> s_parent nd = Some p \<Longrightarrow> d p < d n"
      by (rule parent_rank [OF tree]) blast
    then have "\<forall>n nd q. ?S n = Some nd \<longrightarrow> s_parent nd = Some q \<longrightarrow> d q < d n" using old by metis
    then show "\<exists>d :: nat \<Rightarrow> nat. \<forall>n nd q. ?S n = Some nd \<longrightarrow> s_parent nd = Some q \<longrightarrow> d q < d n" by (rule exI [of _ d])
  next
    fix n nd assume n: "?S n = Some nd"
    then show "distinct (map fst (s_children nd))"
      using old [OF n] tree_shapeD(3) [OF tree] distinct_delete [OF tree_shapeD(3) [OF tree pd(1)]] by auto
  next
    fix n nd assume n: "?S n = Some nd" "n \<noteq> r"
    then show "snode_ok ps nd"
      using old [OF n(1)] tree_shapeD(4) [OF tree _ n(2)] by (auto simp: snode_ok_def)
  next
    fix n nd k c assume n: "?S n = Some nd" "(k, c) \<in> set (s_children nd)"
    obtain od where od: "n \<noteq> x" "sh n = Some od" "(k, c) \<in> set (s_children od)" and nx: "n = p \<longrightarrow> k \<noteq> snode_ckey ps xd"
    proof (cases "n = p")
      case True
      then have "(k, c) \<in> set (AList.delete (snode_ckey ps xd) (s_children pd))" using n pd(3) by (auto simp: ap)
      then show ?thesis using that [of pd] True pd by (simp add: set_alist_delete)
    next
      case False
      then show ?thesis using that [of nd] n by (auto simp: ap split: if_splits)
    qed
    then obtain cd where cd: "c \<noteq> r" "sh c = Some cd" "s_parent cd = Some n" "k = snode_ckey ps cd"
      using tree_shapeD(5) [OF tree] by blast
    have "c \<noteq> x" using cd nx x by auto
    then show "c \<noteq> r \<and> (\<exists>cd. ?S c = Some cd \<and> s_parent cd = Some n \<and> k = snode_ckey ps cd)"
      using keep [OF cd(2)] cd by auto
  next
    fix n nd assume n: "?S n = Some nd" "n \<noteq> r"
    obtain od where od: "n \<noteq> x" "sh n = Some od" "s_parent nd = s_parent od" "s_ns nd = s_ns od" "s_units nd = s_units od"
      using old [OF n(1)] by auto
    obtain q qd where q: "s_parent od = Some q" "sh q = Some qd" "(snode_ckey ps od, n) \<in> set (s_children qd)"
      "q \<noteq> r \<longrightarrow> s_ns qd = s_ns od"
      using tree_shapeD(6) [OF tree od(2) n(2)] by blast
    have "q \<noteq> x" using q x by auto
    then show "\<exists>q qd. s_parent nd = Some q \<and> ?S q = Some qd \<and> (snode_ckey ps nd, n) \<in> set (s_children qd) \<and> (q \<noteq> r \<longrightarrow> s_ns qd = s_ns nd)"
      using keep [OF q(2)] q od by auto
  qed
qed

lemma below_delete:
  assumes l: "leaf_of ps r x p sh"
  shows "below ps ns (shape_delete ps x p sh) n us vs \<Longrightarrow> below ps ns sh n us vs"
proof (induction rule: below.induct)
  have old: "\<exists>od. sh y = Some od \<and> s_ns nd = s_ns od \<and> s_units nd = s_units od \<and>
      s_val nd = s_val od \<and> set (s_children nd) \<subseteq> set (s_children od)"
    if "shape_delete ps x p sh y = Some nd" for y nd
    using that by - (rule leaf_ofE [OF l], auto simp: set_alist_delete split: if_splits)
  {
    case (below_part n nd k c cd w m)
    obtain od od' where "sh n = Some od" "(k, c) \<in> set (s_children od)" "sh c = Some od'"
      "s_ns cd = s_ns od'" "s_units cd = s_units od'" "s_val cd = s_val od'"
      using old [OF below_part(1)] old [OF below_part(3)] below_part(2) by auto
    then show ?case using below.below_part [of sh n od k c od'] below_part by simp
  next
    case (below_step n nd k c cd w a b)
    obtain od od' where "sh n = Some od" "(k, c) \<in> set (s_children od)" "sh c = Some od'"
      "s_ns cd = s_ns od'" "s_units cd = s_units od'" "s_val cd = s_val od'"
      using old [OF below_step(1)] old [OF below_step(3)] below_step(2) by auto
    then show ?case using below.below_step [of sh n od k c od'] below_step by simp
  }
qed (rule below.below_here)

lemma walk_delete:
  assumes l: "leaf_of ps r x p sh"
  shows "walk ns sh n m us vs \<Longrightarrow> m \<noteq> x \<Longrightarrow> n \<noteq> x \<and> walk ns (shape_delete ps x p sh) n m us vs"
proof (induction rule: walk.induct)
  case (walk_here n)
  then show ?case by (simp add: walk.walk_here)
next
  case (walk_step n nd k c cd w m us vs)
  let ?S = "shape_delete ps x p sh"
  obtain xd pd where tree: "tree_shape ps r sh" and x: "sh x = Some xd" "s_children xd = []"
    and pd: "sh p = Some pd" "(snode_ckey ps xd, x) \<in> set (s_children pd)" "p \<noteq> x"
    and ap: "\<And>y. ?S y = (if y = x then None
       else if y = p then Some (pd\<lparr>s_children := AList.delete (snode_ckey ps xd) (s_children pd)\<rparr>) else sh y)"
    by (rule leaf_ofE [OF l]) blast
  have n: "n \<noteq> x" using walk_step(1,2) x by auto
  have c: "c \<noteq> x" "walk ns ?S c m us vs" using walk_step by auto
  have "k \<noteq> snode_ckey ps xd" if "n = p"
    using child_unique(2) [OF tree pd(1,2) x(1)] child_unique(2) [OF tree walk_step(1-3)] that walk_step(1) pd(1) c(1) by auto
  then obtain nd' where "?S n = Some nd'" "(k, c) \<in> set (s_children nd')"
    using walk_step(1,2) n pd by (cases "n = p") (auto simp: ap set_alist_delete)
  moreover obtain cd' where "?S c = Some cd'" "s_ns cd' = s_ns cd" "s_units cd' = s_units cd" "s_val cd' = s_val cd"
    using walk_step(3) c pd by (cases "c = p") (auto simp: ap)
  ultimately show ?case using n c walk.walk_step [of ?S n nd' k c cd'] walk_step(4,5) by simp
qed

end
