(* ===== verification/RadixAccount.thy ===== *)
theory RadixAccount
  imports RadixEdit AllocatorFree
begin

text \<open>
  The books the cache keeps beside the tree: lock counts, the evictable and the protected size,
  the set of evictable leaves, and the pages the nodes own. All of them are sums or sets over
  the nodes of a shape; this theory says how splits, new leaves, removed leaves and lock
  changes move them.
\<close>

section \<open>Sums over a finite map\<close>

definition fsum :: "(nat \<Rightarrow> 'v \<Rightarrow> 'a::comm_monoid_add) \<Rightarrow> (nat \<rightharpoonup> 'v) \<Rightarrow> 'a" where
  "fsum w m = (\<Sum>n \<in> dom m. w n (the (m n)))"

lemma fsum_split: "finite (dom m) \<Longrightarrow> m x = Some a \<Longrightarrow> fsum w m = w x a + fsum w (m(x := None))"
proof -
  assume f: "finite (dom m)" and x: "m x = Some a"
  have "fsum w m = w x a + (\<Sum>n \<in> dom m - {x}. w n (the (m n)))"
    unfolding fsum_def using sum.remove [OF f, of x "\<lambda>n. w n (the (m n))"] x by auto
  also have "(\<Sum>n \<in> dom m - {x}. w n (the (m n))) = fsum w (m(x := None))"
    unfolding fsum_def by (rule sum.cong) auto
  finally show ?thesis .
qed

lemma fsum_new: "finite (dom m) \<Longrightarrow> m x = None \<Longrightarrow> fsum w (m(x \<mapsto> a)) = w x a + fsum w m"
  using fsum_split [of "m(x \<mapsto> a)" x a w] by (simp add: fun_upd_idem)

lemma fsum_change: "finite (dom m) \<Longrightarrow> m x = Some a \<Longrightarrow> fsum w (m(x \<mapsto> b)) + w x a = fsum w m + w x b"
  using fsum_split [of m x a w] fsum_split [of "m(x \<mapsto> b)" x b w] by (simp add: ac_simps)

lemma fsum_same: "finite (dom m) \<Longrightarrow> m x = Some a \<Longrightarrow> w x b = w x a \<Longrightarrow> fsum w (m(x \<mapsto> b)) = fsum w m"
  using fsum_split [of m x a w] fsum_split [of "m(x \<mapsto> b)" x b w] by simp

section \<open>The books\<close>

text \<open>
  The lock count of a node is the number of handles held on it plus the counts of its children;
  \<open>H\<close> gives the handles. The root carries a lock of its own.
\<close>

abbreviation child_locks :: "shape \<Rightarrow> snode \<Rightarrow> int" where
  "child_locks sh nd \<equiv> (\<Sum>kc \<leftarrow> s_children nd. s_lock (the (sh (snd kc))))"

definition lock_inv :: "nat \<Rightarrow> (nat \<Rightarrow> int) \<Rightarrow> shape \<Rightarrow> bool" where
  "lock_inv r H sh \<longleftrightarrow>
     (\<exists>rd. sh r = Some rd \<and> s_lock rd = 1) \<and>
     (\<forall>n. sh n = None \<longrightarrow> H n = 0) \<and>
     (\<forall>n nd. sh n = Some nd \<longrightarrow> n \<noteq> r \<longrightarrow> 0 \<le> s_lock nd \<and> s_lock nd = H n + child_locks sh nd)"

definition size_of :: "(int \<Rightarrow> bool) \<Rightarrow> nat \<Rightarrow> shape \<Rightarrow> int" where
  "size_of P r = fsum (\<lambda>n nd. if n \<noteq> r \<and> P (s_lock nd) then int (length (s_units nd)) else 0)"

definition free_leaves :: "nat \<Rightarrow> shape \<Rightarrow> nat set" where
  "free_leaves r sh = {n. n \<noteq> r \<and> (\<exists>nd. sh n = Some nd \<and> s_lock nd = 0 \<and> s_children nd = [])}"

definition pages_seq :: "nat \<Rightarrow> int list \<Rightarrow> int list" where
  "pages_seq ps v = map (\<lambda>j. v ! (j * ps) div int ps) [0..<length v div ps]"

definition page_run :: "nat \<Rightarrow> int list \<Rightarrow> bool" where
  "page_run ps v \<longleftrightarrow> v = concat (map (page_slots ps) (pages_seq ps v))"

definition node_pages :: "nat \<Rightarrow> snode \<Rightarrow> int multiset" where
  "node_pages ps nd = (case s_val nd of None \<Rightarrow> {#} | Some v \<Rightarrow> mset (pages_seq ps v))"

definition tree_pages :: "nat \<Rightarrow> shape \<Rightarrow> int multiset" where
  "tree_pages ps = fsum (\<lambda>n. node_pages ps)"

definition runs_ok :: "nat \<Rightarrow> shape \<Rightarrow> bool" where
  "runs_ok ps sh \<longleftrightarrow> (\<forall>n nd v. sh n = Some nd \<longrightarrow> s_val nd = Some v \<longrightarrow> page_run ps v)"

section \<open>Splitting\<close>

lemma split_as_updates:
  assumes "splittable ps r new c p m sh" "sh c = Some cd" "sh p = Some pd"
  shows "shape_split ps new c p m sh =
    ((sh(new \<mapsto> cd\<lparr>s_children := [(page_key ps (s_ns cd) (drop m (s_units cd)), c)], s_parent := Some p,
                    s_units := take m (s_units cd), s_val := map_option (take m) (s_val cd)\<rparr>))
      (c \<mapsto> cd\<lparr>s_parent := Some new, s_units := drop m (s_units cd), s_val := map_option (drop m) (s_val cd)\<rparr>))
      (p \<mapsto> pd\<lparr>s_children := AList.update (snode_ckey ps cd) new (s_children pd)\<rparr>)"
proof -
  have "new \<noteq> c" "new \<noteq> p" "p \<noteq> c" by (rule splitE [OF assms(1)]; simp)+
  then show ?thesis by (intro ext) (simp add: shape_split_apply [OF assms(2,3)])
qed

lemma fsum_shape_split:
  assumes s: "splittable ps r new c p m sh" and f: "finite (dom sh)" and cd: "sh c = Some cd"
    and w: "w new (cd\<lparr>s_children := [(page_key ps (s_ns cd) (drop m (s_units cd)), c)], s_parent := Some p,
                    s_units := take m (s_units cd), s_val := map_option (take m) (s_val cd)\<rparr>) +
            w c (cd\<lparr>s_parent := Some new, s_units := drop m (s_units cd), s_val := map_option (drop m) (s_val cd)\<rparr>) = w c cd"
    and wp: "\<And>n nd cs. w n (nd\<lparr>s_children := cs\<rparr>) = w n nd"
  shows "fsum w (shape_split ps new c p m sh) = (fsum w sh :: 'a :: cancel_comm_monoid_add)"
proof -
  obtain pd where pd: "sh p = Some pd" and ne: "new \<noteq> c" "new \<noteq> p" "p \<noteq> c" by (rule splitE [OF s])
  have new: "sh new = None" using s by (simp add: splittable_def)
  let ?top = "cd\<lparr>s_children := [(page_key ps (s_ns cd) (drop m (s_units cd)), c)], s_parent := Some p,
                    s_units := take m (s_units cd), s_val := map_option (take m) (s_val cd)\<rparr>"
  let ?bot = "cd\<lparr>s_parent := Some new, s_units := drop m (s_units cd), s_val := map_option (drop m) (s_val cd)\<rparr>"
  let ?s1 = "sh(new \<mapsto> ?top)" and ?s2 = "sh(new \<mapsto> ?top, c \<mapsto> ?bot)"
  have f1: "finite (dom ?s1)" "finite (dom ?s2)" using f by simp_all
  have "fsum w (shape_split ps new c p m sh) = fsum w ?s2"
    unfolding split_as_updates [OF s cd pd] by (rule fsum_same [OF f1(2), of p pd]) (use pd ne wp in auto)
  also have "fsum w ?s2 + w c cd = fsum w ?s1 + w c ?bot"
    by (rule fsum_change [OF f1(1)]) (use cd ne in simp)
  then have "fsum w ?s2 + w c cd = fsum w sh + w c cd"
    using fsum_new [OF f new, of w ?top] w by (simp add: ac_simps)
  then have "fsum w ?s2 = fsum w sh" by simp
  finally show ?thesis .
qed

lemma pages_seq_take_drop:
  assumes "0 < ps" "ps dvd m"
  shows "pages_seq ps (take m v) = take (m div ps) (pages_seq ps v)"
    "m \<le> length v \<Longrightarrow> pages_seq ps (drop m v) = drop (m div ps) (pages_seq ps v)"
proof -
  obtain q where q: "m = q * ps" using assms(2) by (metis dvd_def mult.commute)
  have "length (take m v) div ps = min q (length v div ps)"
  proof (cases "length v \<le> m")
    case True
    then have "length v div ps \<le> q" using assms(1) q by (metis div_le_mono div_mult_self_is_m)
    then show ?thesis using True by simp
  next
    case False
    then have "q \<le> length v div ps" using q assms(1) by (simp add: less_eq_div_iff_mult_less_eq)
    then show ?thesis using False q assms(1) by (simp add: min_def)
  qed
  moreover have "j * ps < m" if "j < q" for j using that q assms(1) by simp
  ultimately show "pages_seq ps (take m v) = take (m div ps) (pages_seq ps v)"
    using q assms(1) by (auto simp: pages_seq_def intro!: nth_equalityI)
  assume le: "m \<le> length v"
  have "(length v - m) div ps = length v div ps - q" using q assms(1) le
    by (metis div_mult_self3 add.commute diff_add_inverse le_add_diff_inverse mult.commute not_less_zero)
  then show "pages_seq ps (drop m v) = drop (m div ps) (pages_seq ps v)"
    using q assms(1) le by (auto simp: pages_seq_def drop_map intro!: nth_equalityI) (simp add: add.commute distrib_right)
qed

lemma pages_seq_whole: "0 < ps \<Longrightarrow> pages_seq ps (concat (map (page_slots ps) qs)) = qs"
proof (induction qs)
  case (Cons q qs)
  let ?v = "concat (map (page_slots ps) (q # qs))" and ?w = "concat (map (page_slots ps) qs)"
  have l: "length ?v = ps + length ?w" "length (page_slots ps q) = ps" by (simp_all add: page_slots_def)
  have "pages_seq ps (take ps ?v) = take 1 (pages_seq ps ?v)" "pages_seq ps (drop ps ?v) = drop 1 (pages_seq ps ?v)"
    using pages_seq_take_drop [of ps ps ?v] Cons.prems l by simp_all
  moreover have "take ps ?v = page_slots ps q" "drop ps ?v = ?w" using l by simp_all
  moreover have "pages_seq ps (page_slots ps q) = [q]"
    using Cons.prems l(2) by (simp add: pages_seq_def) (simp add: page_slots_def)
  ultimately have "take 1 (pages_seq ps ?v) = [q]" "drop 1 (pages_seq ps ?v) = qs" using Cons by auto
  then show ?case by (metis append_Cons append_Nil append_take_drop_id)
qed (simp add: pages_seq_def)

lemma page_run_append: "0 < ps \<Longrightarrow> page_run ps u \<Longrightarrow> page_run ps v \<Longrightarrow> page_run ps (u @ v)"
  unfolding page_run_def by (metis concat_append map_append pages_seq_whole)

lemma page_run_take_drop:
  assumes "0 < ps" "ps dvd m" "page_run ps v"
  shows "page_run ps (take m v)" "page_run ps (drop m v)"
proof -
  let ?qs = "pages_seq ps v"
  have v: "v = concat (map (page_slots ps) ?qs)" using assms(3) by (simp add: page_run_def)
  obtain q where q: "m = q * ps" using assms(2) by (metis dvd_def mult.commute)
  have c: "v = concat (map (page_slots ps) (take q ?qs)) @ concat (map (page_slots ps) (drop q ?qs))"
    using v by (metis append_take_drop_id concat_append map_append)
  have "take m v = concat (map (page_slots ps) (take q ?qs)) \<and> drop m v = concat (map (page_slots ps) (drop q ?qs))"
  proof (cases "q \<le> length ?qs")
    case True
    then have "length (concat (map (page_slots ps) (take q ?qs))) = m" by (simp add: length_concat_page_slots q)
    then show ?thesis using c by (metis append_eq_conv_conj)
  next
    case False
    then have "length v \<le> m" using length_concat_page_slots [of ps ?qs] v q by (metis mult_le_mono1 nat_le_linear)
    then show ?thesis using False v by simp
  qed
  then show "page_run ps (take m v)" "page_run ps (drop m v)"
    using pages_seq_whole [OF assms(1)] by (simp_all add: page_run_def)
qed

lemma length_page_run: "page_run ps v \<Longrightarrow> length v = length (pages_seq ps v) * ps"
  using length_concat_page_slots [of ps "pages_seq ps v"] by (metis page_run_def)

lemma slot_pages_run:
  assumes "0 < ps" "page_run ps v"
  shows "slot_pages ps v = set (pages_seq ps v)"
  using slot_pages_concat assms by (metis page_run_def)

definition leaf_mark :: "bool \<Rightarrow> nat \<Rightarrow> nat set \<Rightarrow> nat set" where
  "leaf_mark b n lv = (if b then insert n lv else lv - {n})"

lemma free_leaves_update:
  "free_leaves r (sh(x \<mapsto> a)) = leaf_mark (x \<noteq> r \<and> s_lock a = 0 \<and> s_children a = []) x (free_leaves r sh)"
  by (auto simp: free_leaves_def leaf_mark_def)

lemma free_leaves_remove: "free_leaves r (sh(x := None)) = free_leaves r sh - {x}"
  by (auto simp: free_leaves_def)

definition books ::
  "nat \<Rightarrow> (nat \<Rightarrow> int) \<Rightarrow> shape \<Rightarrow> int \<Rightarrow> int \<Rightarrow> nat set \<Rightarrow> bool" where
  "books r H sh ev pr lv \<longleftrightarrow>
     finite (dom sh) \<and> lock_inv r H sh \<and> ev = size_of (\<lambda>l. l = 0) r sh \<and> pr = size_of (\<lambda>l. l > 0) r sh \<and>
     lv = free_leaves r sh"

lemma sum_alist_update:
  fixes f :: "'b \<Rightarrow> int"
  assumes "distinct (map fst xs)" "(k, c) \<in> set xs" "f d = f c"
  shows "(\<Sum>kc \<leftarrow> AList.update k d xs. f (snd kc)) = (\<Sum>kc \<leftarrow> xs. f (snd kc))"
  using assms(1,2)
proof (induction xs)
  case (Cons x xs)
  show ?case
  proof (cases "fst x = k")
    case True
    then have "x = (k, c)" using Cons.prems by (cases x) (auto simp: image_iff)
    then show ?thesis using assms(3) by simp
  next
    case False
    then show ?thesis using Cons by (cases x) auto
  qed
qed simp

lemma sum_alist_delete:
  fixes f :: "'b \<Rightarrow> int"
  assumes "distinct (map fst xs)" "(k, c) \<in> set xs"
  shows "(\<Sum>kc \<leftarrow> AList.delete k xs. f (snd kc)) = (\<Sum>kc \<leftarrow> xs. f (snd kc)) - f c"
  using assms
proof (induction xs)
  case (Cons x xs)
  show ?case
  proof (cases "fst x = k")
    case True
    then have x: "x = (k, c)" and "k \<notin> fst ` set xs" using Cons.prems by (cases x; auto simp: image_iff)+
    then have "AList.delete k xs = xs" by (induction xs) (auto simp: AList.delete_eq)
    then show ?thesis using x by (simp add: AList.delete_eq)
  next
    case False
    then show ?thesis using Cons by (cases x) (auto simp: AList.delete_eq)
  qed
qed simp

lemma lock_invD:
  assumes "lock_inv r H sh"
  shows "\<exists>rd. sh r = Some rd \<and> s_lock rd = 1" "sh n = None \<Longrightarrow> H n = 0"
    "sh n = Some nd \<Longrightarrow> n \<noteq> r \<Longrightarrow> 0 \<le> s_lock nd"
    "sh n = Some nd \<Longrightarrow> n \<noteq> r \<Longrightarrow> s_lock nd = H n + child_locks sh nd"
  using assms unfolding lock_inv_def by blast+

text \<open>Counts of children depend only on the lock counts of the nodes listed.\<close>

lemma child_locks_cong:
  "(\<And>k c. (k, c) \<in> set cs \<Longrightarrow> s_lock (the (sh' c)) = s_lock (the (sh c))) \<Longrightarrow>
   (\<Sum>kc \<leftarrow> cs. s_lock (the (sh' (snd kc)))) = (\<Sum>kc \<leftarrow> cs. s_lock (the (sh (snd kc))))"
  by (rule arg_cong [where f = sum_list], rule map_cong) auto

lemma lock_inv_split:
  assumes s: "splittable ps r new c p m sh" and l: "lock_inv r H sh"
  shows "lock_inv r H (shape_split ps new c p m sh)"
proof -
  obtain cd pd where cd: "sh c = Some cd" and pd: "sh p = Some pd" and ck: "(snode_ckey ps cd, c) \<in> set (s_children pd)"
    and ne: "new \<noteq> c" "new \<noteq> p" "new \<noteq> r" "p \<noteq> c" by (rule splitE [OF s])
  have tree: "tree_shape ps r sh" and new: "sh new = None" and c: "c \<noteq> r" using s by (auto simp: splittable_def)
  let ?S = "shape_split ps new c p m sh"
  note ap = shape_split_apply [where sh = sh and c = c and cd = cd and p = p and pd = pd and new = new, OF cd pd ne(1,2,4)]
  have L: "s_lock (the (?S x)) = s_lock (the (sh x))" if "x \<noteq> new" for x
    using that cd pd by (simp add: ap)
  have Lnew: "s_lock (the (?S new)) = s_lock cd" by (simp add: ap)
  have old: "c' \<noteq> new" if "sh n = Some nd" "(k, c') \<in> set (s_children nd)" for n nd k c'
    using tree_shapeD(5) [OF tree that] new by auto
  have cl: "(\<Sum>kc \<leftarrow> s_children nd. s_lock (the (?S (snd kc)))) = child_locks sh nd" if "sh n = Some nd" for n nd
    by (rule child_locks_cong) (use L old [OF that] in blast)
  show ?thesis
    unfolding lock_inv_def
  proof (intro conjI allI impI)
    obtain rd where rd: "sh r = Some rd" "s_lock rd = 1" using lock_invD(1) [OF l] by blast
    then show "\<exists>rd. ?S r = Some rd \<and> s_lock rd = 1" using ne c pd by (auto simp: ap)
  next
    fix n assume "?S n = None"
    then have "sh n = None" using pd by (auto simp: ap split: if_splits)
    then show "H n = 0" by (rule lock_invD(2) [OF l])
  next
    fix n nd assume n: "?S n = Some nd" "n \<noteq> r"
    have "s_lock nd = s_lock (the (?S n))" using n by simp
    then show "0 \<le> s_lock nd"
      using L Lnew lock_invD(3) [OF l cd c] lock_invD(3) [OF l _ n(2)] n pd cd
      by (cases "n = new") (auto simp: ap split: if_splits)
  next
    fix n nd assume n: "?S n = Some nd" "n \<noteq> r"
    consider "n = new" | "n = c" | "n = p" | "n \<noteq> new" "n \<noteq> c" "n \<noteq> p" by blast
    then show "s_lock nd = H n + child_locks ?S nd"
    proof cases
      case 1
      then have "s_children nd = [(page_key ps (s_ns cd) (drop m (s_units cd)), c)]" "s_lock nd = s_lock cd"
        using n by (auto simp: ap)
      then show ?thesis using 1 L [of c] ne cd lock_invD(2) [OF l new] by simp
    next
      case 2
      then have "s_children nd = s_children cd" "s_lock nd = s_lock cd" using n ne by (auto simp: ap)
      then show ?thesis using 2 cl [OF cd] lock_invD(4) [OF l cd c] by simp
    next
      case 3
      then have nd: "s_children nd = AList.update (snode_ckey ps cd) new (s_children pd)" "s_lock nd = s_lock pd"
        using n ne by (auto simp: ap)
      have "child_locks ?S nd = (\<Sum>kc \<leftarrow> s_children pd. s_lock (the (?S (snd kc))))"
        unfolding nd(1)
        using sum_alist_update [OF tree_shapeD(3) [OF tree pd] ck, of "\<lambda>x. s_lock (the (?S x))" new] L [of c] Lnew ne cd
        by simp
      then show ?thesis using 3 nd cl [OF pd] lock_invD(4) [OF l pd] n by simp
    next
      case 4
      then have "sh n = Some nd" using n by (auto simp: ap)
      then show ?thesis using cl lock_invD(4) [OF l _ n(2)] by simp
    qed
  qed
qed

lemma free_leaves_split:
  assumes s: "splittable ps r new c p m sh"
  shows "free_leaves r (shape_split ps new c p m sh) = free_leaves r sh"
proof -
  obtain cd pd where cd: "sh c = Some cd" and pd: "sh p = Some pd" and ck: "(snode_ckey ps cd, c) \<in> set (s_children pd)"
    and ne: "new \<noteq> c" "new \<noteq> p" "new \<noteq> r" "p \<noteq> c" by (rule splitE [OF s])
  have new: "new \<notin> free_leaves r sh" "c \<noteq> r" using s by (auto simp: splittable_def free_leaves_def)
  have "AList.update (snode_ckey ps cd) new (s_children pd) \<noteq> []" using in_alist_update by (metis empty_iff empty_set)
  moreover have "p \<notin> free_leaves r sh" using ck pd by (auto simp: free_leaves_def)
  ultimately show ?thesis
    unfolding split_as_updates [OF s cd pd] free_leaves_update using new cd
    by (auto simp: leaf_mark_def free_leaves_def)
qed

lemma finite_split: "splittable ps r new c p m sh \<Longrightarrow> finite (dom sh) \<Longrightarrow> finite (dom (shape_split ps new c p m sh))"
proof -
  assume s: "splittable ps r new c p m sh" and f: "finite (dom sh)"
  obtain cd pd where "sh c = Some cd" "sh p = Some pd" by (rule splitE [OF s])
  then show ?thesis unfolding split_as_updates [OF s \<open>sh c = Some cd\<close> \<open>sh p = Some pd\<close>] using f by simp
qed

lemma books_split:
  assumes s: "splittable ps r new c p m sh" and b: "books r H sh ev pr lv"
  shows "books r H (shape_split ps new c p m sh) ev pr lv"
proof -
  obtain cd where cd: "sh c = Some cd" and ne: "new \<noteq> c" "new \<noteq> r" by (rule splitE [OF s])
  have c: "c \<noteq> r" and m: "m < length (s_units cd)" using s cd by (auto simp: splittable_def)
  have f: "finite (dom sh)" using b by (simp add: books_def)
  have "size_of P r (shape_split ps new c p m sh) = size_of P r sh" for P
    unfolding size_of_def by (rule fsum_shape_split [OF s f cd]) (use ne c m in auto)
  then show ?thesis
    using b finite_split [OF s f] lock_inv_split [OF s] free_leaves_split [OF s] by (simp add: books_def)
qed

section \<open>A new leaf\<close>

lemma leaf_as_updates:
  assumes "leaf_place ps r new p ns us v sh" "sh p = Some pd"
  shows "shape_leaf ps new p ns us v sh =
    (sh(new \<mapsto> \<lparr>s_children = [], s_parent = Some p, s_ns = ns, s_units = us, s_val = Some v, s_lock = 0\<rparr>))
      (p \<mapsto> pd\<lparr>s_children := s_children pd @ [(page_key ps ns us, new)]\<rparr>)"
proof -
  have "new \<noteq> p" "page_key ps ns us \<notin> fst ` set (s_children pd)"
    using assms(2) by (rule_tac [!] leafE [OF assms(1)]) auto
  then show ?thesis by (intro ext) (simp add: shape_leaf_apply [where sh = sh and p = p and pd = pd, OF assms(2)])
qed

lemma fsum_shape_leaf:
  assumes l: "leaf_place ps r new p ns us v sh" and f: "finite (dom sh)"
    and wp: "\<And>n nd cs. w n (nd\<lparr>s_children := cs\<rparr>) = w n nd"
  shows "fsum w (shape_leaf ps new p ns us v sh) =
    w new \<lparr>s_children = [], s_parent = Some p, s_ns = ns, s_units = us, s_val = Some v, s_lock = 0\<rparr> + fsum w sh"
proof -
  obtain pd where pd: "sh p = Some pd" and new: "sh new = None" and ne: "new \<noteq> p" by (rule leafE [OF l]) blast
  let ?s1 = "sh(new \<mapsto> \<lparr>s_children = [], s_parent = Some p, s_ns = ns, s_units = us, s_val = Some v, s_lock = 0\<rparr>)"
  have "fsum w (shape_leaf ps new p ns us v sh) = fsum w ?s1"
    unfolding leaf_as_updates [OF l pd] by (rule fsum_same [of _ p pd]) (use f pd ne wp in auto)
  then show ?thesis using fsum_new [OF f new] by simp
qed

lemma lock_inv_leaf:
  assumes l: "leaf_place ps r new p ns us v sh" and i: "lock_inv r H sh"
  shows "lock_inv r H (shape_leaf ps new p ns us v sh)"
proof -
  obtain pd where tree: "tree_shape ps r sh" and new: "sh new = None" and pd: "sh p = Some pd"
    and ne: "new \<noteq> p" "new \<noteq> r" by (rule leafE [OF l]) blast
  let ?S = "shape_leaf ps new p ns us v sh"
  note up = leaf_as_updates [OF l pd]
  have L: "s_lock (the (?S x)) = (if x = new then 0 else s_lock (the (sh x)))" for x
    using pd ne by (simp add: up)
  have cl: "(\<Sum>kc \<leftarrow> s_children nd. s_lock (the (?S (snd kc)))) = child_locks sh nd" if "sh n = Some nd" for n nd
    by (rule child_locks_cong) (use L new tree_shapeD(5) [OF tree that] in force)
  show ?thesis
    unfolding lock_inv_def
  proof (intro conjI allI impI)
    obtain rd where rd: "sh r = Some rd" "s_lock rd = 1" using lock_invD(1) [OF i] by blast
    then show "\<exists>rd. ?S r = Some rd \<and> s_lock rd = 1" using ne pd by (auto simp: up)
  next
    fix n assume "?S n = None"
    then have "sh n = None" using pd by (auto simp: up split: if_splits)
    then show "H n = 0" by (rule lock_invD(2) [OF i])
  next
    fix n nd assume n: "?S n = Some nd" "n \<noteq> r"
    then have "s_lock nd = (if n = new then 0 else s_lock (the (sh n)))" using L [of n] by simp
    moreover have "n = new \<or> (\<exists>od. sh n = Some od)" using n(1) pd by (auto simp: up split: if_splits)
    ultimately show "0 \<le> s_lock nd" using lock_invD(3) [OF i _ n(2)] by auto
  next
    fix n nd assume n: "?S n = Some nd" "n \<noteq> r"
    show "s_lock nd = H n + child_locks ?S nd"
    proof (cases "n = p")
      case True
      then have nd: "nd = pd\<lparr>s_children := s_children pd @ [(page_key ps ns us, new)]\<rparr>" using n by (simp add: up)
      then show ?thesis using cl [OF pd] L [of new] lock_invD(4) [OF i pd] n True by simp
    next
      case False
      then show ?thesis
        using n lock_invD(2) [OF i new] lock_invD(4) [OF i _ n(2)] cl by (cases "n = new") (auto simp: up)
    qed
  qed
qed

lemma books_leaf:
  assumes l: "leaf_place ps r new p ns us v sh" and b: "books r H sh ev pr lv"
  shows "books r H (shape_leaf ps new p ns us v sh) (ev + int (length us)) pr (leaf_mark True new (leaf_mark False p lv))"
proof -
  obtain pd where pd: "sh p = Some pd" and ne: "new \<noteq> r" "new \<noteq> p" by (rule leafE [OF l]) blast
  have f: "finite (dom sh)" using b by (simp add: books_def)
  have z: "size_of P r (shape_leaf ps new p ns us v sh) = (if P 0 then int (length us) else 0) + size_of P r sh" for P
    unfolding size_of_def using ne by (subst fsum_shape_leaf [OF l f]) auto
  have "free_leaves r (shape_leaf ps new p ns us v sh) = leaf_mark True new (leaf_mark False p (free_leaves r sh))"
    unfolding leaf_as_updates [OF l pd] free_leaves_update using ne by (auto simp: leaf_mark_def)
  then show ?thesis
    using b z lock_inv_leaf [OF l] f by (simp add: books_def leaf_as_updates [OF l pd])
qed

section \<open>Removing a leaf\<close>

lemma delete_as_updates:
  assumes "leaf_of ps r x p sh" "sh x = Some xd" "sh p = Some pd"
  shows "shape_delete ps x p sh =
    (sh(p \<mapsto> pd\<lparr>s_children := AList.delete (snode_ckey ps xd) (s_children pd)\<rparr>))(x := None)"
  using assms by (simp add: shape_delete_def)

lemma fsum_shape_delete:
  assumes l: "leaf_of ps r x p sh" and f: "finite (dom sh)" and xd: "sh x = Some xd"
    and wp: "\<And>n nd cs. w n (nd\<lparr>s_children := cs\<rparr>) = w n nd"
  shows "fsum w sh = w x xd + fsum w (shape_delete ps x p sh)"
proof -
  obtain pd where pd: "sh p = Some pd" and ne: "p \<noteq> x" by (rule leaf_ofE [OF l]) blast
  let ?s1 = "sh(p \<mapsto> pd\<lparr>s_children := AList.delete (snode_ckey ps xd) (s_children pd)\<rparr>)"
  have "fsum w sh = fsum w ?s1" by (rule sym, rule fsum_same [OF f pd]) (simp add: wp)
  also have "\<dots> = w x xd + fsum w (?s1(x := None))" by (rule fsum_split) (use f xd ne in auto)
  finally show ?thesis by (simp add: delete_as_updates [OF l xd pd])
qed

lemma lock_inv_delete:
  assumes l: "leaf_of ps r x p sh" and i: "lock_inv r H sh" and x0: "sh x = Some xd" "s_lock xd = 0"
  shows "lock_inv r H (shape_delete ps x p sh)" "H x = 0"
proof -
  obtain pd where tree: "tree_shape ps r sh" and x: "x \<noteq> r" "s_children xd = []" "s_parent xd = Some p"
    and pd: "sh p = Some pd" "(snode_ckey ps xd, x) \<in> set (s_children pd)" and ne: "p \<noteq> x"
    by (rule leaf_ofE [OF l]) (use x0 in auto)
  show hx: "H x = 0" using lock_invD(4) [OF i x0(1) x(1)] x x0(2) by simp
  let ?S = "shape_delete ps x p sh"
  note up = delete_as_updates [OF l x0(1) pd(1)]
  have L: "s_lock (the (?S y)) = s_lock (the (sh y))" if "y \<noteq> x" for y
    using pd that by (simp add: up)
  have cl: "(\<Sum>kc \<leftarrow> s_children nd. s_lock (the (?S (snd kc)))) = child_locks sh nd" if "sh n = Some nd" "n \<noteq> p" for n nd
    by (rule child_locks_cong) (use L tree_shapeD(5) [OF tree that(1)] x0 x(3) that(2) in force)
  show "lock_inv r H ?S"
    unfolding lock_inv_def
  proof (intro conjI allI impI)
    obtain rd where rd: "sh r = Some rd" "s_lock rd = 1" using lock_invD(1) [OF i] by blast
    then show "\<exists>rd. ?S r = Some rd \<and> s_lock rd = 1" using x pd by (auto simp: up)
  next
    fix n assume "?S n = None"
    then have "n = x \<or> sh n = None" using pd by (auto simp: up split: if_splits)
    then show "H n = 0" using lock_invD(2) [OF i] hx by blast
  next
    fix n nd assume n: "?S n = Some nd" "n \<noteq> r"
    have "n \<noteq> x" using n by (auto simp: up)
    then show "0 \<le> s_lock nd"
      using n lock_invD(3) [OF i _ n(2)] pd by (auto simp: up split: if_splits)
  next
    fix n nd assume n: "?S n = Some nd" "n \<noteq> r"
    have nx: "n \<noteq> x" using n by (auto simp: up)
    show "s_lock nd = H n + child_locks ?S nd"
    proof (cases "n = p")
      case True
      let ?cs = "AList.delete (snode_ckey ps xd) (s_children pd)"
      have nd: "nd = pd\<lparr>s_children := ?cs\<rparr>" using n True ne by (simp add: up)
      have "(\<Sum>kc \<leftarrow> ?cs. s_lock (the (?S (snd kc)))) = (\<Sum>kc \<leftarrow> ?cs. s_lock (the (sh (snd kc))))"
      proof (rule child_locks_cong)
        fix k c assume "(k, c) \<in> set ?cs"
        then have kc: "(k, c) \<in> set (s_children pd)" "k \<noteq> snode_ckey ps xd" by (auto simp: set_alist_delete)
        have "c \<noteq> x" using tree_shapeD(5) [OF tree pd(1) kc(1)] kc(2) x0 by auto
        then show "s_lock (the (?S c)) = s_lock (the (sh c))" by (rule L)
      qed
      also have "\<dots> = child_locks sh pd"
        using sum_alist_delete [OF tree_shapeD(3) [OF tree pd(1)] pd(2), of "\<lambda>c. s_lock (the (sh c))"] x0 by simp
      finally show ?thesis using nd lock_invD(4) [OF i pd(1)] n True by simp
    next
      case False
      then have "sh n = Some nd" using n nx by (simp add: up)
      then show ?thesis using cl [OF _ False] lock_invD(4) [OF i _ n(2)] by simp
    qed
  qed
qed

lemma books_delete:
  assumes l: "leaf_of ps r x p sh" and b: "books r H sh ev pr lv" and x0: "sh x = Some xd" "s_lock xd = 0"
    and pd: "shape_delete ps x p sh p = Some pd"
  shows "books r H (shape_delete ps x p sh) (ev - int (length (s_units xd))) pr
    (leaf_mark (p \<noteq> r \<and> s_lock pd = 0 \<and> s_children pd = []) p (lv - {x}))"
proof -
  obtain pd0 where pd0: "sh p = Some pd0" and ne: "p \<noteq> x" "x \<noteq> r" by (rule leaf_ofE [OF l]) blast
  have f: "finite (dom sh)" using b by (simp add: books_def)
  note up = delete_as_updates [OF l x0(1) pd0]
  have z: "size_of P r (shape_delete ps x p sh) = size_of P r sh - (if P 0 then int (length (s_units xd)) else 0)" for P
    using fsum_shape_delete [OF l f x0(1), of "\<lambda>n nd. if n \<noteq> r \<and> P (s_lock nd) then int (length (s_units nd)) else 0"] ne x0
    by (simp add: size_of_def)
  have pd': "pd = pd0\<lparr>s_children := AList.delete (snode_ckey ps xd) (s_children pd0)\<rparr>" using pd up ne by simp
  have "free_leaves r (shape_delete ps x p sh) = leaf_mark (p \<noteq> r \<and> s_lock pd = 0 \<and> s_children pd = []) p (free_leaves r sh - {x})"
    unfolding up free_leaves_remove free_leaves_update pd' using ne by (auto simp: leaf_mark_def)
  then show ?thesis
    using b z lock_inv_delete(1) [OF l _ x0] f by (simp add: books_def up)
qed

section \<open>Changing a lock count\<close>

lemma lock_inv_bump:
  assumes tree: "tree_shape ps r sh" and i: "lock_inv r H sh" and x: "sh x = Some xd" "x \<noteq> r" "s_parent xd = Some p"
    and d: "0 \<le> s_lock xd + d"
  shows "lock_inv r ((H(x := H x + d))(p := H p - d)) (sh(x \<mapsto> xd\<lparr>s_lock := s_lock xd + d\<rparr>))"
proof -
  obtain pd where pd: "sh p = Some pd" "(snode_ckey ps xd, x) \<in> set (s_children pd)"
    using tree_shapeD(6) [OF tree x(1,2)] x(3) by auto
  obtain rk :: "nat \<Rightarrow> nat" where rk: "\<And>n nd p. sh n = Some nd \<Longrightarrow> s_parent nd = Some p \<Longrightarrow> rk p < rk n"
    by (rule parent_rank [OF tree]) blast
  have px: "p \<noteq> x" using rk [OF x(1,3)] by auto
  let ?S = "sh(x \<mapsto> xd\<lparr>s_lock := s_lock xd + d\<rparr>)"
  let ?H = "(H(x := H x + d))(p := H p - d)"
  have cl: "(\<Sum>kc \<leftarrow> s_children nd. s_lock (the (?S (snd kc)))) = child_locks sh nd" if "sh n = Some nd" "n \<noteq> p" for n nd
    by (rule child_locks_cong) (use tree_shapeD(5) [OF tree that(1)] x that(2) in force)
  have clp: "(\<Sum>kc \<leftarrow> s_children pd. s_lock (the (?S (snd kc)))) = child_locks sh pd + d"
  proof -
    have del: "(\<Sum>kc \<leftarrow> AList.delete (snode_ckey ps xd) (s_children pd). s_lock (the (?S (snd kc))))
      = (\<Sum>kc \<leftarrow> AList.delete (snode_ckey ps xd) (s_children pd). s_lock (the (sh (snd kc))))"
    proof (rule child_locks_cong)
      fix k c assume "(k, c) \<in> set (AList.delete (snode_ckey ps xd) (s_children pd))"
      then have kc: "(k, c) \<in> set (s_children pd)" "k \<noteq> snode_ckey ps xd" by (auto simp: set_alist_delete)
      have "c \<noteq> x" using tree_shapeD(5) [OF tree pd(1) kc(1)] kc(2) x by auto
      then show "s_lock (the (?S c)) = s_lock (the (sh c))" by simp
    qed
    show ?thesis
      using del sum_alist_delete [OF tree_shapeD(3) [OF tree pd(1)] pd(2), of "\<lambda>c. s_lock (the (sh c))"]
        sum_alist_delete [OF tree_shapeD(3) [OF tree pd(1)] pd(2), of "\<lambda>c. s_lock (the (?S c))"] x by simp
  qed
  show ?thesis
    unfolding lock_inv_def
  proof (intro conjI allI impI)
    show "\<exists>rd. ?S r = Some rd \<and> s_lock rd = 1" using lock_invD(1) [OF i] x by auto
  next
    fix n assume "?S n = None"
    then have "n \<noteq> x" "sh n = None" "n \<noteq> p" using pd by (auto split: if_splits)
    then show "?H n = 0" using lock_invD(2) [OF i] by simp
  next
    fix n nd assume n: "?S n = Some nd" "n \<noteq> r"
    then show "0 \<le> s_lock nd" using d lock_invD(3) [OF i _ n(2)] by (cases "n = x") auto
  next
    fix n nd assume n: "?S n = Some nd" "n \<noteq> r"
    consider "n = x" | "n = p" | "n \<noteq> x" "n \<noteq> p" by blast
    then show "s_lock nd = ?H n + child_locks ?S nd"
    proof cases
      case 1
      then show ?thesis using n cl [OF x(1)] px lock_invD(4) [OF i x(1,2)] by auto
    next
      case 2
      then show ?thesis using n clp px pd lock_invD(4) [OF i pd(1)] by auto
    next
      case 3
      then show ?thesis using n cl [of n nd] lock_invD(4) [OF i _ n(2)] by auto
    qed
  qed
qed

lemma books_bump:
  assumes tree: "tree_shape ps r sh" and b: "books r H sh ev pr lv"
    and x: "sh x = Some xd" "x \<noteq> r" "s_parent xd = Some p" and d: "0 \<le> s_lock xd + d"
  shows "books r ((H(x := H x + d))(p := H p - d)) (sh(x \<mapsto> xd\<lparr>s_lock := s_lock xd + d\<rparr>))
    (ev - (if s_lock xd = 0 then int (length (s_units xd)) else 0) + (if s_lock xd + d = 0 then int (length (s_units xd)) else 0))
    (pr - (if s_lock xd > 0 then int (length (s_units xd)) else 0) + (if s_lock xd + d > 0 then int (length (s_units xd)) else 0))
    (leaf_mark (s_lock xd + d = 0 \<and> s_children xd = []) x lv)"
proof -
  have f: "finite (dom sh)" using b by (simp add: books_def)
  have "size_of P r (sh(x \<mapsto> xd\<lparr>s_lock := s_lock xd + d\<rparr>)) =
      size_of P r sh - (if P (s_lock xd) then int (length (s_units xd)) else 0)
        + (if P (s_lock xd + d) then int (length (s_units xd)) else 0)" for P
    using fsum_change [OF f x(1), of "\<lambda>n nd. if n \<noteq> r \<and> P (s_lock nd) then int (length (s_units nd)) else 0"
        "xd\<lparr>s_lock := s_lock xd + d\<rparr>"] x(2)
    by (cases "P (s_lock xd)"; cases "P (s_lock xd + d)"; simp add: size_of_def)
  then show ?thesis
    using b lock_inv_bump [OF tree _ x d] f x(2) by (simp add: books_def free_leaves_update)
qed

section \<open>Pages\<close>

lemma node_pages_children [simp]: "node_pages ps (nd\<lparr>s_children := cs\<rparr>) = node_pages ps nd"
  by (simp add: node_pages_def)

lemma tree_pages_split:
  assumes s: "splittable ps r new c p m sh" and f: "finite (dom sh)"
  shows "tree_pages ps (shape_split ps new c p m sh) = tree_pages ps sh"
proof -
  obtain cd v where cd: "sh c = Some cd" "s_val cd = Some v" "length v = length (s_units cd)" by (rule splitE [OF s])
  have m: "m \<le> length v" "0 < ps" "ps dvd m" using s cd by (auto simp: splittable_def dest: tree_shapeD(1))
  have "mset (pages_seq ps (take m v)) + mset (pages_seq ps (drop m v)) = mset (pages_seq ps v)"
    using pages_seq_take_drop [OF m(2,3), of v] m(1) by (metis append_take_drop_id mset_append)
  then show ?thesis
    unfolding tree_pages_def by (intro fsum_shape_split [OF s f cd(1)]) (auto simp: node_pages_def cd(2))
qed

lemma runs_ok_split:
  assumes s: "splittable ps r new c p m sh" and r: "runs_ok ps sh"
  shows "runs_ok ps (shape_split ps new c p m sh)"
proof -
  obtain cd pd v where cd: "sh c = Some cd" "s_val cd = Some v" and pd: "sh p = Some pd"
    and ne: "new \<noteq> c" "new \<noteq> p" "p \<noteq> c" by (rule splitE [OF s])
  have m: "0 < ps" "ps dvd m" using s by (auto simp: splittable_def dest: tree_shapeD(1))
  have "page_run ps v" using r cd by (auto simp: runs_ok_def)
  then show ?thesis
    using r pd cd(2) page_run_take_drop [OF m] unfolding runs_ok_def split_as_updates [OF s cd(1) pd] by auto
qed

lemma tree_pages_leaf:
  assumes l: "leaf_place ps r new p ns us v sh" and f: "finite (dom sh)"
  shows "tree_pages ps (shape_leaf ps new p ns us v sh) = mset (pages_seq ps v) + tree_pages ps sh"
  unfolding tree_pages_def by (subst fsum_shape_leaf [OF l f]) (simp_all add: node_pages_def)

lemma runs_ok_leaf:
  assumes l: "leaf_place ps r new p ns us v sh" and r: "runs_ok ps sh" "page_run ps v"
  shows "runs_ok ps (shape_leaf ps new p ns us v sh)"
proof -
  obtain pd where pd: "sh p = Some pd" by (rule leafE [OF l]) blast
  then show ?thesis using r unfolding runs_ok_def leaf_as_updates [OF l pd] by auto
qed

lemma tree_pages_delete:
  assumes l: "leaf_of ps r x p sh" and f: "finite (dom sh)" and x: "sh x = Some xd" "s_val xd = Some v"
  shows "tree_pages ps sh = mset (pages_seq ps v) + tree_pages ps (shape_delete ps x p sh)"
  unfolding tree_pages_def by (subst fsum_shape_delete [OF l f x(1)]) (simp_all add: node_pages_def x)

lemma runs_ok_delete:
  assumes l: "leaf_of ps r x p sh" and r: "runs_ok ps sh"
  shows "runs_ok ps (shape_delete ps x p sh)"
proof -
  obtain xd pd where "sh x = Some xd" "sh p = Some pd" by (rule leaf_ofE [OF l]) blast
  then show ?thesis using r unfolding runs_ok_def delete_as_updates [OF l \<open>sh x = Some xd\<close> \<open>sh p = Some pd\<close>] by auto
qed

end
