(* ===== verification/KvEventFacts.thy ===== *)
theory KvEventFacts
  imports KvEvents
begin

text \<open>
  What the event stream tells a consumer. Replaying the queue from a set of block identifiers
  gives the blocks announced and not yet removed; merging an event into the tail of the queue
  is invisible to the replay, and storing or removing a node adds or takes exactly the blocks
  of its pages.
\<close>

section \<open>Specification\<close>

text \<open>One hash per page, each of them readable as a block identifier.\<close>

definition good_hashes :: "nat \<Rightarrow> string list \<Rightarrow> bool" where
  "good_hashes k hs \<longleftrightarrow> length hs = k \<and> list_all (\<lambda>h. is_ok (hash_str_to_int64 h)) hs"

definition hash_laws :: "'e hash_env_scheme \<Rightarrow> bool" where
  "hash_laws E \<longleftrightarrow> (\<forall>k prior ps. 0 < ps \<longrightarrow> good_hashes (ceil_div (key_len k) ps) (page_hashes E k prior ps))"

definition node_hashes_ok :: "nat \<Rightarrow> tree_node \<Rightarrow> bool" where
  "node_hashes_ok ps nd \<longleftrightarrow>
     (\<exists>hs. hash_value nd = Some hs \<and> good_hashes (key_len (key nd) div ps) hs) \<and>
     (cache_salt (key nd) \<noteq> None \<longrightarrow> (\<exists>hs. event_hash_value nd = Some hs \<and> good_hashes (key_len (key nd) div ps) hs))"

text \<open>The block identifiers a node has been announced under, and those of the whole tree.\<close>

definition block_id :: "string \<Rightarrow> int" where
  "block_id h = (case hash_str_to_int64 h of Inl _ \<Rightarrow> 0 | Inr i \<Rightarrow> i)"

definition event_hashes :: "tree_node \<Rightarrow> string list" where
  "event_hashes nd =
     (case (if cache_salt (key nd) \<noteq> None then event_hash_value nd else hash_value nd) of None \<Rightarrow> [] | Some hs \<Rightarrow> hs)"

primrec replay_event :: "kv_event \<Rightarrow> int multiset \<Rightarrow> int multiset" where
  "replay_event (BlockStored b) M = M + mset (block_hashes b)"
| "replay_event (BlockRemoved hs m) M = M - mset hs"
| "replay_event AllBlocksCleared M = {#}"

definition replay :: "kv_event list \<Rightarrow> int multiset \<Rightarrow> int multiset" where
  "replay q M = fold replay_event q M"

section \<open>Hash lists\<close>

lemma node_hashes_ok_upd [simp]:
  "node_hashes_ok ps (nd\<lparr>children := cs\<rparr>) = node_hashes_ok ps nd"
  "node_hashes_ok ps (nd\<lparr>lock_ref := l\<rparr>) = node_hashes_ok ps nd"
  "node_hashes_ok ps (nd\<lparr>last_access_time := t\<rparr>) = node_hashes_ok ps nd"
  "node_hashes_ok ps (nd\<lparr>priority := pr\<rparr>) = node_hashes_ok ps nd"
  "node_hashes_ok ps (nd\<lparr>hit_count := h\<rparr>) = node_hashes_ok ps nd"
  by (simp_all add: node_hashes_ok_def)

lemma dvd_diff_div:
  fixes a m ps :: nat
  assumes "ps dvd a" "ps dvd m"
  shows "(a - m) div ps = a div ps - m div ps"
proof -
  obtain i j where "a = ps * i" "m = ps * j" using assms by (auto elim!: dvdE)
  then show ?thesis by (cases "ps = 0") (simp_all add: diff_mult_distrib2 [symmetric])
qed

lemma good_hashes_split:
  assumes "ps dvd l" "ps dvd m" "m \<le> l" "good_hashes (l div ps) hs"
  shows "good_hashes (m div ps) (take (m div ps) hs)" "good_hashes ((l - m) div ps) (drop (m div ps) hs)"
  using assms(3,4) div_le_mono [OF assms(3), of ps] unfolding dvd_diff_div [OF assms(1,2)]
  by (auto simp: good_hashes_def list_all_iff dest: in_set_takeD in_set_dropD)

lemma block_id_ok: "is_ok (hash_str_to_int64 h) \<Longrightarrow> hash_str_to_int64 h = Inr (block_id h)"
  by (auto simp: block_id_def is_ok_def split: sum.splits)

section \<open>The queue\<close>

lemma replay_coalesce: "coalesce t e = Some x \<Longrightarrow> replay_event x M = replay_event e (replay_event t M)"
  by (auto simp: coalesce_def split: kv_event.splits if_splits)

lemma replay_enqueue: "replay (enqueue e q) M = replay_event e (replay q M)"
proof (cases "q = []")
  case False
  then have "replay q M = replay_event (last q) (replay (butlast q) M)"
    using append_butlast_last_id [OF False] unfolding replay_def by (metis comp_apply fold_append fold_simps(1) fold_simps(2))
  then show ?thesis
    using False replay_coalesce by (auto simp: enqueue_def replay_def split: option.splits)
qed (simp add: enqueue_def replay_def)

lemma store_pages_replay:
  assumes "list_all (\<lambda>i. i < key_len (key nd)) starts" "0 < ps" "i + length starts \<le> length hs"
    and "list_all (\<lambda>h. is_ok (hash_str_to_int64 h)) hs"
  shows "\<exists>q'. store_pages nd m ps hs starts i ph q = Inr q' \<and>
    replay q' M = replay q M + mset (map block_id (take (length starts) (drop i hs)))"
  using assms
proof (induction starts arbitrary: i ph q)
  case (Cons a starts)
  let ?e = "min (a + ps) (key_len (key nd))"
  have a: "\<not> ?e \<le> a" and i: "i < length hs" using Cons.prems by auto
  have h: "hash_str_to_int64 (hs ! i) = Inr (block_id (hs ! i))"
    using Cons.prems(4) i by (intro block_id_ok) (simp add: list_all_length)
  let ?b = "BlockStored \<lparr>block_hashes = [block_id (hs ! i)], parent_block_hash = ph,
      event_token_ids = take (?e - a) (drop a (key_iter (key nd))),
      block_size = length (take (?e - a) (drop a (key_iter (key nd)))), lora_id = None, medium = m, metadata = cache_salt (key nd)\<rparr>"
  obtain q' where q': "store_pages nd m ps hs starts (i + 1) (Some (block_id (hs ! i))) (enqueue ?b q) = Inr q'"
    "replay q' M = replay (enqueue ?b q) M + mset (map block_id (take (length starts) (drop (i + 1) hs)))"
    using Cons.IH [of "i + 1" "Some (block_id (hs ! i))" "enqueue ?b q"] Cons.prems by auto
  have "drop i hs = hs ! i # drop (i + 1) hs" using i by (simp add: Cons_nth_drop_Suc)
  then show ?case using a i h q' by (auto simp: py_nth_def Let_def replay_enqueue)
qed simp

lemma removed_hashes_ids:
  assumes "list_all (\<lambda>i. i < len) starts" "0 < ps" "i + length starts \<le> length hs"
    and "list_all (\<lambda>h. is_ok (hash_str_to_int64 h)) hs"
  shows "removed_hashes ps len hs starts i = Inr (map block_id (take (length starts) (drop i hs)))"
  using assms
proof (induction starts arbitrary: i)
  case (Cons a starts)
  have a: "\<not> min (a + ps) len \<le> a" and i: "i < length hs" using Cons.prems by auto
  have h: "hash_str_to_int64 (hs ! i) = Inr (block_id (hs ! i))"
    using Cons.prems(4) i by (intro block_id_ok) (simp add: list_all_length)
  have "drop i hs = hs ! i # drop (i + 1) hs" using i by (simp add: Cons_nth_drop_Suc)
  then show ?case using a i h Cons.IH [of "i + 1"] Cons.prems by (auto simp: py_nth_def)
qed simp

lemma page_starts_facts:
  assumes "0 < ps"
  shows "length (page_starts len ps) = ceil_div len ps" "list_all (\<lambda>i. i < len) (page_starts len ps)"
  by (auto simp: page_starts_def list_all_iff less_ceil_div [OF assms])

lemma ceil_div_dvd: "0 < k \<Longrightarrow> k dvd m \<Longrightarrow> ceil_div m k = m div k"
  using ceil_div_add_mult [of k "m div k" 0] by simp

section \<open>Recording\<close>

lemma node_hashes_known:
  assumes "st n = Some nd" "node_hashes_ok ps nd"
  shows "node_event_hash_values E fuel ps' st n = Inr (event_hashes nd, st)"
    "good_hashes (key_len (key nd) div ps) (event_hashes nd)"
  using assms by (auto simp: node_hashes_ok_def node_event_hash_values_def compute_node_event_hash_values_def event_hashes_def
      of_option_def split: option.splits)

lemma record_remove_facts:
  assumes r: "enabled r" "ev_page_size r = ps" "0 < ps" and nd: "st n = Some nd" "node_hashes_ok ps nd"
    and dv: "ps dvd key_len (key nd)"
  shows "\<exists>r'. record_remove E fuel st r n None = Inr (st, r') \<and> enabled r' = enabled r \<and> ev_page_size r' = ps \<and>
    replay (queue r') M = replay (queue r) M - mset (map block_id (event_hashes nd))"
proof -
  note k = node_hashes_known [of st, OF nd]
  have "removed_hashes ps (key_len (key nd)) (event_hashes nd) (page_starts (key_len (key nd)) ps) 0 = Inr (map block_id (event_hashes nd))"
    using removed_hashes_ids [OF page_starts_facts(2) [OF r(3), of "key_len (key nd)"] r(3), where i = 0 and hs = "event_hashes nd"] k(2)
    by (simp add: page_starts_facts(1) [OF r(3)] ceil_div_dvd [OF r(3) dv] good_hashes_def)
  then show ?thesis
    using r nd k(1) [of E fuel ps] by (auto simp: record_remove_def Let_def replay_enqueue)
qed

text \<open>A new leaf: its hashes are computed from the last hash of its parent.\<close>

definition parent_hashed :: "nat \<Rightarrow> tree_node \<Rightarrow> tree_node \<Rightarrow> bool" where
  "parent_hashed ps pd nd \<longleftrightarrow>
     (if parent pd = None then key_len (key pd) = 0 \<and> event_hash_value pd = None
      else 0 < key_len (key pd) \<and> 0 < key_len (key pd) div ps \<and> node_hashes_ok ps pd \<and> cache_salt (key pd) = cache_salt (key nd))"

lemma hash_laws_get:
  "hash_laws E \<Longrightarrow> 0 < ps \<Longrightarrow> ps dvd key_len k \<Longrightarrow> good_hashes (key_len k div ps) (get_hash_str E k prior ps)"
  by (auto simp: hash_laws_def get_hash_str_def ceil_div_dvd [symmetric])

lemma new_node_hashes:
  assumes laws: "hash_laws E" "0 < ps" and nd: "st n = Some nd" "hash_value nd = None" "event_hash_value nd = None"
    and p: "parent nd = Some p" "st p = Some pd" "p \<noteq> n" "parent_hashed ps pd nd"
    and len: "0 < key_len (key nd)" "ps dvd key_len (key nd)" "2 \<le> fuel"
  shows "\<exists>hs es nd'. node_event_hash_values E fuel ps st n = Inr (event_hashes nd', st(n \<mapsto> nd')) \<and>
    nd' = nd\<lparr>hash_value := Some hs, event_hash_value := es\<rparr> \<and> node_hashes_ok ps nd'"
proof -
  obtain hs where hs: "compute_node_hash_values E st nd ps = Inr hs" "good_hashes (key_len (key nd) div ps) hs"
    using p(1,2) hash_laws_get [OF laws len(2)] by (auto simp: compute_node_hash_values_def)
  let ?st1 = "st(n \<mapsto> nd\<lparr>hash_value := Some hs\<rparr>)"
  have st1: "set_node st n (\<lambda>nd. nd\<lparr>hash_value := Some hs\<rparr>) = ?st1" using nd by (simp add: set_node_def)
  show ?thesis
  proof (cases "cache_salt (key nd)")
    case None
    have upd: "nd\<lparr>hash_value := Some hs, event_hash_value := None\<rparr> = nd\<lparr>hash_value := Some hs\<rparr>" using nd(3) by (cases nd) simp
    show ?thesis
      using None nd hs st1
      by (intro exI [of _ hs] exI [of _ None]) (simp add: upd node_event_hash_values_def event_hashes_def node_hashes_ok_def of_option_def)
  next
    case (Some salt)
    have walk: "missing_walk fuel ?st1 (Some salt) [] (Some n) = Inr ([n], Some p)"
    proof -
      obtain f where f: "fuel = Suc (Suc f)" using len(3) by (metis add_2_eq_Suc le_Suc_ex)
      have "\<not> (key_len (key pd) > 0 \<and> event_hash_value pd = None)"
        using p(4) Some by (auto simp: parent_hashed_def node_hashes_ok_def split: if_splits)
      then show ?thesis using f Some len(1) nd p by auto
    qed
    define ph where "ph = (case event_hash_value pd of Some hs \<Rightarrow> if hs \<noteq> [] then last hs else salt_digest E salt | None \<Rightarrow> salt_digest E salt)"
    have ph: "(if key_len (key pd) > 0 \<and> cache_salt (key pd) \<noteq> Some salt then Inl ValueError
        else case event_hash_value pd of Some hs \<Rightarrow> if hs \<noteq> [] then Inr (last hs) else Inr (salt_digest E salt)
             | None \<Rightarrow> Inr (salt_digest E salt)) = Inr ph"
      using p(4) Some by (auto simp: parent_hashed_def ph_def split: if_splits option.splits)
    let ?es = "get_hash_str E (key nd) (Some ph) ps"
    have es: "good_hashes (key_len (key nd) div ps) ?es" by (rule hash_laws_get [OF laws len(2)])
    let ?nd = "nd\<lparr>hash_value := Some hs, event_hash_value := Some ?es\<rparr>"
    have "compute_node_event_hash_values E fuel ?st1 n ps = Inr (?es, st(n \<mapsto> ?nd))"
      using Some nd walk ph p by (simp add: compute_node_event_hash_values_def set_node_def)
    then have "node_event_hash_values E fuel ps st n = Inr (event_hashes ?nd, st(n \<mapsto> ?nd))"
      using nd hs(1) st1 Some by (simp add: node_event_hash_values_def event_hashes_def)
    moreover have "node_hashes_ok ps ?nd" using hs(2) es by (simp add: node_hashes_ok_def)
    ultimately show ?thesis by blast
  qed
qed

lemma record_store_facts:
  assumes laws: "hash_laws E" "0 < ps" and r: "enabled r" "ev_page_size r = ps"
    and nd: "st n = Some nd" "hash_value nd = None" "event_hash_value nd = None"
    and p: "parent nd = Some p" "st p = Some pd" "p \<noteq> n" "parent_hashed ps pd nd"
    and len: "0 < key_len (key nd)" "ps dvd key_len (key nd)" "2 \<le> fuel"
  shows "\<exists>hs es nd' r'. record_store E fuel st r n None = Inr (st(n \<mapsto> nd'), r') \<and>
    nd' = nd\<lparr>hash_value := Some hs, event_hash_value := es\<rparr> \<and> node_hashes_ok ps nd' \<and>
    enabled r' = enabled r \<and> ev_page_size r' = ps \<and>
    replay (queue r') M = replay (queue r) M + mset (map block_id (event_hashes nd'))"
proof -
  obtain hs es nd' where h: "node_event_hash_values E fuel ps st n = Inr (event_hashes nd', st(n \<mapsto> nd'))"
    "nd' = nd\<lparr>hash_value := Some hs, event_hash_value := es\<rparr>" "node_hashes_ok ps nd'"
    using new_node_hashes [OF laws, of st, OF nd p len] by blast
  have k: "key nd' = key nd" "parent nd' = Some p" using h(2) p(1) by simp_all
  have good: "good_hashes (key_len (key nd) div ps) (event_hashes nd')"
    using node_hashes_known(2) [of "st(n \<mapsto> nd')" n nd' ps] h(3) k by simp
  have "is_ok (parent_block_hash_of (st(n \<mapsto> nd')) n)"
  proof (cases "parent pd = None")
    case True
    then show ?thesis using p k by (simp add: parent_block_hash_of_def is_ok_def)
  next
    case False
    then have ok: "node_hashes_ok ps pd" "0 < key_len (key pd) div ps" "cache_salt (key pd) = cache_salt (key nd)"
      using p(4) by (simp_all add: parent_hashed_def)
    have g: "good_hashes (key_len (key pd) div ps) (event_hashes pd)" by (rule node_hashes_known(2) [of st p, OF p(2) ok(1)])
    then have ne: "event_hashes pd \<noteq> []" using ok(2) by (auto simp: good_hashes_def)
    then have h: "hash_str_to_int64 (last (event_hashes pd)) = Inr (block_id (last (event_hashes pd)))"
      using g by (intro block_id_ok) (simp add: good_hashes_def list_all_iff)
    have "(if cache_salt (key nd) \<noteq> None then case event_hash_value pd of None \<Rightarrow> Inl AssertionError | Some hs \<Rightarrow> Inr hs
        else Inr (case hash_value pd of None \<Rightarrow> [] | Some hs \<Rightarrow> hs)) = Inr (event_hashes pd)"
      using ok by (auto simp: event_hashes_def node_hashes_ok_def)
    then show ?thesis using False p k h ne by (simp add: parent_block_hash_of_def is_ok_def)
  qed
  then obtain ph where ph: "parent_block_hash_of (st(n \<mapsto> nd')) n = Inr ph" by (rule is_okE)
  obtain q where q: "store_pages nd' GPU ps (event_hashes nd') (page_starts (key_len (key nd')) ps) 0 ph (queue r) = Inr q"
    "replay q M = replay (queue r) M + mset (map block_id (event_hashes nd'))"
    using store_pages_replay [OF page_starts_facts(2) [OF laws(2), of "key_len (key nd')"] laws(2), where i = 0 and hs = "event_hashes nd'" and m = GPU and ph = ph and q = "queue r" and M = M] good
    by (auto simp: page_starts_facts(1) [OF laws(2)] ceil_div_dvd [OF laws(2)] len k good_hashes_def)
  show ?thesis
    by (intro exI [of _ hs] exI [of _ es] exI [of _ nd'] exI [of _ "r\<lparr>queue := q\<rparr>"])
      (use r h ph q in \<open>simp add: record_store_def\<close>)
qed

end
