(* ===== verification/RadixInv.thy ===== *)
theory RadixInv
  imports RadixAccount KvEventFacts
begin

text \<open>
  The invariant of the radix cache on the code's own state, and that the internal steps of the
  operations keep it: splitting a node, adding a leaf, removing a leaf and changing a lock
  count are the changes of shape of the theories below, and everything else an operation
  writes (times, counters, priorities, hashes) leaves the shape alone.
\<close>

section \<open>Invariants\<close>

abbreviation shape :: "radix_cache \<Rightarrow> shape" where
  "shape s \<equiv> shape_of (nodes s)"

definition keys_ok :: "radix_cache \<Rightarrow> bool" where
  "keys_ok s \<longleftrightarrow> (\<forall>n nd. nodes s n = Some nd \<longrightarrow> key_ok (key nd) \<and> (n \<noteq> root_node s \<longrightarrow> is_bigram (key nd) = is_eagle s))"

text \<open>\<open>H\<close> counts the handles held on each node. Inside a lock loop it may dip below zero.\<close>

definition cache_ok :: "(nat \<Rightarrow> int) \<Rightarrow> radix_cache \<Rightarrow> bool" where
  "cache_ok H s \<longleftrightarrow>
     tree_shape (cache_page_size s) (root_node s) (shape s) \<and>
     books (root_node s) H (shape s) (evictable_size s) (protected_size s) (evictable_leaves s) \<and>
     keys_ok s \<and> (\<forall>n \<in> dom (nodes s). n < counter s)"

definition cache_inv :: "(nat \<Rightarrow> int) \<Rightarrow> radix_cache \<Rightarrow> bool" where
  "cache_inv H s \<longleftrightarrow> cache_ok H s \<and> (\<forall>n. 0 \<le> H n)"

definition hashes_ok :: "radix_cache \<Rightarrow> bool" where
  "hashes_ok s \<longleftrightarrow> enabled (kv_events s) \<longrightarrow>
     ev_page_size (kv_events s) = cache_page_size s \<and>
     (\<forall>n nd. nodes s n = Some nd \<longrightarrow>
        (if n = root_node s then event_hash_value nd = None else node_hashes_ok (cache_page_size s) nd))"

text \<open>The block identifiers of the whole tree.\<close>

definition live_blocks :: "radix_cache \<Rightarrow> int multiset" where
  "live_blocks s = fsum (\<lambda>n nd. if n = root_node s then {#} else mset (map block_id (event_hashes nd))) (nodes s)"

text \<open>What no operation on the tree changes.\<close>

definition same_setup :: "radix_cache \<Rightarrow> radix_cache \<Rightarrow> bool" where
  "same_setup s s' \<longleftrightarrow>
     disable s' = disable s \<and> cache_page_size s' = cache_page_size s \<and> is_eagle s' = is_eagle s \<and>
     disable_finished_insert s' = disable_finished_insert s \<and> eviction_strategy s' = eviction_strategy s \<and>
     root_node s' = root_node s \<and> enabled (kv_events s') = enabled (kv_events s) \<and>
     ev_page_size (kv_events s') = ev_page_size (kv_events s)"

section \<open>Shapes of stores\<close>

lemma snode_of_simps [simp]:
  "s_children (snode_of nd) = children nd" "s_parent (snode_of nd) = parent nd"
  "s_ns (snode_of nd) = namespace (key nd)" "s_units (snode_of nd) = key_iter (key nd)"
  "s_val (snode_of nd) = val nd" "s_lock (snode_of nd) = lock_ref nd"
  by (simp_all add: snode_of_def)

lemma shape_of_upd [simp]: "shape_of (st(n := x)) = (shape_of st)(n := map_option snode_of x)"
  by (auto simp: shape_of_def)

lemma shape_of_Some: "shape_of st n = Some a \<longleftrightarrow> (\<exists>nd. st n = Some nd \<and> a = snode_of nd)"
  by (auto simp: shape_of_def)

lemma shape_of_None [simp]: "shape_of st n = None \<longleftrightarrow> st n = None"
  by (auto simp: shape_of_def)

lemma shape_SomeI: "nodes s n = Some nd \<Longrightarrow> shape s n = Some (snode_of nd)"
  by (simp add: shape_of_def)

lemma dom_shape_of [simp]: "dom (shape_of st) = dom st"
  by (auto simp: dom_def)

lemma shape_of_set_node:
  assumes "\<And>nd. st n = Some nd \<Longrightarrow> snode_of (f nd) = snode_of nd"
  shows "shape_of (set_node st n f) = shape_of st"
proof
  fix x show "shape_of (set_node st n f) x = shape_of st x"
    using assms by (cases "st n") (auto simp: shape_of_def set_node_def)
qed

lemma set_node_Some: "st n = Some nd \<Longrightarrow> set_node st n f = st(n \<mapsto> f nd)"
  by (simp add: set_node_def)

lemma snode_of_eqI:
  "children a = children b \<Longrightarrow> parent a = parent b \<Longrightarrow> key a = key b \<Longrightarrow> val a = val b \<Longrightarrow> lock_ref a = lock_ref b
   \<Longrightarrow> snode_of a = snode_of b"
  by (simp add: snode_of_def)

lemma page_key_child_key: "child_key k ps = (if ps \<le> key_len k then Inr (page_key ps (namespace k) (key_iter k)) else Inl IndexError)"
  by (simp add: child_key_iter page_key_def)

lemma cache_okD:
  assumes "cache_ok H s"
  shows "tree_shape (cache_page_size s) (root_node s) (shape s)"
    "books (root_node s) H (shape s) (evictable_size s) (protected_size s) (evictable_leaves s)"
    "keys_ok s" "nodes s n = Some nd \<Longrightarrow> n < counter s" "nodes s (counter s) = None" "0 < cache_page_size s"
  using assms unfolding cache_ok_def by (force dest: tree_shapeD(1))+

lemma cache_okI:
  "tree_shape (cache_page_size s) (root_node s) (shape s) \<Longrightarrow>
   books (root_node s) H (shape s) (evictable_size s) (protected_size s) (evictable_leaves s) \<Longrightarrow>
   keys_ok s \<Longrightarrow> (\<And>n nd. nodes s n = Some nd \<Longrightarrow> n < counter s) \<Longrightarrow> cache_ok H s"
  unfolding cache_ok_def by blast

text \<open>The facts of a node other than the root.\<close>

lemma node_facts:
  assumes "cache_ok H s" "nodes s n = Some nd" "n \<noteq> root_node s"
  obtains p pd v where "parent nd = Some p" "nodes s p = Some pd" "val nd = Some v" "length v = key_len (key nd)"
    "0 < key_len (key nd)" "cache_page_size s dvd key_len (key nd)" "key_ok (key nd)" "is_bigram (key nd) = is_eagle s"
    "map_of (children pd) (page_key (cache_page_size s) (namespace (key nd)) (key_iter (key nd))) = Some n"
    "cache_page_size s \<le> key_len (key nd)" "n \<noteq> p"
proof -
  note tree = cache_okD(1) [OF assms(1)]
  have sn: "shape s n = Some (snode_of nd)" using assms(2) by (rule shape_SomeI)
  obtain p pd where p: "parent nd = Some p" "nodes s p = Some pd"
    "(page_key (cache_page_size s) (namespace (key nd)) (key_iter (key nd)), n) \<in> set (children pd)"
    using tree_shapeD(6) [OF tree sn assms(3)] unfolding shape_of_Some snode_of_simps by force
  have "snode_ok (cache_page_size s) (snode_of nd)" by (rule tree_shapeD(4) [OF tree sn assms(3)])
  then obtain v where v: "val nd = Some v" "length v = key_len (key nd)" "cache_page_size s dvd key_len (key nd)"
    "key_iter (key nd) \<noteq> []"
    by (auto simp: snode_ok_def)
  have pos: "0 < key_len (key nd)" using v(4) length_key_iter [of "key nd"] by (metis length_greater_0_conv)
  obtain d :: "nat \<Rightarrow> nat" where "\<And>n nd p. shape s n = Some nd \<Longrightarrow> s_parent nd = Some p \<Longrightarrow> d p < d n"
    by (rule parent_rank [OF tree]) blast
  then have "n \<noteq> p" using sn p(1) by fastforce
  moreover have "map_of (children pd) (page_key (cache_page_size s) (namespace (key nd)) (key_iter (key nd))) = Some n"
    using child_unique(2) [OF tree shape_SomeI [OF p(2)], of _ n] p(3) sn by simp
  ultimately show ?thesis
    using that [OF p(1,2) v(1,2) pos v(3)] cache_okD(3) [OF assms(1)] assms(2,3) v(3) pos
    by (auto simp: keys_ok_def dest: dvd_imp_le)
qed

lemma image_mset_take_drop [simp]:
  "image_mset f (mset (take j xs)) + image_mset f (mset (drop j xs)) = image_mset f (mset xs)"
  by (metis append_take_drop_id image_mset_union mset_append)

lemma namespace_salt: "namespace a = namespace b \<Longrightarrow> cache_salt a = cache_salt b"
  by (simp add: namespace_def)

section \<open>Splitting a node\<close>

lemma split_node_facts:
  assumes ok: "cache_ok H s" and cd: "nodes s c = Some cd" "c \<noteq> root_node s"
    and m: "0 < m" "m < key_len (key cd)" "cache_page_size s dvd m"
  obtains s' p where "split_node E s (key cd) c m = Inr (counter s, s')" "parent cd = Some p"
    "shape s' = shape_split (cache_page_size s) (counter s) c p m (shape s)"
    "splittable (cache_page_size s) (root_node s) (counter s) c p m (shape s)"
    "cache_ok H s'" "same_setup s s'" "hashes_ok s \<Longrightarrow> hashes_ok s'"
    "kv_pool s' = kv_pool s" "req_to_token s' = req_to_token s" "kv_events s' = kv_events s"
    "live_blocks s' = live_blocks s"
    "evictable_size s' = evictable_size s" "protected_size s' = protected_size s" "evictable_leaves s' = evictable_leaves s"
proof -
  let ?ps = "cache_page_size s" and ?new = "counter s"
  obtain p pd v where p: "parent cd = Some p" "nodes s p = Some pd" and v: "val cd = Some v" "length v = key_len (key cd)"
    and k: "cache_page_size s dvd key_len (key cd)" "key_ok (key cd)" "is_bigram (key cd) = is_eagle s" and ne: "c \<noteq> p"
    "cache_page_size s \<le> key_len (key cd)"
    by (rule node_facts [OF ok cd]) blast
  have new: "nodes s ?new = None" by (rule cache_okD(5) [OF ok])
  have nn: "?new \<noteq> c" "?new \<noteq> p" using new cd p by auto
  have ps: "?ps \<le> m" "?ps \<le> key_len (key cd) - m" "0 < ?ps"
    using m k cache_okD(6) [OF ok] by (auto dest: dvd_imp_le intro!: dvd_imp_le dvd_diff_nat)
  have sp: "splittable ?ps (root_node s) ?new c p m (shape s)"
    using cache_okD(1) [OF ok] new cd m p(1) by (auto simp: splittable_def shape_of_Some intro!: exI)
  obtain h1 h2 e1 e2 where h: "split_node_hash_value (hash_value cd) m ?ps = (h1, h2)"
    "split_node_hash_value (event_hash_value cd) m ?ps = (e1, e2)" by fastforce
  define A where "A = (blank_node (priority cd) (monotonic E (clock s)) (monotonic E (clock s + 1)))\<lparr>hit_count := hit_count cd,
      children := [(page_key ?ps (namespace (key cd)) (drop m (key_iter (key cd))), c)], parent := Some p, lock_ref := lock_ref cd,
      key := key_take (key cd) m, val := Some (take m v), hash_value := h1, event_hash_value := e1\<rparr>"
  define B where "B = cd\<lparr>parent := Some ?new, key := key_drop (key cd) m, val := Some (drop m v), hash_value := h2, event_hash_value := e2\<rparr>"
  define C where "C = pd\<lparr>children := AList.update (page_key ?ps (namespace (key cd)) (key_iter (key cd))) ?new (children pd)\<rparr>"
  define s' where "s' = s\<lparr>nodes := (nodes s)(?new \<mapsto> A, c \<mapsto> B, p \<mapsto> C), counter := Suc ?new, clock := clock s + 2\<rparr>"
  have run: "split_node E s (key cd) c m = Inr (?new, s')"
    using cd p v ps ne nn k(2)
    by (simp add: split_node_def page_key_child_key new_tree_node_def read_clock_def h Let_def set_node_def A_def B_def C_def s'_def)
  have sh: "shape s' = shape_split ?ps ?new c p m (shape s)"
    unfolding split_as_updates [OF sp shape_SomeI [OF cd(1)] shape_SomeI [OF p(2)]]
    using v k(2) by (simp add: s'_def A_def B_def C_def snode_of_def)
  have ok': "cache_ok H s'"
  proof (rule cache_okI)
    show "tree_shape (cache_page_size s') (root_node s') (shape s')"
      using shape_split_tree [OF sp] sh by (simp add: s'_def)
    show "books (root_node s') H (shape s') (evictable_size s') (protected_size s') (evictable_leaves s')"
      using books_split [OF sp cache_okD(2) [OF ok]] sh by (simp add: s'_def)
    show "keys_ok s'"
      using cache_okD(3) [OF ok] k cd(2) p(2) by (auto simp: keys_ok_def s'_def A_def B_def C_def)
    show "n < counter s'" if "nodes s' n = Some nd" for n nd
      using that cache_okD(4) [OF ok] p cd by (auto simp: s'_def less_Suc_eq split: if_splits)
  qed
  have hs: "hashes_ok s'" if hok: "hashes_ok s"
  proof (unfold hashes_ok_def, intro impI)
    assume "enabled (kv_events s')"
    then have en: "enabled (kv_events s)" by (simp add: s'_def)
    note split = good_hashes_split [OF k(1) m(3) less_imp_le [OF m(2)]]
    have cd': "node_hashes_ok ?ps cd" using hok en cd by (auto simp: hashes_ok_def)
    then have "node_hashes_ok ?ps A" "node_hashes_ok ?ps B"
      using h m split k(2) namespace_salt [of "key_take (key cd) m" "key cd"] namespace_salt [of "key_drop (key cd) m" "key cd"]
      by (auto simp: node_hashes_ok_def A_def B_def split_node_hash_value_def Let_def min_def split: option.splits if_splits)
    moreover have "if p = root_node s then event_hash_value C = None else node_hashes_ok ?ps C"
    proof -
      have "if p = root_node s then event_hash_value pd = None else node_hashes_ok ?ps pd"
        using hok en p(2) by (simp add: hashes_ok_def)
      then show ?thesis by (simp add: C_def)
    qed
    moreover have "?new \<noteq> root_node s" using tree_shapeD(2) [OF cache_okD(1) [OF ok]] new by (auto simp: shape_of_Some)
    ultimately show "ev_page_size (kv_events s') = cache_page_size s' \<and> (\<forall>n nd. nodes s' n = Some nd \<longrightarrow>
        (if n = root_node s' then event_hash_value nd = None else node_hashes_ok (cache_page_size s') nd))"
      using hok en cd(2) by (simp add: hashes_ok_def s'_def)
  qed
  have lb: "live_blocks s' = live_blocks s"
  proof -
    let ?w = "\<lambda>n nd. if n = root_node s then {#} else mset (map block_id (event_hashes nd))"
    have root: "?new \<noteq> root_node s" using tree_shapeD(2) [OF cache_okD(1) [OF ok]] new by (auto simp: shape_of_Some)
    have f: "finite (dom (nodes s))" using cache_okD(2) [OF ok] by (simp add: books_def)
    have "?w ?new A + ?w c B = ?w c cd"
      using h root cd(2) namespace_salt [of "key_take (key cd) m" "key cd"] namespace_salt [of "key_drop (key cd) m" "key cd"] k(2)
      by (auto simp: event_hashes_def A_def B_def split_node_hash_value_def Let_def
          split: option.splits if_splits)
    moreover have "fsum ?w ((nodes s)(?new \<mapsto> A, c \<mapsto> B, p \<mapsto> C)) = fsum ?w ((nodes s)(?new \<mapsto> A, c \<mapsto> B))"
      by (rule fsum_same [of _ p pd]) (use f p nn ne in \<open>auto simp: C_def event_hashes_def\<close>)
    moreover have "fsum ?w ((nodes s)(?new \<mapsto> A, c \<mapsto> B)) + ?w c cd = fsum ?w ((nodes s)(?new \<mapsto> A)) + ?w c B"
      by (rule fsum_change) (use f cd nn in auto)
    moreover have "fsum ?w ((nodes s)(?new \<mapsto> A)) = ?w ?new A + fsum ?w (nodes s)" by (rule fsum_new [OF f new])
    ultimately have "fsum ?w ((nodes s)(?new \<mapsto> A, c \<mapsto> B, p \<mapsto> C)) + ?w c cd = fsum ?w (nodes s) + ?w c cd"
      by (simp add: ac_simps)
    then show ?thesis unfolding live_blocks_def by (simp add: s'_def)
  qed
  show ?thesis
    by (rule that [OF run p(1) sh sp ok' _ _ _ _ _ lb]) (use hs in \<open>simp_all add: same_setup_def s'_def\<close>)
qed

section \<open>Longest cached prefixes\<close>

text \<open>\<open>m\<close> is the length of the longest prefix of \<open>us\<close> cached below \<open>n\<close>.\<close>

definition longest ::
  "nat \<Rightarrow> string option \<times> string option \<Rightarrow> shape \<Rightarrow> nat \<Rightarrow> key_unit list \<Rightarrow> nat \<Rightarrow> bool" where
  "longest ps ns sh n us m \<longleftrightarrow>
     m \<le> length us \<and> (\<exists>vs. below ps ns sh n (take m us) vs) \<and>
     (\<forall>j vs. j \<le> length us \<longrightarrow> below ps ns sh n (take j us) vs \<longrightarrow> j \<le> m)"

lemma longestD:
  assumes "longest ps ns sh n us m"
  shows "m \<le> length us" "\<exists>vs. below ps ns sh n (take m us) vs"
    "j \<le> length us \<Longrightarrow> below ps ns sh n (take j us) vs \<Longrightarrow> j \<le> m"
  using assms unfolding longest_def by blast+

lemma longest_unique: "longest ps ns sh n us m \<Longrightarrow> longest ps ns sh n us m' \<Longrightarrow> m = m'"
  unfolding longest_def by (meson order_antisym)

lemma longest_stop:
  assumes "tree_shape ps r sh" "sh n = Some nd" "us = [] \<or> map_of (s_children nd) (page_key ps ns us) = None"
  shows "longest ps ns sh n us 0"
  unfolding longest_def
proof (intro conjI allI impI)
  fix j vs assume j: "j \<le> length us" "below ps ns sh n (take j us) vs"
  show "j \<le> 0"
  proof (rule ccontr)
    assume "\<not> j \<le> 0"
    then have ne: "take j us \<noteq> []" "us \<noteq> []" using j(1) by auto
    obtain nd' c where "sh n = Some nd'" "map_of (s_children nd') (page_key ps ns (take j us)) = Some c"
      by (rule belowE [OF assms(1) j(2) ne(1)])
    moreover have "ps \<le> j"
      using below_length [OF assms(1) j(2)] j(1) ne by (auto dest: dvd_imp_le)
    then have "page_key ps ns (take j us) = page_key ps ns us" by (simp add: page_key_def min_def)
    ultimately show False using assms ne by simp
  qed
qed (auto intro: below.below_here)

lemma longest_whole_child:
  assumes tree: "tree_shape ps r sh" and n: "sh n = Some nd" "(k, c) \<in> set (s_children nd)" "sh c = Some cd" "s_ns cd = ns"
    and us: "us = s_units cd @ us'" and l: "longest ps ns sh c us' m"
  shows "longest ps ns sh n us (length (s_units cd) + m)"
proof -
  obtain v where v: "s_val cd = Some v" and ok: "snode_ok ps cd" using child_unique(3) [OF tree n(1-3)] by (auto simp: snode_ok_def)
  have ck: "map_of (s_children nd) (page_key ps ns us) = Some c"
    using child_unique(1,2) [OF tree n(1-3)] page_key_append [of ps "s_units cd" ns us'] tree_shapeD(1) [OF tree] ok n(4) us
    by (simp add: snode_ok_def)
  show ?thesis
    unfolding longest_def
  proof (intro conjI allI impI)
    show "length (s_units cd) + m \<le> length us" using l us by (simp add: longest_def)
    obtain vs where "below ps ns sh c (take m us') vs" using l by (auto simp: longest_def)
    then have "below ps ns sh n (s_units cd @ take m us') (v @ vs)" by (rule below_step [OF n v])
    then show "\<exists>vs. below ps ns sh n (take (length (s_units cd) + m) us) vs" using us by auto
  next
    fix j vs assume j: "j \<le> length us" "below ps ns sh n (take j us) vs"
    show "j \<le> length (s_units cd) + m"
    proof (cases "j \<le> length (s_units cd)")
      case False
      then have ne: "take j us \<noteq> []" using j by auto
      have "page_key ps ns (take j us) = page_key ps ns us"
        using False ok dvd_imp_le [of ps "length (s_units cd)"] by (simp add: page_key_def min_def snode_ok_def)
      then obtain w ws where "take j us = s_units cd @ w" "below ps ns sh c w ws"
        using belowE [OF tree j(2) ne] n(1,3) ck False j(1) by (metis length_take min.absorb2 option.inject)
      moreover from this have "w = take (j - length (s_units cd)) us'" using us False by simp
      ultimately have "below ps ns sh c (take (j - length (s_units cd)) us') ws" by simp
      moreover have "j - length (s_units cd) \<le> length us'" using j(1) us by simp
      ultimately have "j - length (s_units cd) \<le> m" using longestD(3) [OF l] by blast
      then show ?thesis by simp
    qed simp
  qed
qed

lemma longest_part_child:
  assumes tree: "tree_shape ps r sh" and n: "sh n = Some nd" "(k, c) \<in> set (s_children nd)" "sh c = Some cd" "s_ns cd = ns"
    and us: "us \<noteq> []" "page_key ps ns us = k" and m: "m = common_prefix (s_units cd) us div ps * ps" "m < length (s_units cd)"
  shows "longest ps ns sh n us m"
proof -
  obtain v where v: "s_val cd = Some v" and ok: "snode_ok ps cd" using child_unique(3) [OF tree n(1-3)] by (auto simp: snode_ok_def)
  have mc: "m \<le> common_prefix (s_units cd) us" using m by simp
  have ck: "map_of (s_children nd) (page_key ps ns us) = Some c" using child_unique(2) [OF tree n(1-3)] us by simp
  show ?thesis
    unfolding longest_def
  proof (intro conjI allI impI)
    show "m \<le> length us" using mc common_prefix_le(2) le_trans by blast
    have "below ps ns sh n (take m (s_units cd)) (take m v)"
      by (rule below_part [OF n v]) (use m in simp_all)
    then show "\<exists>vs. below ps ns sh n (take m us) vs" using take_common_prefix [OF mc] by auto
  next
    fix j vs assume j: "j \<le> length us" "below ps ns sh n (take j us) vs"
    show "j \<le> m"
    proof (cases "j = 0")
      case False
      then have ne: "take j us \<noteq> []" using us j by auto
      have dj: "ps dvd j" using below_length [OF tree j(2)] j(1) by (simp add: min_absorb2)
      then have "page_key ps ns (take j us) = page_key ps ns us"
        using False dvd_imp_le [of ps j] by (simp add: page_key_def min_def)
      then have "(j \<le> length (s_units cd) \<and> take j us = take j (s_units cd)) \<or> (\<exists>w. take j us = s_units cd @ w)"
        using belowE [OF tree j(2) ne] n(1,3) ck j(1) by (metis length_take min.absorb2 option.inject)
      then have "min j (length (s_units cd)) \<le> common_prefix (s_units cd) us"
      proof
        assume "\<exists>w. take j us = s_units cd @ w"
        then have "take (length (s_units cd)) us = s_units cd" "length (s_units cd) \<le> j"
          using j(1) by (metis append_eq_conv_conj length_append length_take min.absorb2 le_add1 take_take min.absorb1)+
        then show ?thesis using j(1) by (simp add: common_prefix_iff min_def)
      qed (use j(1) in \<open>simp add: common_prefix_iff min_def\<close>)
      moreover have "\<not> length (s_units cd) \<le> common_prefix (s_units cd) us"
      proof
        assume "length (s_units cd) \<le> common_prefix (s_units cd) us"
        then have "common_prefix (s_units cd) us = length (s_units cd)" using common_prefix_le(1) [of "s_units cd" us] by simp
        then show False using m ok by (simp add: snode_ok_def)
      qed
      ultimately have "j \<le> common_prefix (s_units cd) us" by simp
      then show ?thesis using dj m by (metis div_le_mono dvd_div_mult_self mult_le_mono1)
    qed simp
  qed
qed

text \<open>The child an operation follows shares a whole page with the key.\<close>

lemma follow_child:
  assumes tree: "tree_shape ps r sh" and n: "sh n = Some nd" "map_of (s_children nd) (page_key ps ns us) = Some c"
    and us: "us \<noteq> []" "ps dvd length us"
  obtains cd v where "sh c = Some cd" "c \<noteq> r" "s_ns cd = ns" "s_parent cd = Some n" "s_val cd = Some v" "length v = length (s_units cd)"
    "(page_key ps ns us, c) \<in> set (s_children nd)" "ps \<le> common_prefix (s_units cd) us" "ps dvd length (s_units cd)"
proof -
  obtain cd where cd: "sh c = Some cd" "(page_key ps ns us, c) \<in> set (s_children nd)" "page_key ps ns us = snode_ckey ps cd" "snode_ok ps cd"
    "s_parent cd = Some n" "c \<noteq> r"
    by (rule child_lookup [OF tree n]) blast
  have eq: "ns = s_ns cd" "take ps us = take ps (s_units cd)" using cd(3) by (simp_all add: page_key_def ckey_of_inj)
  have "ps \<le> length us" "ps \<le> length (s_units cd)" using us cd(4) by (auto simp: snode_ok_def dest: dvd_imp_le)
  then have "ps \<le> common_prefix (s_units cd) us" using eq(2) by (simp add: common_prefix_iff)
  then show ?thesis using that [OF cd(1,6) eq(1) [symmetric] cd(5) _ _ cd(2)] cd(4) by (auto simp: snode_ok_def)
qed

end
