(* ===== verification/RadixMatch.thy ===== *)
theory RadixMatch
  imports RadixInv
begin

text \<open>
  Matching. \<open>match_prefix\<close> may split a node but keeps the content of the cache, its invariant and
  its books, and returns the slots of the longest cached prefix of the key together with the
  node the prefix ends in.
\<close>

section \<open>Changes that keep the content\<close>

definition reshaped :: "(nat \<Rightarrow> int) \<Rightarrow> radix_cache \<Rightarrow> radix_cache \<Rightarrow> bool" where
  "reshaped H s s' \<longleftrightarrow>
     cache_ok H s' \<and> same_setup s s' \<and> (hashes_ok s \<longrightarrow> hashes_ok s') \<and>
     kv_pool s' = kv_pool s \<and> req_to_token s' = req_to_token s \<and> kv_events s' = kv_events s \<and>
     evictable_size s' = evictable_size s \<and> protected_size s' = protected_size s \<and>
     evictable_leaves s' = evictable_leaves s \<and> live_blocks s' = live_blocks s \<and>
     tree_pages (cache_page_size s) (shape s') = tree_pages (cache_page_size s) (shape s) \<and>
     (runs_ok (cache_page_size s) (shape s) \<longrightarrow> runs_ok (cache_page_size s) (shape s')) \<and>
     dom (nodes s) \<subseteq> dom (nodes s') \<and>
     (\<forall>ns n us vs. n \<in> dom (nodes s) \<longrightarrow>
        below (cache_page_size s) ns (shape s') n us vs = below (cache_page_size s) ns (shape s) n us vs) \<and>
     (\<forall>ns n m us vs. walk ns (shape s) n m us vs \<longrightarrow> walk ns (shape s') n m us vs)"

lemma same_setup_refl [simp]: "same_setup s s"
  by (simp add: same_setup_def)

lemma same_setup_trans: "same_setup s s' \<Longrightarrow> same_setup s' s'' \<Longrightarrow> same_setup s s''"
  by (simp add: same_setup_def)

lemma same_setupD:
  assumes "same_setup s s'"
  shows "disable s' = disable s" "cache_page_size s' = cache_page_size s" "is_eagle s' = is_eagle s"
    "disable_finished_insert s' = disable_finished_insert s" "eviction_strategy s' = eviction_strategy s"
    "root_node s' = root_node s" "enabled (kv_events s') = enabled (kv_events s)"
    "ev_page_size (kv_events s') = ev_page_size (kv_events s)"
  using assms by (simp_all add: same_setup_def)

lemma reshapedD:
  assumes "reshaped H s s'"
  shows "cache_ok H s'" "same_setup s s'" "hashes_ok s \<Longrightarrow> hashes_ok s'"
    "kv_pool s' = kv_pool s" "req_to_token s' = req_to_token s" "kv_events s' = kv_events s"
    "evictable_size s' = evictable_size s" "protected_size s' = protected_size s"
    "evictable_leaves s' = evictable_leaves s" "live_blocks s' = live_blocks s"
    "tree_pages (cache_page_size s) (shape s') = tree_pages (cache_page_size s) (shape s)"
    "runs_ok (cache_page_size s) (shape s) \<Longrightarrow> runs_ok (cache_page_size s) (shape s')"
    "nodes s n \<noteq> None \<Longrightarrow> nodes s' n \<noteq> None"
    "nodes s n \<noteq> None \<Longrightarrow> below (cache_page_size s) ns (shape s') n us vs = below (cache_page_size s) ns (shape s) n us vs"
    "walk ns (shape s) n m us vs \<Longrightarrow> walk ns (shape s') n m us vs"
  using assms unfolding reshaped_def by (blast | auto)+

lemma reshaped_refl: "cache_ok H s \<Longrightarrow> reshaped H s s"
  by (simp add: reshaped_def)

lemma reshaped_trans:
  assumes a: "reshaped H s s'" and b: "reshaped H s' s''"
  shows "reshaped H s s''"
proof -
  note A = reshapedD [OF a] and ps = same_setupD(2) [OF reshapedD(2) [OF a]]
  note B = reshapedD [OF b, unfolded ps]
  have "dom (nodes s) \<subseteq> dom (nodes s'')" using A(13) B(13) by (auto simp: domIff)
  moreover have "below (cache_page_size s) ns (shape s'') n us vs = below (cache_page_size s) ns (shape s) n us vs"
    if "n \<in> dom (nodes s)" for ns n us vs
    using A(13,14) B(14) that by (metis domIff)
  ultimately show ?thesis
    unfolding reshaped_def using A(1-12,15) B(1-12,15) same_setup_trans [OF A(2) B(2)] by simp
qed

text \<open>Writing times, priorities and counters.\<close>

definition touching :: "(tree_node \<Rightarrow> tree_node) \<Rightarrow> bool" where
  "touching f \<longleftrightarrow> (\<forall>nd. children (f nd) = children nd \<and> parent (f nd) = parent nd \<and> key (f nd) = key nd \<and>
     val (f nd) = val nd \<and> lock_ref (f nd) = lock_ref nd \<and> hash_value (f nd) = hash_value nd \<and>
     event_hash_value (f nd) = event_hash_value nd)"

lemma touchingD:
  assumes "touching f"
  shows "snode_of (f nd) = snode_of nd" "key (f nd) = key nd" "event_hash_value (f nd) = event_hash_value nd"
    "node_hashes_ok ps (f nd) = node_hashes_ok ps nd" "event_hashes (f nd) = event_hashes nd"
  using assms by (auto simp: touching_def snode_of_def node_hashes_ok_def event_hashes_def)

lemma reshaped_same_shape:
  assumes ok: "cache_ok H s" and sh: "shape s' = shape s"
    and n: "\<And>n nd. nodes s' n = Some nd \<Longrightarrow> \<exists>od. nodes s n = Some od \<and> key nd = key od \<and>
       event_hash_value nd = event_hash_value od \<and> (\<forall>ps. node_hashes_ok ps nd = node_hashes_ok ps od) \<and> event_hashes nd = event_hashes od"
    and r: "same_setup s s'" "kv_pool s' = kv_pool s" "req_to_token s' = req_to_token s" "kv_events s' = kv_events s"
      "evictable_size s' = evictable_size s" "protected_size s' = protected_size s" "evictable_leaves s' = evictable_leaves s"
      "counter s' = counter s"
  shows "reshaped H s s'"
proof -
  note r1 = same_setupD [OF r(1)]
  have dm: "dom (nodes s') = dom (nodes s)" using sh dom_shape_of [of "nodes s'"] dom_shape_of [of "nodes s"] by simp
  have "keys_ok s'" using cache_okD(3) [OF ok] n by (force simp: keys_ok_def r1)
  moreover have "n < counter s'" if "nodes s' n = Some nd" for n nd
    using n [OF that] cache_okD(4) [OF ok] r(8) by auto
  ultimately have "cache_ok H s'"
    using cache_okD(1,2) [OF ok] by (intro cache_okI) (auto simp: sh r r1)
  moreover have "hashes_ok s'" if "hashes_ok s"
    using that n by (auto simp: hashes_ok_def r r1) (metis)+
  moreover have "live_blocks s' = live_blocks s"
    unfolding live_blocks_def fsum_def dm r1
  proof (rule sum.cong)
    fix x assume "x \<in> dom (nodes s)"
    then obtain nd where "nodes s' x = Some nd" using dm by blast
    then show "(if x = root_node s then {#} else mset (map block_id (event_hashes (the (nodes s' x))))) =
      (if x = root_node s then {#} else mset (map block_id (event_hashes (the (nodes s x)))))"
      using n by fastforce
  qed simp
  ultimately show ?thesis using r dm by (simp add: reshaped_def sh)
qed

lemma reshaped_touch:
  assumes "cache_ok H s" "touching f"
  shows "reshaped H s (upd_node s n f)"
  by (rule reshaped_same_shape [OF assms(1)])
    (use touchingD [OF assms(2)] in \<open>auto simp: same_setup_def set_node_apply shape_of_set_node split: if_splits\<close>)

lemma reshaped_clock: "cache_ok H s \<Longrightarrow> reshaped H s (s\<lparr>clock := t\<rparr>)"
  by (rule reshaped_same_shape) (auto simp: same_setup_def)

lemma touching_simps [simp]:
  "touching (\<lambda>nd. nd\<lparr>last_access_time := t\<rparr>)"
  "touching (\<lambda>nd. nd\<lparr>last_access_time := t, priority := max (priority nd) p\<rparr>)"
  "touching (\<lambda>nd. inc_hit_count chunked (nd\<lparr>priority := max (priority nd) p\<rparr>))"
  by (simp_all add: touching_def inc_hit_count_def)

lemma touched: "nodes s n = Some nd \<Longrightarrow> nodes (upd_node s n f) n = Some (f nd)"
  by simp

lemma reshaped_split:
  assumes ok: "cache_ok H s" and cd: "nodes s c = Some cd" "c \<noteq> root_node s" "val cd = Some v"
    and m: "0 < m" "m < key_len (key cd)" "cache_page_size s dvd m"
  obtains s' p new where "split_node E s (key cd) c m = Inr (new, s')" "reshaped H s s'" "parent cd = Some p"
    "walk (namespace (key cd)) (shape s') p new (take m (key_iter (key cd))) (take m v)"
    "nodes s' new \<noteq> None" "\<exists>nn. nodes s' new = Some nn \<and> val nn = Some (take m v) \<and> key_iter (key nn) = take m (key_iter (key cd)) \<and>
       parent nn = Some p \<and> namespace (key nn) = namespace (key cd)" "new \<noteq> root_node s"
proof -
  obtain s' p where run: "split_node E s (key cd) c m = Inr (counter s, s')" and p: "parent cd = Some p"
    and sh: "shape s' = shape_split (cache_page_size s) (counter s) c p m (shape s)"
    and sp: "splittable (cache_page_size s) (root_node s) (counter s) c p m (shape s)"
    and f: "cache_ok H s'" "same_setup s s'" "hashes_ok s \<Longrightarrow> hashes_ok s'"
    "kv_pool s' = kv_pool s" "req_to_token s' = req_to_token s" "kv_events s' = kv_events s" "live_blocks s' = live_blocks s"
    "evictable_size s' = evictable_size s" "protected_size s' = protected_size s" "evictable_leaves s' = evictable_leaves s"
    by (rule split_node_facts [OF ok cd(1,2) m, of E]) blast
  have fin: "finite (dom (shape s))" using cache_okD(2) [OF ok] by (simp add: books_def)
  have new: "nodes s (counter s) = None" by (rule cache_okD(5) [OF ok])
  obtain pd where pd: "shape s p = Some pd" and ne: "counter s \<noteq> c" "counter s \<noteq> p" "p \<noteq> c" by (rule splitE [OF sp])
  note up = split_as_updates [OF sp shape_SomeI [OF cd(1)] pd]
  have dm: "dom (nodes s) \<subseteq> dom (nodes s')" unfolding dom_shape_of [symmetric] sh up by auto
  have bs: "below (cache_page_size s) ns (shape s') n us vs = below (cache_page_size s) ns (shape s) n us vs"
    if "n \<in> dom (nodes s)" for ns n us vs
    unfolding sh by (rule below_split [OF sp]) (use that new in auto)
  have "reshaped H s s'"
    unfolding reshaped_def
    using f dm bs tree_pages_split [OF sp fin] runs_ok_split [OF sp] walk_split [OF sp] by (simp add: sh)
  moreover have "shape s' (counter s) \<noteq> None \<and> s_val (the (shape s' (counter s))) = Some (take m v) \<and>
      s_units (the (shape s' (counter s))) = take m (key_iter (key cd)) \<and> s_parent (the (shape s' (counter s))) = Some p \<and>
      s_ns (the (shape s' (counter s))) = namespace (key cd)"
    using ne cd(3) by (simp add: sh up)
  then have "\<exists>nn. nodes s' (counter s) = Some nn \<and> val nn = Some (take m v) \<and> key_iter (key nn) = take m (key_iter (key cd)) \<and>
      parent nn = Some p \<and> namespace (key nn) = namespace (key cd)"
    by (auto simp: shape_SomeI)
  moreover have "counter s \<noteq> root_node s" by (rule splitE [OF sp])
  ultimately show ?thesis
    using that [OF run _ p] walk_split_new [OF sp shape_SomeI [OF cd(1)], of v] cd(3) by (auto simp: sh)
qed

section \<open>The descent\<close>

lemma key_iter_empty: "key_iter k = [] \<longleftrightarrow> key_len k = 0"
  using length_key_iter [of k] by (metis length_0_conv)

lemma next_child_key:
  assumes "ps dvd key_len k"
  shows "\<exists>ck'. (if key_len k > 0 then child_key k ps else Inr ck) = Inr ck' \<and>
    (0 < key_len k \<longrightarrow> ck' = page_key ps (namespace k) (key_iter k))"
  using assms by (auto simp: page_key_child_key dest: dvd_imp_le)

lemma match_loop_facts:
  assumes "cache_ok H s" "nodes s node \<noteq> None" "key_ok k" "is_bigram k = is_eagle s" "cache_page_size s dvd key_len k"
    "0 < key_len k \<Longrightarrow> ck = page_key (cache_page_size s) (namespace k) (key_iter k)" "key_len k < fuel"
  shows "\<exists>vs node' s' m. match_loop E fuel t s node k ck acc = Inr (acc @ vs, node', s') \<and> reshaped H s s' \<and>
    nodes s' node' \<noteq> None \<and> longest (cache_page_size s) (namespace k) (shape s) node (key_iter k) m \<and>
    walk (namespace k) (shape s') node node' (take m (key_iter k)) (concat vs)"
  using assms
proof (induction fuel arbitrary: s node k ck acc)
  case (Suc fuel)
  note ok = Suc.prems(1) and tree = cache_okD(1) [OF Suc.prems(1)] and ps = cache_okD(6) [OF Suc.prems(1)]
  let ?ps = "cache_page_size s" and ?ns = "namespace k" and ?us = "key_iter k"
  obtain nd where nd: "nodes s node = Some nd" using Suc.prems(2) by blast
  note snd = shape_SomeI [OF nd]
  have stop: "longest ?ps ?ns (shape s) node ?us 0 \<Longrightarrow> match_loop E (Suc fuel) t s node k ck acc = Inr (acc, node, s) \<Longrightarrow> ?case"
    using ok nd by (intro exI [of _ "[]"] exI [of _ node] exI [of _ s] exI [of _ 0]) (simp add: reshaped_refl walk_here)
  show ?case
  proof (cases "key_len k = 0 \<or> map_of (children nd) ck = None")
    case True
    have "longest ?ps ?ns (shape s) node ?us 0"
      by (rule longest_stop [OF tree snd]) (use True Suc.prems(6) in \<open>cases "key_len k = 0"; simp add: key_iter_empty\<close>)
    then show ?thesis using stop True nd by (cases "key_len k = 0") simp_all
  next
    case False
    then obtain c where pos: "0 < key_len k" and c: "map_of (children nd) ck = Some c" by auto
    note ck = Suc.prems(6) [OF pos]
    have us: "?us \<noteq> []" "?ps dvd length ?us" using pos Suc.prems(5) length_key_iter [of k] by force+
    obtain scd v where scd: "shape s c = Some scd" and cr: "c \<noteq> root_node s" and cns: "s_ns scd = ?ns" and cp: "s_parent scd = Some node"
      and cv: "s_val scd = Some v" "length v = length (s_units scd)" and cin: "(ck, c) \<in> set (children nd)"
      and cpre: "?ps \<le> common_prefix (s_units scd) ?us" and cdv: "?ps dvd length (s_units scd)"
      by (rule follow_child [OF tree snd _ us, of ?ns c]) (use c ck in auto)
    obtain cd where cd: "nodes s c = Some cd" "scd = snode_of cd" using scd by (auto simp: shape_of_Some)
    let ?m = "common_prefix (key_iter (key cd)) ?us div ?ps * ?ps"
    have m: "0 < ?m" "?ps dvd ?m" "?m \<le> common_prefix (key_iter (key cd)) ?us" using cpre ps cd(2) by (simp_all add: div_greater_zero_iff)
    have mt: "take ?m (key_iter (key cd)) = take ?m ?us" by (rule take_common_prefix [OF m(3)])
    let ?f = "\<lambda>nd. nd\<lparr>last_access_time := t\<rparr>"
    let ?s1 = "upd_node s c ?f" and ?cd1 = "?f cd"
    have r1: "reshaped H s ?s1" by (rule reshaped_touch [OF ok]) simp
    note R1 = reshapedD [OF r1]
    have n1: "nodes ?s1 c = Some ?cd1" using cd(1) by simp
    have km: "key_match (key cd) k ?ps = Inr ?m"
      by (rule key_match_iter) (use cns cd Suc.prems(4) cr ps cache_okD(3) [OF ok] in \<open>auto simp: keys_ok_def\<close>)
    have sh1: "shape ?s1 = shape s" by (simp add: shape_of_set_node snode_of_def)
    show ?thesis
    proof (cases "?m < key_len (key cd)")
      case True
      obtain s2 p new where run: "split_node E ?s1 (key ?cd1) c ?m = Inr (new, s2)" and r2: "reshaped H ?s1 s2" and p: "parent ?cd1 = Some p"
        and w: "walk (namespace (key ?cd1)) (shape s2) p new (take ?m (key_iter (key ?cd1))) (take ?m v)"
        and nn: "nodes s2 new \<noteq> None" "\<exists>nn. nodes s2 new = Some nn \<and> val nn = Some (take ?m v) \<and> key_iter (key nn) = take ?m (key_iter (key ?cd1)) \<and>
          parent nn = Some p \<and> namespace (key nn) = namespace (key ?cd1)"
        by (rule reshaped_split [OF R1(1) n1, of v ?m E]) (use cr cv cd True m in auto)
      have "match_loop E (Suc fuel) t s node k ck acc = Inr (acc @ [take ?m v], new, s2)"
        using pos nd c cd(1) km True run nn(2) by auto
      moreover have "longest ?ps ?ns (shape s) node ?us ?m"
        by (rule longest_part_child [OF tree snd, of ck c scd]) (use cin scd cns us ck True cd(2) in auto)
      ultimately show ?thesis
        using reshaped_trans [OF r1 r2] nn(1) w p cp cns cd(2) mt
        by (intro exI [of _ "[take ?m v]"] exI [of _ new] exI [of _ s2] exI [of _ ?m]) auto
    next
      case False
      moreover have "?m \<le> key_len (key cd)"
        by (rule le_trans [OF m(3)]) (use common_prefix_le(1) [of "key_iter (key cd)" ?us] in simp)
      ultimately have ml: "?m = key_len (key cd)" by linarith
      let ?k = "key_drop k ?m"
      have lk: "key_len ?k = key_len k - ?m" by simp
      have mk: "?m \<le> key_len k"
        by (rule le_trans [OF m(3)]) (use common_prefix_le(2) [of "key_iter (key cd)" ?us] in simp)
      have lt: "key_len ?k < fuel" unfolding lk using Suc.prems(7) m(1) mk by linarith
      obtain ck' where ck': "(if key_len ?k > 0 then child_key ?k ?ps else Inr ck) = Inr ck'"
        and ck'': "0 < key_len ?k \<Longrightarrow> ck' = page_key ?ps (namespace ?k) (key_iter ?k)"
        using next_child_key [of ?ps ?k ck] Suc.prems(5) m(2) mk by (auto simp: dvd_diff_nat)
      have "\<exists>vs node' s' m. match_loop E fuel t ?s1 c ?k ck' (acc @ [v]) = Inr ((acc @ [v]) @ vs, node', s') \<and> reshaped H ?s1 s' \<and>
          nodes s' node' \<noteq> None \<and> longest (cache_page_size ?s1) (namespace ?k) (shape ?s1) c (key_iter ?k) m \<and>
          walk (namespace ?k) (shape s') c node' (take m (key_iter ?k)) (concat vs)"
        by (rule Suc.IH [OF R1(1)])
          (use Suc.prems(3-5) n1 m(2) lt ck'' in \<open>auto simp: dvd_diff_nat\<close>)
      then obtain vs node' s' l where rest: "match_loop E fuel t ?s1 c ?k ck' (acc @ [v]) = Inr (acc @ [v] @ vs, node', s')"
        and r2: "reshaped H ?s1 s'" and n': "nodes s' node' \<noteq> None"
        and lo: "longest ?ps ?ns (shape s) c (drop ?m ?us) l"
        and w: "walk ?ns (shape s') c node' (take l (drop ?m ?us)) (concat vs)"
        using Suc.prems(3) unfolding sh1 by auto
      have "match_loop E (Suc fuel) t s node k ck acc = Inr (acc @ [v] @ vs, node', s')"
        using pos nd c cd cv(1) km [unfolded ml] ck' [unfolded ml] rest [unfolded ml] by (simp add: Let_def)
      moreover have u: "?us = s_units scd @ drop ?m ?us"
        using mt ml cd(2) append_take_drop_id [of ?m ?us] by simp
      have "longest ?ps ?ns (shape s) node ?us (?m + l)"
        using longest_whole_child [OF tree snd _ scd cns u lo, of ck] cin ml cd(2) by simp
      moreover have "walk ?ns (shape s') node node' (take (?m + l) ?us) (concat (v # vs))"
      proof -
        have "walk ?ns (shape s) node c (s_units scd @ []) (v @ [])"
          by (rule walk_step [OF snd _ scd cns cv(1)]) (use cin in \<open>auto intro: walk_here\<close>)
        then have "walk ?ns (shape s') node c (s_units scd) v" using reshapedD(15) [OF r2, unfolded sh1] by simp
        from walk_append [OF this w] show ?thesis using mt ml cd(2) by (simp add: take_add)
      qed
      ultimately show ?thesis
        using reshaped_trans [OF r1 r2] n'
        by (intro exI [of _ "v # vs"] exI [of _ node'] exI [of _ s'] exI [of _ "?m + l"]) simp
    qed
  qed
qed simp

section \<open>Matching\<close>

definition cached :: "radix_cache \<Rightarrow> string option \<times> string option \<Rightarrow> key_unit list \<Rightarrow> int list \<Rightarrow> bool" where
  "cached s ns us vs \<longleftrightarrow> below (cache_page_size s) ns (shape s) (root_node s) us vs"

text \<open>The units an operation looks up for a key: pairs of tokens when the cache is in bigram mode.\<close>

definition lookup_units :: "radix_cache \<Rightarrow> radix_key \<Rightarrow> key_unit list" where
  "lookup_units s k = units (is_eagle s) (raw k)"

definition key_fits :: "radix_cache \<Rightarrow> radix_key \<Rightarrow> bool" where
  "key_fits s k \<longleftrightarrow> key_ok k \<and> (is_bigram k \<longrightarrow> is_eagle s)"

lemma root_live: "cache_ok H s \<Longrightarrow> nodes s (root_node s) \<noteq> None"
  using tree_shapeD(2) [OF cache_okD(1)] by (auto simp: shape_of_Some)

lemma longest_aligned:
  assumes tree: "tree_shape ps r sh" and l: "longest ps ns sh n (take (length us div ps * ps) us) m"
  shows "longest ps ns sh n us m"
  unfolding longest_def
proof (intro conjI allI impI)
  have al: "length us div ps * ps \<le> length us" by simp
  have m: "m \<le> length us div ps * ps" using longestD(1) [OF l] by (simp add: min_def split: if_splits)
  show "m \<le> length us" using m al by linarith
  show "\<exists>vs. below ps ns sh n (take m us) vs" using longestD(2) [OF l] m by (simp add: min_absorb1)
  fix j vs assume j: "j \<le> length us" "below ps ns sh n (take j us) vs"
  have "ps dvd j" using below_length [OF tree j(2)] j(1) by (simp add: min_absorb2)
  then have le: "j \<le> length us div ps * ps" using j(1) by (metis div_le_mono dvd_div_mult_self mult_le_mono1)
  then show "j \<le> m" using longestD(3) [OF l, of j vs] j al by (simp add: min_absorb1 min_absorb2)
qed

text \<open>The key as the operations prepare it: in the cache's granularity and cut to whole pages.\<close>

lemma prepared_key:
  assumes "key_fits s k" and k1: "k1 = fst (maybe_to_bigram_view k (is_eagle s) w)"
  shows "key_ok k1" "is_bigram k1 = is_eagle s" "namespace k1 = namespace k" "key_iter k1 = lookup_units s k"
proof -
  have "raw (k\<lparr>is_bigram := b\<rparr>) = raw k" for b by (simp add: raw_def raw_len_def)
  then show "key_ok k1" "is_bigram k1 = is_eagle s" "namespace k1 = namespace k" "key_iter k1 = lookup_units s k"
    using assms by (auto simp: key_fits_def maybe_to_bigram_view_def key_ok_def namespace_def lookup_units_def key_iter_units Let_def)
qed

lemma match_prefix_facts:
  assumes ok: "cache_ok H s" and k: "key_fits s k" and en: "\<not> disable s"
  obtains r s' where "match_prefix E s k = Inr (r, s')" "reshaped H s s'"
    "longest (cache_page_size s) (namespace k) (shape s) (root_node s) (lookup_units s k) (length (device_indices r))"
    "walk (namespace k) (shape s') (root_node s) (last_device_node r)
       (take (length (device_indices r)) (lookup_units s k)) (device_indices r)"
    "nodes s' (last_device_node r) \<noteq> None"
proof -
  let ?k1 = "fst (maybe_to_bigram_view k (is_eagle s) (None :: int list option))"
  let ?ps = "cache_page_size s"
  let ?k = "page_aligned ?k1 ?ps"
  note pk = prepared_key [OF k, of ?k1, OF refl]
  note tree = cache_okD(1) [OF ok] and ps = cache_okD(6) [OF ok]
  have len: "key_len ?k1 = length (lookup_units s k)" using pk(4) length_key_iter [of ?k1] by simp
  obtain rd where rd: "nodes s (root_node s) = Some rd" using root_live [OF ok] by blast
  show ?thesis
  proof (cases "key_len ?k = 0")
    case True
    then have "match_prefix E s k = Inr (empty_match_result s, s)" by (simp add: match_prefix_def Let_def)
    moreover have "longest ?ps (namespace k) (shape s) (root_node s) (lookup_units s k) 0"
    proof (rule longest_aligned [OF tree])
      have "take (length (lookup_units s k) div ?ps * ?ps) (lookup_units s k) = []" using True len by simp
      then show "longest ?ps (namespace k) (shape s) (root_node s) (take (length (lookup_units s k) div ?ps * ?ps) (lookup_units s k)) 0"
        using longest_stop [OF tree shape_SomeI [OF rd]] by simp
    qed
    ultimately show ?thesis
      using that [of "empty_match_result s" s] reshaped_refl [OF ok] rd by (simp add: empty_match_result_def walk_here)
  next
    case False
    have dv: "?ps dvd key_len ?k" by simp
    have k10: "key_len ?k1 \<noteq> 0" using False by (metis key_len_page_aligned div_0 mult_0)
    have le: "?ps \<le> key_len ?k" using dvd_imp_le [OF dv] False by simp
    let ?t = "monotonic E (clock s)"
    let ?s1 = "s\<lparr>clock := clock s + 1\<rparr>"
    let ?s2 = "upd_node ?s1 (root_node s) (\<lambda>nd. nd\<lparr>last_access_time := ?t\<rparr>)"
    have r1: "reshaped H s ?s1" by (rule reshaped_clock [OF ok])
    have r2: "reshaped H ?s1 ?s2" by (rule reshaped_touch [OF reshapedD(1) [OF r1]]) simp
    note r12 = reshaped_trans [OF r1 r2] and ok2 = reshapedD(1) [OF r2]
    let ?ck = "page_key ?ps (namespace ?k) (key_iter ?k)"
    have kf: "key_ok ?k" "is_bigram ?k = is_eagle s" "namespace ?k = namespace k" using pk by simp_all
    have sh2: "shape ?s2 = shape s" by (simp add: shape_of_set_node snode_of_def)
    have "\<exists>vs node' s' m. match_loop E (Suc (key_len ?k)) ?t ?s2 (root_node s) ?k ?ck [] = Inr ([] @ vs, node', s') \<and> reshaped H ?s2 s' \<and>
        nodes s' node' \<noteq> None \<and> longest (cache_page_size ?s2) (namespace ?k) (shape ?s2) (root_node s) (key_iter ?k) m \<and>
        walk (namespace ?k) (shape s') (root_node s) node' (take m (key_iter ?k)) (concat vs)"
      by (rule match_loop_facts [OF ok2]) (use kf rd dv in auto)
    then obtain vs node' s' m where run: "match_loop E (Suc (key_len ?k)) ?t ?s2 (root_node s) ?k ?ck [] = Inr (vs, node', s')"
      and r3: "reshaped H ?s2 s'" and n': "nodes s' node' \<noteq> None"
      and lo: "longest ?ps (namespace k) (shape s) (root_node s) (key_iter ?k) m"
      and w: "walk (namespace k) (shape s') (root_node s) node' (take m (key_iter ?k)) (concat vs)"
      unfolding sh2 kf(3) by auto
    have "match_prefix E s k = Inr (\<lparr>device_indices = concat vs, last_device_node = node'\<rparr>, s')"
      using en False le run k10
      by (simp add: match_prefix_def match_prefix_helper_def read_clock_def Let_def page_key_child_key del: match_loop.simps)
    moreover have ki: "key_iter ?k = take (length (lookup_units s k) div ?ps * ?ps) (lookup_units s k)" using pk(4) len by simp
    have "longest ?ps (namespace k) (shape s) (root_node s) (lookup_units s k) m"
      by (rule longest_aligned [OF tree]) (use lo ki in simp)
    moreover have mle: "m \<le> length (key_iter ?k)" by (rule longestD(1) [OF lo])
    have tk: "take m (key_iter ?k) = take m (lookup_units s k)" using mle ki len by (simp add: min_absorb1)
    have "below ?ps (namespace k) (shape s') (root_node s) (take m (key_iter ?k)) (concat vs)"
      by (rule walk_below_self [OF w])
    from below_length [OF _ this] cache_okD(1) [OF reshapedD(1) [OF r3]]
    have "length (concat vs) = m"
      using same_setupD(2) [OF reshapedD(2) [OF r3]] mle by (simp del: page_aligned_simps)
    ultimately show ?thesis
      using that [of "\<lparr>device_indices = concat vs, last_device_node = node'\<rparr>" s'] reshaped_trans [OF r12 r3] w n' tk by simp
  qed
qed

end
