(* ===== verification/RadixInsert.thy ===== *)
theory RadixInsert
  imports RadixMatch
begin

text \<open>
  Insertion. \<open>insert\<close> follows the longest cached prefix of the key and hangs the rest of the
  key as one leaf under the node it ends in: afterwards the cache holds what it held before
  and every page-aligned prefix of the key, and the announced blocks grow by those of the leaf.
\<close>

section \<open>A new leaf in the store\<close>

lemma tree_node_val: "tree_shape ps r (shape s) \<Longrightarrow> nodes s n = Some nd \<Longrightarrow> val nd \<noteq> None"
  using tree_shapeD(2) [of ps r "shape s"] tree_shapeD(4) [of ps r "shape s" n "snode_of nd"] shape_SomeI [of s n nd]
  by (cases "n = r") (auto simp: root_ok_def snode_ok_def)

lemma update_leaf_status_live:
  assumes n: "nodes s n = Some nd" "val nd \<noteq> None" and c: "\<And>k c. (k, c) \<in> set (children nd) \<Longrightarrow> \<exists>cd. nodes s c = Some cd \<and> val cd \<noteq> None"
  shows "update_leaf_status s n =
    Inr (s\<lparr>evictable_leaves := leaf_mark (\<not> lock_ref nd > 0 \<and> children nd = []) n (evictable_leaves s)\<rparr>)"
proof -
  have "list_ex (\<lambda>(k, c). case nodes s c of Some cd \<Rightarrow> \<not> evicted cd | None \<Rightarrow> False) (children nd) \<longleftrightarrow> children nd \<noteq> []"
  proof (cases "children nd")
    case (Cons kc cs)
    obtain k c' where kc: "kc = (k, c')" by fastforce
    then obtain cd where "nodes s c' = Some cd" "val cd \<noteq> None" using c [of k c'] Cons by auto
    then show ?thesis using Cons kc by (auto simp: evicted_def)
  qed simp
  moreover obtain v where "val nd = Some v" using n(2) by blast
  ultimately show ?thesis using n by (simp add: update_leaf_status_def evicted_def leaf_mark_def)
qed

lemma update_leaf_status_ok:
  assumes tree: "tree_shape ps r (shape s)" and n: "nodes s n = Some nd"
  shows "update_leaf_status s n =
    Inr (s\<lparr>evictable_leaves := leaf_mark (\<not> lock_ref nd > 0 \<and> children nd = []) n (evictable_leaves s)\<rparr>)"
proof (rule update_leaf_status_live [OF n tree_node_val [OF tree n]])
  fix k c assume "(k, c) \<in> set (children nd)"
  then obtain cd where "nodes s c = Some cd" using tree_shapeD(5) [OF tree shape_SomeI [OF n], of k c] by (auto simp: shape_of_Some)
  then show "\<exists>cd. nodes s c = Some cd \<and> val cd \<noteq> None" using tree_node_val [OF tree] by blast
qed

lemma insert_leaf_facts:
  assumes ok: "cache_ok H s" and hk: "hashes_ok s" and laws: "hash_laws E"
    and nd: "nodes s node = Some nd" "node \<noteq> root_node s \<Longrightarrow> namespace (key nd) = namespace k"
    and k: "key_ok k" "is_bigram k = is_eagle s" "0 < key_len k" "cache_page_size s dvd key_len k" "length v = key_len k"
    and ck: "ck = page_key (cache_page_size s) (namespace k) (key_iter k)" "map_of (children nd) ck = None"
  obtains s' X where "insert_leaf E prio chunked s node k v ck = Inr (counter s, s')" "cache_ok H s'" "hashes_ok s'" "same_setup s s'"
    "leaf_place (cache_page_size s) (root_node s) (counter s) node (namespace k) (key_iter k) v (shape s)"
    "shape s' = shape_leaf (cache_page_size s) (counter s) node (namespace k) (key_iter k) v (shape s)"
    "kv_pool s' = kv_pool s" "req_to_token s' = req_to_token s"
    "evictable_size s' = evictable_size s + int (key_len k)" "protected_size s' = protected_size s"
    "live_blocks s' = live_blocks s + X"
    "\<And>M. enabled (kv_events s) \<Longrightarrow> replay (queue (kv_events s')) M = replay (queue (kv_events s)) M + X"
proof -
  let ?ps = "cache_page_size s" and ?new = "counter s" and ?ns = "namespace k" and ?us = "key_iter k"
  have new: "nodes s ?new = None" by (rule cache_okD(5) [OF ok])
  have nn: "?new \<noteq> node" using new nd by auto
  have nr: "?new \<noteq> root_node s" using root_live [OF ok] new by metis
  have ps: "0 < ?ps" by (rule cache_okD(6) [OF ok])
  have ckn: "ck \<notin> fst ` set (children nd)" using ck(2) by (simp add: map_of_eq_None_iff)
  have lp: "leaf_place ?ps (root_node s) ?new node ?ns ?us v (shape s)"
    unfolding leaf_place_def
    using cache_okD(1) [OF ok] new k shape_SomeI [OF nd(1)] nd(2) ck(1) ckn key_iter_empty [of k] by auto
  define A where "A = inc_hit_count chunked ((blank_node prio (monotonic E (clock s)) (monotonic E (clock s + 1)))\<lparr>parent := Some node, key := k, val := Some v\<rparr>)"
  define B where "B = nd\<lparr>children := AList.update ck ?new (children nd)\<rparr>"
  define s4 where "s4 = s\<lparr>clock := Suc (Suc (clock s)), counter := Suc ?new, nodes := (nodes s)(?new \<mapsto> A, node \<mapsto> B),
     evictable_size := evictable_size s + int (key_len k)\<rparr>"
  have A: "children A = []" "parent A = Some node" "key A = k" "val A = Some v" "lock_ref A = 0" "hash_value A = None" "event_hash_value A = None"
    by (simp_all add: A_def inc_hit_count_def blank_node_def)
  have sh4: "shape s4 = shape_leaf ?ps ?new node ?ns ?us v (shape s)"
    unfolding leaf_as_updates [OF lp shape_SomeI [OF nd(1)]]
    using A ckn ck(1) by (simp add: s4_def B_def snode_of_def alist_update_new)
  have t4: "tree_shape ?ps (root_node s) (shape s4)" unfolding sh4 by (rule shape_leaf_tree [OF lp])
  have n4: "nodes s4 node = Some B" "nodes s4 ?new = Some A" using nn by (simp_all add: s4_def)
  have Bc: "children B \<noteq> []" using ckn by (simp add: B_def alist_update_new)
  define lv where "lv = leaf_mark True ?new (leaf_mark False node (evictable_leaves s))"
  define s6 where "s6 = s4\<lparr>evictable_leaves := lv\<rparr>"
  have n6: "nodes s6 = nodes s4" "shape s6 = shape s4" by (simp_all add: s6_def)
  have st: "update_leaf_status s4 node = Inr (s4\<lparr>evictable_leaves := leaf_mark False node (evictable_leaves s)\<rparr>)"
    "update_leaf_status (s4\<lparr>evictable_leaves := leaf_mark False node (evictable_leaves s)\<rparr>) ?new = Inr s6"
    using update_leaf_status_ok [OF t4 n4(1)] Bc
      update_leaf_status_ok [of ?ps "root_node s" "s4\<lparr>evictable_leaves := leaf_mark False node (evictable_leaves s)\<rparr>" ?new A] t4 n4(2) A
    by (simp_all add: s6_def lv_def s4_def)
  have run: "insert_leaf E prio chunked s node k v ck =
    rbind (record_store E (Suc (counter s6)) (nodes s6) (kv_events s6) ?new None)
      (\<lambda>(st, ev). Inr (?new, s6\<lparr>nodes := st, kv_events := ev\<rparr>))"
  proof -
    have "insert_leaf E prio chunked s node k v ck = rbind (update_leaf_status s4 node) (\<lambda>s5. rbind (update_leaf_status s5 ?new)
      (\<lambda>s6. rbind (record_store E (Suc (counter s6)) (nodes s6) (kv_events s6) ?new None)
        (\<lambda>(st, ev). Inr (?new, s6\<lparr>nodes := st, kv_events := ev\<rparr>))))"
      using nd(1) nn by (simp add: insert_leaf_def new_tree_node_def read_clock_def Let_def set_node_def A_def B_def s4_def)
    then show ?thesis using st by simp
  qed
  obtain A' ev where rs: "record_store E (Suc (counter s6)) (nodes s6) (kv_events s6) ?new None = Inr ((nodes s6)(?new \<mapsto> A'), ev)"
    and A': "snode_of A' = snode_of A" "key A' = k" and ev: "enabled ev = enabled (kv_events s)" "ev_page_size ev = ev_page_size (kv_events s)"
    and en: "enabled (kv_events s) \<Longrightarrow> node_hashes_ok ?ps A' \<and>
       (\<forall>M. replay (queue ev) M = replay (queue (kv_events s)) M + mset (map block_id (event_hashes A')))"
  proof (cases "enabled (kv_events s)")
    case False
    have "(nodes s6)(?new \<mapsto> A) = nodes s6" using n4(2) n6 by (simp add: fun_upd_idem)
    moreover have "kv_events s6 = kv_events s" by (simp add: s6_def s4_def)
    ultimately show ?thesis using False that [of A "kv_events s"] A by (simp add: record_store_def)
  next
    case True
    have ph: "parent_hashed ?ps B A"
    proof (cases "node = root_node s")
      case True
      have "root_ok (snode_of nd)" using tree_shapeD(2) [OF cache_okD(1) [OF ok]] shape_SomeI [OF nd(1)] True by auto
      then show ?thesis
        using True hk \<open>enabled (kv_events s)\<close> nd(1) key_iter_empty [of "key nd"] by (simp add: parent_hashed_def B_def root_ok_def hashes_ok_def)
    next
      case False
      obtain p where p: "parent nd = Some p" "0 < key_len (key nd)" "?ps \<le> key_len (key nd)" by (rule node_facts [OF ok nd(1) False]) blast
      have "node_hashes_ok ?ps nd" using hk True nd(1) False by (simp add: hashes_ok_def)
      then show ?thesis
        using p ps A(3) namespace_salt [OF nd(2) [OF False]] by (simp add: parent_hashed_def B_def div_greater_zero_iff)
    qed
    have "\<exists>hs es nd' r'. record_store E (Suc (counter s6)) (nodes s6) (kv_events s6) ?new None = Inr ((nodes s6)(?new \<mapsto> nd'), r') \<and>
      nd' = A\<lparr>hash_value := Some hs, event_hash_value := es\<rparr> \<and> node_hashes_ok ?ps nd' \<and>
      enabled r' = enabled (kv_events s6) \<and> ev_page_size r' = ?ps \<and>
      replay (queue r') M = replay (queue (kv_events s6)) M + mset (map block_id (event_hashes nd'))" for M
      by (rule record_store_facts [of E ?ps "kv_events s6" "nodes s6" ?new A node B, OF laws ps])
        (use True hk n4 A ph nn k in \<open>auto simp: s6_def s4_def hashes_ok_def\<close>)
    note fact = this
    from fact [of "{#}"] obtain hs es nd' r' where
      f: "record_store E (Suc (counter s6)) (nodes s6) (kv_events s6) ?new None = Inr ((nodes s6)(?new \<mapsto> nd'), r')"
      "nd' = A\<lparr>hash_value := Some hs, event_hash_value := es\<rparr>" "node_hashes_ok ?ps nd'" "enabled r'" "ev_page_size r' = ?ps"
      using True by (auto simp: s6_def s4_def)
    have "replay (queue r') M = replay (queue (kv_events s)) M + mset (map block_id (event_hashes nd'))" for M
    proof -
      from fact [of M] obtain nd2 r2 where r2: "record_store E (Suc (counter s6)) (nodes s6) (kv_events s6) ?new None = Inr ((nodes s6)(?new \<mapsto> nd2), r2)"
        "replay (queue r2) M = replay (queue (kv_events s6)) M + mset (map block_id (event_hashes nd2))" by blast
      have "(nodes s6)(?new \<mapsto> nd2) = (nodes s6)(?new \<mapsto> nd')" "r2 = r'" using r2(1) f(1) by auto
      then have "nd2 = nd'" by (metis fun_upd_same option.inject)
      then show ?thesis using r2(2) \<open>r2 = r'\<close> by (simp add: s6_def s4_def)
    qed
    then show ?thesis
      using that [of nd' r', OF f(1)] f A True hk by (simp add: snode_of_def hashes_ok_def)
  qed
  define s' where "s' = s6\<lparr>nodes := (nodes s6)(?new \<mapsto> A'), kv_events := ev\<rparr>"
  have res: "insert_leaf E prio chunked s node k v ck = Inr (?new, s')" using run rs by (simp add: s'_def)
  have sh: "shape s' = shape_leaf ?ps ?new node ?ns ?us v (shape s)"
  proof -
    have "shape s6 ?new = Some (snode_of A)" using n4(2) n6 by (simp add: shape_SomeI)
    then show ?thesis using A'(1) sh4 n6 by (simp add: s'_def fun_upd_idem)
  qed
  have f: "root_node s' = root_node s" "cache_page_size s' = ?ps" "is_eagle s' = is_eagle s" "evictable_size s' = evictable_size s + int (key_len k)"
    "protected_size s' = protected_size s" "evictable_leaves s' = lv" "counter s' = Suc ?new" "kv_events s' = ev"
    "nodes s' = (nodes s)(node \<mapsto> B, ?new \<mapsto> A')"
    using nn by (simp_all add: s'_def s6_def s4_def fun_upd_twist)
  have ok': "cache_ok H s'"
  proof (rule cache_okI)
    show "tree_shape (cache_page_size s') (root_node s') (shape s')" using shape_leaf_tree [OF lp] sh f by simp
    show "books (root_node s') H (shape s') (evictable_size s') (protected_size s') (evictable_leaves s')"
      using books_leaf [OF lp cache_okD(2) [OF ok]] sh f by (simp add: lv_def)
    show "keys_ok s'" using cache_okD(3) [OF ok] nd(1) A'(2) k by (auto simp: keys_ok_def f B_def)
    show "n < counter s'" if "nodes s' n = Some x" for n x
      using that cache_okD(4) [OF ok] nd(1) by (auto simp: f less_Suc_eq split: if_splits)
  qed
  have hk': "hashes_ok s'"
  proof (unfold hashes_ok_def, intro impI)
    assume "enabled (kv_events s')"
    then have e: "enabled (kv_events s)" using f ev by simp
    have "if node = root_node s then event_hash_value B = None else node_hashes_ok ?ps B"
      using hk e nd(1) by (simp add: hashes_ok_def B_def)
    then show "ev_page_size (kv_events s') = cache_page_size s' \<and> (\<forall>n nd. nodes s' n = Some nd \<longrightarrow>
        (if n = root_node s' then event_hash_value nd = None else node_hashes_ok (cache_page_size s') nd))"
      using hk e en [OF e] nr ev by (simp add: hashes_ok_def f)
  qed
  let ?X = "mset (map block_id (event_hashes A'))"
  have lb: "live_blocks s' = live_blocks s + ?X"
  proof -
    let ?w = "\<lambda>n nd. if n = root_node s then {#} else mset (map block_id (event_hashes nd))"
    have fin: "finite (dom (nodes s))" using cache_okD(2) [OF ok] by (simp add: books_def)
    have "fsum ?w ((nodes s)(node \<mapsto> B)) = fsum ?w (nodes s)"
      by (rule fsum_same [OF fin nd(1)]) (simp add: B_def event_hashes_def)
    moreover have "fsum ?w ((nodes s)(node \<mapsto> B, ?new \<mapsto> A')) = ?w ?new A' + fsum ?w ((nodes s)(node \<mapsto> B))"
      by (rule fsum_new) (use fin new nn in auto)
    ultimately show ?thesis using nr unfolding live_blocks_def f by simp
  qed
  show ?thesis
    by (rule that [OF res ok' hk' _ lp sh _ _ f(4,5) lb]) (use f en ev in \<open>auto simp: same_setup_def s'_def s6_def s4_def\<close>)
qed

section \<open>The descent\<close>

lemma longest_dvd:
  assumes "tree_shape ps r sh" "longest ps ns sh n us m"
  shows "m \<le> length us" "ps dvd m"
proof -
  show le: "m \<le> length us" by (rule longestD(1) [OF assms(2)])
  obtain vs where "below ps ns sh n (take m us) vs" using longestD(2) [OF assms(2)] by blast
  from below_length [OF assms(1) this] show "ps dvd m" using le by (simp add: min_absorb2)
qed

lemma longest_reshaped:
  assumes "reshaped H s s'" "nodes s n \<noteq> None"
  shows "longest (cache_page_size s) ns (shape s') n us m = longest (cache_page_size s) ns (shape s) n us m"
proof -
  have "below (cache_page_size s) ns (shape s') n = below (cache_page_size s) ns (shape s) n"
    by (intro ext) (rule reshapedD(14) [OF assms])
  then show ?thesis by (simp add: longest_def)
qed

lemma page_key_take: "ps dvd m \<Longrightarrow> 0 < m \<Longrightarrow> page_key ps ns (take m us) = page_key ps ns us"
  by (auto simp: page_key_def min_def dest: dvd_imp_le)

text \<open>One round of the loop ends in a child that holds exactly the pages just matched.\<close>

lemma insert_round:
  assumes ok: "cache_ok H s" and nd: "nodes s node = Some nd" and k: "is_bigram k = is_eagle s" "cache_page_size s dvd key_len k"
    and pos: "0 < key_len k" and c: "map_of (children nd) (page_key (cache_page_size s) (namespace k) (key_iter k)) = Some c"
  obtains cd m x s3 w xd nd3 where "nodes (upd_node s c (\<lambda>nd. nd\<lparr>last_access_time := t\<rparr>)) c = Some cd"
    "key_match (key cd) k (cache_page_size s) = Inr m" "0 < m" "m \<le> key_len k" "cache_page_size s dvd m"
    "(if m < key_len (key cd)
      then rbind (split_node E (upd_node s c (\<lambda>nd. nd\<lparr>last_access_time := t\<rparr>)) (key cd) c m) (\<lambda>(new, s2).
             Inr (new, upd_node s2 new (\<lambda>nd. inc_hit_count chunked (nd\<lparr>priority := max (priority nd) prio\<rparr>))))
      else Inr (c, upd_node (upd_node s c (\<lambda>nd. nd\<lparr>last_access_time := t\<rparr>)) c
             (\<lambda>nd. inc_hit_count chunked (nd\<lparr>priority := max (priority nd) prio\<rparr>)))) = Inr (x, s3)"
    "reshaped H s s3" "shape s3 node = Some nd3" "(page_key (cache_page_size s) (namespace k) (key_iter k), x) \<in> set (s_children nd3)"
    "shape s3 x = Some xd" "s_ns xd = namespace k" "s_units xd = take m (key_iter k)" "s_val xd = Some w"
proof -
  let ?ps = "cache_page_size s" and ?us = "key_iter k" and ?ns = "namespace k"
  note tree = cache_okD(1) [OF ok] and ps = cache_okD(6) [OF ok] and snd = shape_SomeI [OF nd]
  have us: "?us \<noteq> []" "?ps dvd length ?us" using pos k(2) key_iter_empty [of k] by simp_all
  obtain scd v where scd: "shape s c = Some scd" and cr: "c \<noteq> root_node s" and cns: "s_ns scd = ?ns" and cp: "s_parent scd = Some node"
    and cv: "s_val scd = Some v" "length v = length (s_units scd)"
    and cpre: "?ps \<le> common_prefix (s_units scd) ?us" and cin: "(page_key ?ps ?ns ?us, c) \<in> set (children nd)"
    by (rule follow_child [OF tree snd _ us, of ?ns c]) (use c in auto)
  obtain cd where cd: "nodes s c = Some cd" "scd = snode_of cd" using scd by (auto simp: shape_of_Some)
  define m where "m = common_prefix (key_iter (key cd)) ?us div ?ps * ?ps"
  have mc: "m \<le> common_prefix (key_iter (key cd)) ?us" by (simp add: m_def)
  have m: "0 < m" "?ps dvd m" using cpre ps cd(2) by (simp_all add: m_def div_greater_zero_iff)
  have mk: "m \<le> key_len k" "m \<le> key_len (key cd)"
    using le_trans [OF mc common_prefix_le(2)] le_trans [OF mc common_prefix_le(1)] by simp_all
  have mt: "take m (key_iter (key cd)) = take m ?us" by (rule take_common_prefix [OF mc])
  let ?f = "\<lambda>nd. nd\<lparr>last_access_time := t\<rparr>" and ?g = "\<lambda>nd. inc_hit_count chunked (nd\<lparr>priority := max (priority nd) prio\<rparr>)"
  let ?s1 = "upd_node s c ?f" and ?cd1 = "?f cd"
  have r1: "reshaped H s ?s1" by (rule reshaped_touch [OF ok]) simp
  have n1: "nodes ?s1 c = Some ?cd1" using cd(1) by simp
  have km: "key_match (key ?cd1) k ?ps = Inr m"
    unfolding m_def by (simp, rule key_match_iter) (use cns cd k(1) cr ps cache_okD(3) [OF ok] in \<open>auto simp: keys_ok_def\<close>)
  show ?thesis
  proof (cases "m < key_len (key cd)")
    case True
    obtain s2 p new nn where run: "split_node E ?s1 (key ?cd1) c m = Inr (new, s2)" and r2: "reshaped H ?s1 s2" and p: "parent ?cd1 = Some p"
      and nn: "nodes s2 new = Some nn" "val nn = Some (take m v)" "key_iter (key nn) = take m (key_iter (key ?cd1))"
        "parent nn = Some p" "namespace (key nn) = namespace (key ?cd1)" and nr: "new \<noteq> root_node ?s1"
      by (rule reshaped_split [OF reshapedD(1) [OF r1] n1, of v m E]) (use cr cv cd True m in auto)
    let ?s3 = "upd_node s2 new ?g"
    have r3: "reshaped H s2 ?s3" by (rule reshaped_touch [OF reshapedD(1) [OF r2]]) simp
    note r = reshaped_trans [OF reshaped_trans [OF r1 r2] r3]
    have x: "shape ?s3 new = Some (snode_of (?g nn))" using nn(1) by (simp add: shape_of_def)
    have g: "snode_of (?g nn) = snode_of nn" by (rule touchingD) simp
    have "root_node ?s3 = root_node s" "cache_page_size ?s3 = ?ps" using same_setupD(2,6) [OF reshapedD(2) [OF r]] by simp_all
    then obtain nd3 where "shape ?s3 node = Some nd3" "(page_key ?ps ?ns ?us, new) \<in> set (s_children nd3)"
      using tree_shapeD(6) [OF cache_okD(1) [OF reshapedD(1) [OF r]] x] nr g nn p cp cd(2) cns mt page_key_take [of ?ps m ?ns ?us] m
      by auto
    then show ?thesis
      using that [OF n1 km m(1) mk(1) m(2) _ r _ _ x] True run g nn p cp cd(2) cns mt by simp
  next
    case False
    then have ml: "m = key_len (key cd)" using mk by simp
    let ?s3 = "upd_node ?s1 c ?g"
    have r3: "reshaped H ?s1 ?s3" by (rule reshaped_touch [OF reshapedD(1) [OF r1]]) simp
    have sh: "shape ?s3 = shape s"
      using touchingD(1) [of ?g] by (simp add: shape_of_set_node snode_of_def)
    show ?thesis
      by (rule that [OF n1 km m(1) mk(1) m(2) _ reshaped_trans [OF r1 r3], of c "snode_of nd" scd v])
        (use snd cin scd cns cv mt ml False cd(2) sh in simp_all)
  qed
qed

lemma insert_loop_facts:
  assumes "cache_ok H s" "nodes s node \<noteq> None" "key_ok k" "is_bigram k = is_eagle s" "cache_page_size s dvd key_len k"
    "0 < key_len k \<Longrightarrow> ck = page_key (cache_page_size s) (namespace k) (key_iter k)" "key_len k < fuel"
  shows "\<exists>node' nd' k' ck' m s' vs. insert_loop E fuel t prio chunked s node k v ck tot = Inr (node', k', drop m v, ck', tot + m, s') \<and>
    reshaped H s s' \<and> longest (cache_page_size s) (namespace k) (shape s) node (key_iter k) m \<and>
    walk (namespace k) (shape s') node node' (take m (key_iter k)) vs \<and> nodes s' node' = Some nd' \<and>
    key_iter k' = drop m (key_iter k) \<and> namespace k' = namespace k \<and> key_ok k' \<and> is_bigram k' = is_bigram k \<and>
    (0 < key_len k' \<longrightarrow> ck' = page_key (cache_page_size s) (namespace k) (key_iter k') \<and> map_of (children nd') ck' = None)"
  using assms
proof (induction fuel arbitrary: s node k v ck tot)
  case (Suc fuel)
  note ok = Suc.prems(1) and tree = cache_okD(1) [OF Suc.prems(1)]
  let ?ps = "cache_page_size s" and ?ns = "namespace k" and ?us = "key_iter k"
  obtain nd where nd: "nodes s node = Some nd" using Suc.prems(2) by blast
  note snd = shape_SomeI [OF nd]
  show ?case
  proof (cases "key_len k = 0 \<or> map_of (children nd) ck = None")
    case True
    have "longest ?ps ?ns (shape s) node ?us 0"
      by (rule longest_stop [OF tree snd]) (use True Suc.prems(6) in \<open>cases "key_len k = 0"; simp add: key_iter_empty\<close>)
    moreover have "insert_loop E (Suc fuel) t prio chunked s node k v ck tot = Inr (node, k, v, ck, tot, s)"
      using True nd by (cases "key_len k = 0") simp_all
    ultimately show ?thesis
      using nd True Suc.prems(3,6) reshaped_refl [OF ok]
      by (intro exI [of _ node] exI [of _ nd] exI [of _ k] exI [of _ ck] exI [of _ 0] exI [of _ s] exI [of _ "[]"])
        (auto intro: walk_here)
  next
    case False
    then obtain c where pos: "0 < key_len k" and c: "map_of (children nd) ck = Some c" by auto
    note ck = Suc.prems(6) [OF pos]
    let ?s1 = "upd_node s c (\<lambda>nd. nd\<lparr>last_access_time := t\<rparr>)"
    let ?g = "\<lambda>nd. inc_hit_count chunked (nd\<lparr>priority := max (priority nd) prio\<rparr>)"
    obtain cd m x s3 w xd nd3 where cd: "nodes ?s1 c = Some cd" and km: "key_match (key cd) k ?ps = Inr m"
      and m: "0 < m" "m \<le> key_len k" "?ps dvd m"
      and step: "(if m < key_len (key cd) then rbind (split_node E ?s1 (key cd) c m) (\<lambda>(new, s2). Inr (new, upd_node s2 new ?g))
        else Inr (c, upd_node ?s1 c ?g)) = Inr (x, s3)"
      and r3: "reshaped H s s3" and n3: "shape s3 node = Some nd3" "(page_key ?ps ?ns ?us, x) \<in> set (s_children nd3)"
      and x: "shape s3 x = Some xd" "s_ns xd = ?ns" "s_units xd = take m ?us" "s_val xd = Some w"
      by (rule insert_round [OF ok nd Suc.prems(4,5) pos, of c t E chunked prio]) (use c ck in auto)
    note R3 = reshapedD [OF r3] and S3 = same_setupD [OF reshapedD(2) [OF r3]]
    let ?k = "key_drop k m"
    obtain ck' where ck': "(if key_len ?k > 0 then child_key ?k ?ps else Inr ck) = Inr ck'"
      and ck'': "0 < key_len ?k \<Longrightarrow> ck' = page_key ?ps (namespace ?k) (key_iter ?k)"
      using next_child_key [of ?ps ?k ck] Suc.prems(5) m by (auto simp: dvd_diff_nat)
    have "\<exists>node' nd' k' ck2 l s' vs. insert_loop E fuel t prio chunked s3 x ?k (drop m v) ck' (tot + m) = Inr (node', k', drop l (drop m v), ck2, tot + m + l, s') \<and>
      reshaped H s3 s' \<and> longest (cache_page_size s3) (namespace ?k) (shape s3) x (key_iter ?k) l \<and>
      walk (namespace ?k) (shape s') x node' (take l (key_iter ?k)) vs \<and> nodes s' node' = Some nd' \<and>
      key_iter k' = drop l (key_iter ?k) \<and> namespace k' = namespace ?k \<and> key_ok k' \<and> is_bigram k' = is_bigram ?k \<and>
      (0 < key_len k' \<longrightarrow> ck2 = page_key (cache_page_size s3) (namespace ?k) (key_iter k') \<and> map_of (children nd') ck2 = None)"
      by (rule Suc.IH [OF R3(1)])
        (use Suc.prems(3-5,7) x(1) m ck'' S3 in \<open>auto simp: shape_of_Some dvd_diff_nat\<close>)
    then obtain node' nd' k' ck2 l s' vs where rest: "insert_loop E fuel t prio chunked s3 x ?k (drop m v) ck' (tot + m) = Inr (node', k', drop (m + l) v, ck2, tot + (m + l), s')"
      and r': "reshaped H s3 s'" and lo: "longest ?ps ?ns (shape s3) x (drop m ?us) l"
      and w': "walk ?ns (shape s') x node' (take l (drop m ?us)) vs" and n': "nodes s' node' = Some nd'"
      and k': "key_iter k' = drop (m + l) ?us" "namespace k' = ?ns" "key_ok k'" "is_bigram k' = is_bigram k"
      "0 < key_len k' \<longrightarrow> ck2 = page_key ?ps ?ns (key_iter k') \<and> map_of (children nd') ck2 = None"
      using Suc.prems(3) S3(2) by (auto simp: add.commute add.assoc)
    have run: "insert_loop E (Suc fuel) t prio chunked s node k v ck tot = Inr (node', k', drop (m + l) v, ck2, tot + (m + l), s')"
      using pos nd c cd km step ck' rest by (simp add: Let_def)
    have tree3: "tree_shape ?ps (root_node s) (shape s3)" using cache_okD(1) [OF R3(1)] S3 by simp
    have xl: "length (s_units xd) = m" using x(3) m by simp
    have "longest ?ps ?ns (shape s3) node ?us (m + l)"
      using longest_whole_child [OF tree3 n3 x(1,2) _ lo, of ?us] x(3) xl by simp
    then have lo': "longest ?ps ?ns (shape s) node ?us (m + l)" using longest_reshaped [OF r3] nd by simp
    have "walk ?ns (shape s3) node x (s_units xd @ []) (w @ [])"
      by (rule walk_step [OF n3 x(1,2,4) walk_here])
    then have "walk ?ns (shape s') node x (take m ?us) w" using reshapedD(15) [OF r'] x(3) by simp
    from walk_append [OF this w'] have wk: "walk ?ns (shape s') node node' (take (m + l) ?us) (w @ vs)" by (simp add: take_add)
    show ?thesis
      by (intro exI conjI, rule run, rule reshaped_trans [OF r3 r'], rule lo', rule wk, rule n', (rule k')+)
  qed
qed simp

section \<open>Paths\<close>

lemma walk_ns: "walk ns sh n m us vs \<Longrightarrow> m = n \<or> (\<exists>md. sh m = Some md \<and> s_ns md = ns)"
  by (induction rule: walk.induct) auto

lemma walk_last:
  assumes "walk ns sh n m us vs"
  shows "(m = n \<and> us = [] \<and> vs = []) \<or>
    (\<exists>p pd k md v us0 vs0. walk ns sh n p us0 vs0 \<and> sh p = Some pd \<and> (k, m) \<in> set (s_children pd) \<and> sh m = Some md \<and>
       s_val md = Some v \<and> us = us0 @ s_units md \<and> vs = vs0 @ v)"
  using assms
proof (induction rule: walk.induct)
  case (walk_step n nd k c cd v m us vs)
  from walk_step.IH show ?case
  proof
    assume "m = c \<and> us = [] \<and> vs = []"
    then show ?thesis using walk_step(1-5) walk_here [of ns sh n]
      by (intro disjI2 exI [of _ n] exI [of _ nd] exI [of _ k] exI [of _ cd] exI [of _ v] exI [of _ "[]"]) auto
  next
    assume "\<exists>p pd k md v us0 vs0. walk ns sh c p us0 vs0 \<and> sh p = Some pd \<and> (k, m) \<in> set (s_children pd) \<and> sh m = Some md \<and>
       s_val md = Some v \<and> us = us0 @ s_units md \<and> vs = vs0 @ v"
    then obtain p pd k' md v' us0 vs0 where p: "walk ns sh c p us0 vs0" "sh p = Some pd" "(k', m) \<in> set (s_children pd)" "sh m = Some md"
      "s_val md = Some v'" "us = us0 @ s_units md" "vs = vs0 @ v'" by blast
    have "walk ns sh n p (s_units cd @ us0) (v @ vs0)" by (rule walk.walk_step [OF walk_step(1-5) p(1)])
    then show ?thesis using p by (metis append.assoc)
  qed
qed simp

lemma walk_unique:
  assumes tree: "tree_shape ps r sh"
  shows "walk ns sh r m us vs \<Longrightarrow> walk ns sh r m us' vs' \<Longrightarrow> us = us' \<and> vs = vs'"
proof -
  obtain d :: "nat \<Rightarrow> nat" where d: "\<And>n nd p. sh n = Some nd \<Longrightarrow> s_parent nd = Some p \<Longrightarrow> d p < d n"
    by (rule parent_rank [OF tree]) blast
  show "walk ns sh r m us vs \<Longrightarrow> walk ns sh r m us' vs' \<Longrightarrow> us = us' \<and> vs = vs'"
  proof (induction "d m" arbitrary: m us vs us' vs' rule: less_induct)
    case less
    have root: "\<not> (k, r) \<in> set (s_children pd)" if "sh p = Some pd" for k p pd using tree_shapeD(5) [OF tree that] by blast
    show ?case
    proof (cases "m = r")
      case True
      then show ?thesis using walk_last [OF less.prems(1)] walk_last [OF less.prems(2)] root by blast
    next
      case False
      then obtain p pd k md v us0 vs0 where p: "walk ns sh r p us0 vs0" "sh p = Some pd" "(k, m) \<in> set (s_children pd)" "sh m = Some md"
        "s_val md = Some v" "us = us0 @ s_units md" "vs = vs0 @ v" using walk_last [OF less.prems(1)] by blast
      from False obtain q qd k' md' v' us1 vs1 where q: "walk ns sh r q us1 vs1" "sh q = Some qd" "(k', m) \<in> set (s_children qd)" "sh m = Some md'"
        "s_val md' = Some v'" "us' = us1 @ s_units md'" "vs' = vs1 @ v'" using walk_last [OF less.prems(2)] by blast
      have "s_parent md = Some p" "s_parent md = Some q"
        using tree_shapeD(5) [OF tree p(2,3)] tree_shapeD(5) [OF tree q(2,3)] p(4) q(4) by auto
      then have pq: "q = p" "d p < d m" using d [OF p(4)] by auto
      have "us0 = us1 \<and> vs0 = vs1" by (rule less.hyps [OF pq(2) p(1) q(1) [unfolded pq(1)]])
      moreover have "md' = md" "v' = v" using p(4,5) q(4,5) by simp_all
      ultimately show ?thesis using p(6,7) q(6,7) by simp
    qed
  qed
qed

section \<open>Insertion\<close>

text \<open>What an insertion does: \<open>n\<close> units were there, the slots \<open>V\<close> now stand for the key \<open>us\<close>.\<close>

definition inserted ::
  "(nat \<Rightarrow> int) \<Rightarrow> radix_cache \<Rightarrow> radix_cache \<Rightarrow> string option \<times> string option \<Rightarrow> key_unit list \<Rightarrow> int list \<Rightarrow> nat \<Rightarrow> int list \<Rightarrow> nat \<Rightarrow> bool" where
  "inserted H s s' ns us v n V node \<longleftrightarrow>
     cache_ok H s' \<and> hashes_ok s' \<and> same_setup s s' \<and> kv_pool s' = kv_pool s \<and> req_to_token s' = req_to_token s \<and>
     evictable_size s' = evictable_size s + int (length us - n) \<and> protected_size s' = protected_size s \<and>
     tree_pages (cache_page_size s) (shape s') = mset (pages_seq (cache_page_size s) (drop n v)) + tree_pages (cache_page_size s) (shape s) \<and>
     (runs_ok (cache_page_size s) (shape s) \<longrightarrow> page_run (cache_page_size s) (drop n v) \<longrightarrow> runs_ok (cache_page_size s) (shape s')) \<and>
     (\<exists>X. live_blocks s' = live_blocks s + X \<and>
        (enabled (kv_events s) \<longrightarrow> (\<forall>M. replay (queue (kv_events s')) M = replay (queue (kv_events s)) M + X))) \<and>
     (\<forall>ns n m us vs. walk ns (shape s) n m us vs \<longrightarrow> walk ns (shape s') n m us vs) \<and>
     walk ns (shape s') (root_node s) node us V \<and>
     (\<forall>ns' us' vs'. cached s' ns' us' vs' \<longleftrightarrow> cached s ns' us' vs' \<or>
        (ns' = ns \<and> (\<exists>j. j \<le> length us \<and> cache_page_size s dvd j \<and> us' = take j us \<and> vs' = take j V)))"

lemma insert_leaf_inserted:
  assumes r3: "reshaped H s s3" and n: "n \<le> length us" "cache_page_size s dvd n" and lv: "length v = length us"
    and w: "walk ns (shape s3) (root_node s) node (take n us) vs"
    and leaf: "cache_ok H s'" "hashes_ok s'" "same_setup s3 s'"
      "leaf_place (cache_page_size s) (root_node s) new node ns (drop n us) (drop n v) (shape s3)"
      "shape s' = shape_leaf (cache_page_size s) new node ns (drop n us) (drop n v) (shape s3)"
      "kv_pool s' = kv_pool s3" "req_to_token s' = req_to_token s3"
      "evictable_size s' = evictable_size s3 + int (length us - n)" "protected_size s' = protected_size s3"
      "live_blocks s' = live_blocks s3 + X"
      "\<And>M. enabled (kv_events s3) \<Longrightarrow> replay (queue (kv_events s')) M = replay (queue (kv_events s3)) M + X"
    and ok: "cache_ok H s"
  shows "inserted H s s' ns us v n (vs @ drop n v) new"
proof -
  let ?ps = "cache_page_size s" and ?r = "root_node s"
  note R3 = reshapedD [OF r3] and S3 = same_setupD [OF reshapedD(2) [OF r3]] and S' = same_setup_trans [OF reshapedD(2) [OF r3] leaf(3)]
  have tree3: "tree_shape ?ps ?r (shape s3)" using cache_okD(1) [OF R3(1)] S3 by simp
  have nr: "new \<noteq> ?r" by (rule leafE [OF leaf(4)])
  have fin: "finite (dom (shape s3))" using cache_okD(2) [OF R3(1)] by (simp add: books_def)
  have lvs: "length vs = n" using below_length [OF tree3 walk_below_self [OF w]] n(1) by simp
  have b3: "cached s ns' us' vs' = below ?ps ns' (shape s3) ?r us' vs'" for ns' us' vs'
    using R3(14) [OF root_live [OF ok]] by (simp add: cached_def)
  have cont: "cached s' ns' us' vs' \<longleftrightarrow> cached s ns' us' vs' \<or>
      (ns' = ns \<and> (\<exists>j. j \<le> length us \<and> ?ps dvd j \<and> us' = take j us \<and> vs' = take j (vs @ drop n v)))" for ns' us' vs'
  proof -
    have "cached s' ns' us' vs' \<longleftrightarrow> cached s ns' us' vs' \<or>
      (ns' = ns \<and> (\<exists>us1 vs1 m. walk ns (shape s3) ?r node us1 vs1 \<and> m \<le> length (drop n us) \<and> ?ps dvd m \<and>
         us' = us1 @ take m (drop n us) \<and> vs' = vs1 @ take m (drop n v)))"
      unfolding cached_def [of s'] same_setupD(2,6) [OF S'] leaf(5) b3 by (rule below_leaf [OF leaf(4) nr [symmetric]])
    also have "(\<exists>us1 vs1 m. walk ns (shape s3) ?r node us1 vs1 \<and> m \<le> length (drop n us) \<and> ?ps dvd m \<and>
         us' = us1 @ take m (drop n us) \<and> vs' = vs1 @ take m (drop n v)) \<longleftrightarrow>
       (\<exists>m \<le> length us - n. ?ps dvd m \<and> us' = take (n + m) us \<and> vs' = take (n + m) (vs @ drop n v))"
    proof
      assume "\<exists>us1 vs1 m. walk ns (shape s3) ?r node us1 vs1 \<and> m \<le> length (drop n us) \<and> ?ps dvd m \<and>
         us' = us1 @ take m (drop n us) \<and> vs' = vs1 @ take m (drop n v)"
      then obtain us1 vs1 m where x: "walk ns (shape s3) ?r node us1 vs1" "m \<le> length (drop n us)" "?ps dvd m"
         "us' = us1 @ take m (drop n us)" "vs' = vs1 @ take m (drop n v)" by blast
      have "take n us = us1 \<and> vs = vs1" by (rule walk_unique [OF tree3 w x(1)])
      then show "\<exists>m \<le> length us - n. ?ps dvd m \<and> us' = take (n + m) us \<and> vs' = take (n + m) (vs @ drop n v)"
        using x lvs by (intro exI [of _ m]) (simp add: take_add)
    next
      assume "\<exists>m \<le> length us - n. ?ps dvd m \<and> us' = take (n + m) us \<and> vs' = take (n + m) (vs @ drop n v)"
      then obtain m where "m \<le> length us - n" "?ps dvd m" "us' = take (n + m) us" "vs' = take (n + m) (vs @ drop n v)" by blast
      then show "\<exists>us1 vs1 m. walk ns (shape s3) ?r node us1 vs1 \<and> m \<le> length (drop n us) \<and> ?ps dvd m \<and>
         us' = us1 @ take m (drop n us) \<and> vs' = vs1 @ take m (drop n v)"
        using w lvs by (intro exI [of _ "take n us"] exI [of _ vs] exI [of _ m]) (simp add: take_add)
    qed
    also have "\<dots> \<longleftrightarrow> (\<exists>j. n \<le> j \<and> j \<le> length us \<and> ?ps dvd j \<and> us' = take j us \<and> vs' = take j (vs @ drop n v))"
    proof
      assume "\<exists>j. n \<le> j \<and> j \<le> length us \<and> ?ps dvd j \<and> us' = take j us \<and> vs' = take j (vs @ drop n v)"
      then obtain j where "n \<le> j" "j \<le> length us" "?ps dvd j" "us' = take j us" "vs' = take j (vs @ drop n v)" by blast
      then show "\<exists>m \<le> length us - n. ?ps dvd m \<and> us' = take (n + m) us \<and> vs' = take (n + m) (vs @ drop n v)"
        using n(2) by (intro exI [of _ "j - n"]) (auto simp: dvd_diff_nat)
    next
      assume "\<exists>m \<le> length us - n. ?ps dvd m \<and> us' = take (n + m) us \<and> vs' = take (n + m) (vs @ drop n v)"
      then obtain m where "m \<le> length us - n" "?ps dvd m" "us' = take (n + m) us" "vs' = take (n + m) (vs @ drop n v)" by blast
      then show "\<exists>j. n \<le> j \<and> j \<le> length us \<and> ?ps dvd j \<and> us' = take j us \<and> vs' = take j (vs @ drop n v)"
        using n by (intro exI [of _ "n + m"]) auto
    qed
    finally have eq: "cached s' ns' us' vs' \<longleftrightarrow> cached s ns' us' vs' \<or>
      (ns' = ns \<and> (\<exists>j. n \<le> j \<and> j \<le> length us \<and> ?ps dvd j \<and> us' = take j us \<and> vs' = take j (vs @ drop n v)))" .
    have "cached s ns (take j us) (take j (vs @ drop n v))" if "j < n" "?ps dvd j" for j
      using below_prefix [OF tree3 walk_below_self [OF w] that(2)] that(1) lvs b3 by (simp add: min_def)
    then show ?thesis using eq by (metis not_le)
  qed
  have "walk ns (shape s') ?r new (take n us @ drop n us) (vs @ drop n v)"
    unfolding leaf(5) by (rule walk_leaf(2) [OF leaf(4) w])
  moreover have "walk a (shape s) b c d e \<Longrightarrow> walk a (shape s') b c d e" for a b c d e
    unfolding leaf(5) using walk_leaf(1) [OF leaf(4)] R3(15) by blast
  moreover have "tree_pages ?ps (shape s') = mset (pages_seq ?ps (drop n v)) + tree_pages ?ps (shape s)"
    unfolding leaf(5) tree_pages_leaf [OF leaf(4) fin] R3(11) ..
  moreover have "runs_ok ?ps (shape s) \<longrightarrow> page_run ?ps (drop n v) \<longrightarrow> runs_ok ?ps (shape s')"
    unfolding leaf(5) using runs_ok_leaf [OF leaf(4)] R3(12) by blast
  moreover have "\<exists>X. live_blocks s' = live_blocks s + X \<and>
        (enabled (kv_events s) \<longrightarrow> (\<forall>M. replay (queue (kv_events s')) M = replay (queue (kv_events s)) M + X))"
    using leaf(10,11) R3(6,10) by auto
  ultimately show ?thesis
    unfolding inserted_def using leaf S' R3 cont by simp
qed

lemma reshaped_inserted:
  assumes r: "reshaped H s s'" and ok: "cache_ok H s" "hashes_ok s" and lv: "length v = length us"
    and w: "walk ns (shape s') (root_node s) node us V"
  shows "inserted H s s' ns us v (length us) V node"
proof -
  note R = reshapedD [OF r] and S = same_setupD [OF reshapedD(2) [OF r]]
  have tree': "tree_shape (cache_page_size s) (root_node s) (shape s')" using cache_okD(1) [OF R(1)] S by simp
  have c: "cached s' ns' us' vs' = cached s ns' us' vs'" for ns' us' vs'
    using R(14) [OF root_live [OF ok(1)]] S by (simp add: cached_def)
  have "cached s ns (take j us) (take j V)" if "cache_page_size s dvd j" for j
    using below_prefix [OF tree' walk_below_self [OF w] that] c [of ns "take j us" "take j V"] S by (simp add: cached_def)
  then have "\<forall>ns' us' vs'. cached s' ns' us' vs' \<longleftrightarrow> cached s ns' us' vs' \<or>
        (ns' = ns \<and> (\<exists>j. j \<le> length us \<and> cache_page_size s dvd j \<and> us' = take j us \<and> vs' = take j V))"
    using c by blast
  then show ?thesis
    unfolding inserted_def using R ok lv w by (auto simp: pages_seq_def intro!: exI [where x = "{#}"])
qed

lemma insert_helper_facts:
  assumes ok: "cache_ok H s" and hk: "hashes_ok s" and laws: "hash_laws E"
    and k: "key_ok k" "is_bigram k = is_eagle s" "cache_page_size s dvd key_len k" "length v = key_len k"
  obtains n node s' V where "insert_helper E s (root_node s) k v prio chunked = Inr (n, node, s')"
    "longest (cache_page_size s) (namespace k) (shape s) (root_node s) (key_iter k) n"
    "inserted H s s' (namespace k) (key_iter k) v n V node" "length V = key_len k" "drop n V = drop n v"
proof -
  let ?ps = "cache_page_size s" and ?r = "root_node s" and ?ns = "namespace k" and ?us = "key_iter k"
  define pr where "pr = (case prio of None \<Rightarrow> 0 | Some p \<Rightarrow> p)"
  let ?t = "monotonic E (clock s)"
  let ?s1 = "s\<lparr>clock := clock s + 1\<rparr>"
  let ?s2 = "upd_node ?s1 ?r (\<lambda>nd. nd\<lparr>last_access_time := ?t, priority := max (priority nd) pr\<rparr>)"
  have r1: "reshaped H s ?s1" by (rule reshaped_clock [OF ok])
  have r2: "reshaped H ?s1 ?s2" by (rule reshaped_touch [OF reshapedD(1) [OF r1]]) simp
  note r12 = reshaped_trans [OF r1 r2]
  note R2 = reshapedD [OF r12]
  have len: "length ?us = key_len k" by simp
  note conclude = that
  have fin: "?thesis" if res: "insert_helper E s ?r k v prio chunked = Inr (n, node, s')"
    and lo: "longest ?ps ?ns (shape s) ?r ?us n" and ins: "inserted H s s' ?ns ?us v n V node" and dr: "drop n V = drop n v" for n node s' V
  proof -
    have "cache_ok H s'" "same_setup s s'" "walk ?ns (shape s') ?r node ?us V" using ins by (auto simp: inserted_def)
    then have "length V = key_len k"
      using below_length [OF cache_okD(1) walk_below_self] same_setupD(2) [of s s'] by (metis len)
    then show ?thesis using conclude [OF res lo ins _ dr] by simp
  qed
  show ?thesis
  proof (cases "key_len k = 0")
    case True
    then have run: "insert_helper E s ?r k v prio chunked = Inr (0, ?r, ?s2)"
      by (simp add: insert_helper_def read_clock_def pr_def)
    have us: "?us = []" "v = []" using True k(4) key_iter_empty [of k] by simp_all
    obtain rd where rd: "nodes s ?r = Some rd" using root_live [OF ok] by blast
    have "longest ?ps ?ns (shape s) ?r ?us 0" by (rule longest_stop [OF cache_okD(1) [OF ok] shape_SomeI [OF rd]]) (use us in simp)
    moreover have "inserted H s ?s2 ?ns ?us v 0 [] ?r"
      using reshaped_inserted [OF r12 ok hk, of v ?us ?ns ?r "[]"] us by (simp add: walk_here)
    ultimately show ?thesis using fin [OF run] us by simp
  next
    case False
    let ?ck = "page_key ?ps ?ns ?us"
    have le: "?ps \<le> key_len k" using dvd_imp_le [OF k(3)] False by simp
    have sh2: "shape ?s2 = shape s" by (simp add: shape_of_set_node snode_of_def)
    have "\<exists>node' nd' k' ck' m s' vs. insert_loop E (Suc (key_len k)) ?t pr chunked ?s2 ?r k v ?ck 0 = Inr (node', k', drop m v, ck', 0 + m, s') \<and>
      reshaped H ?s2 s' \<and> longest (cache_page_size ?s2) ?ns (shape ?s2) ?r ?us m \<and>
      walk ?ns (shape s') ?r node' (take m ?us) vs \<and> nodes s' node' = Some nd' \<and>
      key_iter k' = drop m ?us \<and> namespace k' = ?ns \<and> key_ok k' \<and> is_bigram k' = is_bigram k \<and>
      (0 < key_len k' \<longrightarrow> ck' = page_key (cache_page_size ?s2) ?ns (key_iter k') \<and> map_of (children nd') ck' = None)"
      by (rule insert_loop_facts [OF R2(1)]) (use k root_live [OF ok] in auto)
    then obtain node' nd' k' ck' m s3 vs where loop: "insert_loop E (Suc (key_len k)) ?t pr chunked ?s2 ?r k v ?ck 0 = Inr (node', k', drop m v, ck', m, s3)"
      and r3: "reshaped H ?s2 s3" and lo: "longest ?ps ?ns (shape s) ?r ?us m" and w: "walk ?ns (shape s3) ?r node' (take m ?us) vs"
      and n': "nodes s3 node' = Some nd'" and k': "key_iter k' = drop m ?us" "namespace k' = ?ns" "key_ok k'" "is_bigram k' = is_bigram k"
      and ck: "0 < key_len k' \<Longrightarrow> ck' = page_key ?ps ?ns (key_iter k') \<and> map_of (children nd') ck' = None"
      unfolding sh2 by auto
    note r = reshaped_trans [OF r12 r3] and lk = length_key_iter [of k', unfolded k'(1)]
    note R = reshapedD [OF r] and S = same_setupD [OF reshapedD(2) [OF r]]
    have m: "m \<le> length ?us" "?ps dvd m" using longest_dvd [OF cache_okD(1) [OF ok] lo] by simp_all
    have run: "insert_helper E s ?r k v prio chunked =
      (if key_len k' > 0 then rbind (insert_leaf E pr chunked s3 node' k' (drop m v) ck') (\<lambda>(new, s4). Inr (m, new, s4)) else Inr (m, node', s3))"
      using False le loop by (simp add: insert_helper_def read_clock_def pr_def [symmetric] page_key_child_key del: insert_loop.simps)
    show ?thesis
    proof (cases "key_len k' = 0")
      case True
      then have ml: "m = length ?us" using lk m(1) by simp
      have "inserted H s s3 ?ns ?us v m vs node'"
        using reshaped_inserted [OF r ok hk, of v ?us ?ns node' vs] w ml k(4) by simp
      moreover have "drop m vs = drop m v"
      proof -
        have "length vs = length ?us"
          using below_length [OF cache_okD(1) [OF R(1)], of ?ns ?r "take m ?us" vs] walk_below_self [OF w] ml by simp
        then show ?thesis using ml k(4) by simp
      qed
      ultimately show ?thesis using fin [OF _ lo] run True by simp
    next
      case False
      have ns': "namespace (key nd') = namespace k'" if "node' \<noteq> root_node s3"
        using walk_ns [OF w] that S n' k'(2) by (auto simp: shape_SomeI)
      have dk: "cache_page_size s3 dvd key_len k'" using lk k(3) m(2) S(2) by (metis dvd_diff_nat length_drop len)
      obtain s' X where leaf: "insert_leaf E pr chunked s3 node' k' (drop m v) ck' = Inr (counter s3, s')" "cache_ok H s'" "hashes_ok s'" "same_setup s3 s'"
        "leaf_place (cache_page_size s3) (root_node s3) (counter s3) node' (namespace k') (key_iter k') (drop m v) (shape s3)"
        "shape s' = shape_leaf (cache_page_size s3) (counter s3) node' (namespace k') (key_iter k') (drop m v) (shape s3)"
        "kv_pool s' = kv_pool s3" "req_to_token s' = req_to_token s3"
        "evictable_size s' = evictable_size s3 + int (key_len k')" "protected_size s' = protected_size s3"
        "live_blocks s' = live_blocks s3 + X"
        "\<And>M. enabled (kv_events s3) \<Longrightarrow> replay (queue (kv_events s')) M = replay (queue (kv_events s3)) M + X"
        by (rule insert_leaf_facts [OF R(1) R(3) [OF hk] laws n' ns', of "drop m v" ck' pr chunked])
          (use k'(1-4) k(2,4) S(2,3) False ck lk dk in auto)
      have "inserted H s s' ?ns ?us v m (vs @ drop m v) (counter s3)"
        by (rule insert_leaf_inserted [OF r m _ w leaf(2-4)]) (use leaf k' k(4) S lk ok in simp_all)
      moreover have "drop m (vs @ drop m v) = drop m v"
      proof -
        have "length vs = m"
          using below_length [OF cache_okD(1) [OF R(1)], of ?ns ?r "take m ?us" vs] walk_below_self [OF w] S m(1) by simp
        then show ?thesis by simp
      qed
      ultimately show ?thesis using fin [OF _ lo] run False leaf(1) by simp
    qed
  qed
qed

lemma insert_op_facts:
  assumes ok: "cache_ok H s" and hk: "hashes_ok s" and laws: "hash_laws E" and en: "\<not> disable s" and k: "key_fits s k"
    and al: "al = length (lookup_units s k) div cache_page_size s * cache_page_size s" "al \<le> length v"
  obtains n node s' V where "insert_op E s k (Some v) prio chunked = Inr (\<lparr>prefix_len = n, insert_last_node = Some node\<rparr>, s')"
    "longest (cache_page_size s) (namespace k) (shape s) (root_node s) (lookup_units s k) n" "n \<le> al"
    "inserted H s s' (namespace k) (take al (lookup_units s k)) (take al v) n V node" "length V = al" "drop n V = drop n (take al v)"
proof -
  let ?k1 = "fst (maybe_to_bigram_view k (is_eagle s) (Some v))"
  let ?ps = "cache_page_size s"
  let ?k = "page_aligned ?k1 ?ps"
  note pk = prepared_key [OF k, of ?k1, OF refl]
  have len: "key_len ?k1 = length (lookup_units s k)" using pk(4) length_key_iter [of ?k1] by simp
  have kl: "key_len ?k = al" using len al by simp
  have ki: "key_iter ?k = take al (lookup_units s k)" using pk(4) len al by simp
  obtain v1 where v1: "snd (maybe_to_bigram_view k (is_eagle s) (Some v)) = Some v1" "take al v1 = take al v"
    using al len by (auto simp: maybe_to_bigram_view_def Let_def min_absorb1 split: if_splits)
  have run: "insert_op E s k (Some v) prio chunked =
    rbind (insert_helper E s (root_node s) ?k (take al v) prio chunked) (\<lambda>(n, node, s'). Inr (\<lparr>prefix_len = n, insert_last_node = Some node\<rparr>, s'))"
    using en v1 kl by (auto simp: insert_op_def Let_def split: prod.splits)
  have kf: "key_ok ?k" "is_bigram ?k = is_eagle s" "namespace ?k = namespace k" using pk by simp_all
  obtain n node s' V where h: "insert_helper E s (root_node s) ?k (take al v) prio chunked = Inr (n, node, s')"
    and lo: "longest ?ps (namespace ?k) (shape s) (root_node s) (key_iter ?k) n"
    and ins: "inserted H s s' (namespace ?k) (key_iter ?k) (take al v) n V node" "length V = key_len ?k" "drop n V = drop n (take al v)"
    by (rule insert_helper_facts [OF ok hk laws kf(1,2), of "take al v" prio chunked]) (use kl al in auto)
  have "longest ?ps (namespace k) (shape s) (root_node s) (lookup_units s k) n"
    by (rule longest_aligned [OF cache_okD(1) [OF ok]]) (use lo ki kf(3) al in simp)
  moreover have "n \<le> al" using longestD(1) [OF lo] kl by simp
  ultimately show ?thesis using that [of n node s' V] run h ins ki kf(3) kl by simp
qed

end
