(* ===== verification/RadixLock.thy ===== *)
theory RadixLock
  imports RadixInsert
begin

text \<open>
  Locking. \<open>inc_lock_ref\<close> and \<open>dec_lock_ref\<close> walk from a node to the root and change the lock
  count of every node on the way; the loop ends because the parents of a node are distinct
  live nodes. The books follow: tokens move between the evictable and the protected size.
\<close>

section \<open>Lock counts and the shape\<close>

definition unlock :: "shape \<Rightarrow> shape" where
  "unlock sh = (\<lambda>n. map_option (s_lock_update (\<lambda>_. 0)) (sh n))"

lemma unlock_Some: "unlock sh n = Some a \<longleftrightarrow> (\<exists>nd. sh n = Some nd \<and> a = nd\<lparr>s_lock := 0\<rparr>)"
  by (auto simp: unlock_def)

lemma unlock_upd: "sh x = Some xd \<Longrightarrow> unlock (sh(x \<mapsto> xd\<lparr>s_lock := l\<rparr>)) = unlock sh"
  by (rule ext) (simp add: unlock_def)

lemma tree_shape_unlock: "tree_shape ps r (unlock sh) = tree_shape ps r sh"
proof -
  have all: "(\<forall>a. unlock sh n = Some a \<longrightarrow> P a) \<longleftrightarrow> (\<forall>nd. sh n = Some nd \<longrightarrow> P (nd\<lparr>s_lock := 0\<rparr>))" for n P
    by (auto simp: unlock_Some)
  have ex: "(\<exists>a. unlock sh n = Some a \<and> P a) \<longleftrightarrow> (\<exists>nd. sh n = Some nd \<and> P (nd\<lparr>s_lock := 0\<rparr>))" for n P
    by (auto simp: unlock_Some)
  show ?thesis unfolding tree_shape_def all ex snode_ok_def root_ok_def
    by (simp add: all ex)
qed

lemma below_unlock: "below ps ns (unlock sh) n us vs = below ps ns sh n us vs"
proof
  show "below ps ns (unlock sh) n us vs \<Longrightarrow> below ps ns sh n us vs"
  proof (induction rule: below.induct)
    case (below_part n nd k c cd v m)
    then show ?case by (auto simp: unlock_Some intro: below.below_part)
  next
    case (below_step n nd k c cd v us vs)
    then show ?case by (auto simp: unlock_Some intro: below.below_step)
  qed (rule below.below_here)
  show "below ps ns sh n us vs \<Longrightarrow> below ps ns (unlock sh) n us vs"
  proof (induction rule: below.induct)
    case (below_part n nd k c cd v m)
    then show ?case using below.below_part [of "unlock sh" n "nd\<lparr>s_lock := 0\<rparr>" k c "cd\<lparr>s_lock := 0\<rparr>" ns v m ps]
      by (simp add: unlock_def)
  next
    case (below_step n nd k c cd v us vs)
    then show ?case using below.below_step [of "unlock sh" n "nd\<lparr>s_lock := 0\<rparr>" k c "cd\<lparr>s_lock := 0\<rparr>" ns v ps us vs]
      by (simp add: unlock_def)
  qed (rule below.below_here)
qed

lemma walk_unlock: "walk ns (unlock sh) n m us vs = walk ns sh n m us vs"
proof
  show "walk ns (unlock sh) n m us vs \<Longrightarrow> walk ns sh n m us vs"
  proof (induction rule: walk.induct)
    case (walk_step n nd k c cd v m us vs)
    then show ?case by (auto simp: unlock_Some intro: walk.walk_step)
  qed (rule walk.walk_here)
  show "walk ns sh n m us vs \<Longrightarrow> walk ns (unlock sh) n m us vs"
  proof (induction rule: walk.induct)
    case (walk_step n nd k c cd v m us vs)
    then show ?case using walk.walk_step [of "unlock sh" n "nd\<lparr>s_lock := 0\<rparr>" k c "cd\<lparr>s_lock := 0\<rparr>" ns v m us vs]
      by (simp add: unlock_def)
  qed (rule walk.walk_here)
qed

section \<open>The way to the root\<close>

inductive up :: "nat \<Rightarrow> shape \<Rightarrow> nat \<Rightarrow> nat list \<Rightarrow> bool" for r sh where
  up_root: "up r sh r []"
| up_step: "n \<noteq> r \<Longrightarrow> sh n = Some nd \<Longrightarrow> s_parent nd = Some p \<Longrightarrow> up r sh p l \<Longrightarrow> up r sh n (n # l)"

inductive_cases up_Nil: "up r sh n []"
inductive_cases up_Cons: "up r sh n (x # l)"

lemma up_exists:
  assumes tree: "tree_shape ps r sh" and n: "sh n \<noteq> None"
  shows "\<exists>l. up r sh n l"
proof -
  obtain d :: "nat \<Rightarrow> nat" where d: "\<And>n nd p. sh n = Some nd \<Longrightarrow> s_parent nd = Some p \<Longrightarrow> d p < d n"
    by (rule parent_rank [OF tree]) blast
  show ?thesis
    using n
  proof (induction "d n" arbitrary: n rule: less_induct)
    case less
    show ?case
    proof (cases "n = r")
      case False
      obtain nd where nd: "sh n = Some nd" using less.prems by blast
      obtain p pd where p: "s_parent nd = Some p" "sh p = Some pd" using tree_shapeD(6) [OF tree nd False] by blast
      from less.hyps [OF d [OF nd p(1)]] p(2) obtain l where "up r sh p l" by auto
      then show ?thesis using up_step [of n r sh, OF False nd p(1)] by blast
    qed (auto intro: up_root)
  qed
qed

lemma up_distinct:
  assumes tree: "tree_shape ps r sh" and u: "up r sh n l"
  shows "distinct l" "set l \<subseteq> dom sh - {r}"
proof -
  obtain d :: "nat \<Rightarrow> nat" where d: "\<And>n nd p. sh n = Some nd \<Longrightarrow> s_parent nd = Some p \<Longrightarrow> d p < d n"
    by (rule parent_rank [OF tree]) blast
  have "distinct l \<and> (\<forall>x \<in> set l. d x \<le> d n \<and> x \<in> dom sh - {r})"
    using u
  proof (induction rule: up.induct)
    case (up_step n nd p l)
    then show ?case using d [OF up_step(2,3)] by fastforce
  qed simp
  then show "distinct l" "set l \<subseteq> dom sh - {r}" by auto
qed

lemma up_unlock: "up r (unlock sh) n l = up r sh n l"
proof
  show "up r (unlock sh) n l \<Longrightarrow> up r sh n l"
    by (induction rule: up.induct) (auto simp: unlock_Some intro: up.intros)
  show "up r sh n l \<Longrightarrow> up r (unlock sh) n l"
  proof (induction rule: up.induct)
    case (up_step n nd p l)
    then show ?case using up.up_step [of n r "unlock sh" "nd\<lparr>s_lock := 0\<rparr>"] by (simp add: unlock_def)
  qed (rule up_root)
qed

lemma up_bound:
  assumes ok: "cache_ok H s" and u: "up (root_node s) (shape s) n l"
  shows "length l < Suc (counter s)"
proof -
  have "set l \<subseteq> {..<counter s}"
    using up_distinct(2) [OF cache_okD(1) [OF ok] u] cache_okD(4) [OF ok] by (auto simp: dom_def shape_of_Some)
  then have "card (set l) \<le> counter s" using card_mono [of "{..<counter s}" "set l"] by simp
  then show ?thesis using distinct_card [OF up_distinct(1) [OF cache_okD(1) [OF ok] u]] by simp
qed

section \<open>One step\<close>

lemma cache_ok_lock_inv: "cache_ok H s \<Longrightarrow> lock_inv (root_node s) H (shape s)"
  using cache_okD(2) by (simp add: books_def)

lemma cache_ok_lock: "cache_ok H s \<Longrightarrow> nodes s n = Some nd \<Longrightarrow> n \<noteq> root_node s \<Longrightarrow> 0 \<le> lock_ref nd"
  using lock_invD(3) [OF cache_ok_lock_inv shape_SomeI] by simp

text \<open>Everything but lock counts and the books stays; the sum of the two sizes too.\<close>

definition relocked :: "radix_cache \<Rightarrow> radix_cache \<Rightarrow> nat set \<Rightarrow> int \<Rightarrow> bool" where
  "relocked s s' L d \<longleftrightarrow>
     same_setup s s' \<and> (hashes_ok s \<longrightarrow> hashes_ok s') \<and> counter s' = counter s \<and>
     kv_pool s' = kv_pool s \<and> req_to_token s' = req_to_token s \<and> kv_events s' = kv_events s \<and>
     live_blocks s' = live_blocks s \<and> unlock (shape s') = unlock (shape s) \<and>
     tree_pages (cache_page_size s) (shape s') = tree_pages (cache_page_size s) (shape s) \<and>
     (runs_ok (cache_page_size s) (shape s) \<longrightarrow> runs_ok (cache_page_size s) (shape s')) \<and>
     evictable_size s' + protected_size s' = evictable_size s + protected_size s \<and>
     (\<forall>x. nodes s' x = map_option (\<lambda>nd. nd\<lparr>lock_ref := lock_ref nd + (if x \<in> L then d else 0)\<rparr>) (nodes s x))"

lemma relocked_refl: "relocked s s {} d"
  by (auto simp: relocked_def option.map_ident_strong)

lemma relocked_trans:
  assumes "relocked s s' L d" "relocked s' s'' L' d" "L \<inter> L' = {}"
  shows "relocked s s'' (L \<union> L') d"
proof -
  have "cache_page_size s' = cache_page_size s" using assms(1) by (simp add: relocked_def same_setup_def)
  then show ?thesis
    using assms unfolding relocked_def
    by (auto intro: same_setup_trans simp: option.map_comp comp_def intro!: option.map_cong)
qed

lemma lock_step:
  assumes ok: "cache_ok (H(n := H n - d)) s" and nd: "nodes s n = Some nd" "n \<noteq> root_node s" "parent nd = Some p" "0 \<le> lock_ref nd + d"
    and ev: "ev = evictable_size s - (if lock_ref nd = 0 then int (key_len (key nd)) else 0) + (if lock_ref nd + d = 0 then int (key_len (key nd)) else 0)"
    and pr: "pr = protected_size s - (if lock_ref nd > 0 then int (key_len (key nd)) else 0) + (if lock_ref nd + d > 0 then int (key_len (key nd)) else 0)"
  obtains s' where "update_leaf_status (upd_node (s\<lparr>evictable_size := ev, protected_size := pr\<rparr>) n (\<lambda>nd. nd\<lparr>lock_ref := lock_ref nd + d\<rparr>)) n = Inr s'"
    "cache_ok (H(p := H p - d)) s'" "relocked s s' {n} d" "evictable_size s' = ev"
proof -
  let ?x = "nd\<lparr>lock_ref := lock_ref nd + d\<rparr>"
  define s1 where "s1 = s\<lparr>evictable_size := ev, protected_size := pr, nodes := (nodes s)(n \<mapsto> ?x)\<rparr>"
  note tree = cache_okD(1) [OF ok] and sn = shape_SomeI [OF nd(1)]
  have s1: "upd_node (s\<lparr>evictable_size := ev, protected_size := pr\<rparr>) n (\<lambda>nd. nd\<lparr>lock_ref := lock_ref nd + d\<rparr>) = s1"
    using nd(1) by (simp add: s1_def set_node_def)
  have sh: "shape s1 = (shape s)(n \<mapsto> (snode_of nd)\<lparr>s_lock := lock_ref nd + d\<rparr>)"
    by (simp add: s1_def snode_of_def)
  have un: "unlock (shape s1) = unlock (shape s)" unfolding sh by (rule unlock_upd [of "shape s" n, OF sn])
  have tree1: "tree_shape (cache_page_size s) (root_node s) (shape s1)" using tree un tree_shape_unlock by metis
  define s' where "s' = s1\<lparr>evictable_leaves := leaf_mark (\<not> lock_ref ?x > 0 \<and> children ?x = []) n (evictable_leaves s)\<rparr>"
  have run: "update_leaf_status s1 n = Inr s'"
    using update_leaf_status_ok [OF tree1, of n ?x] by (simp add: s'_def s1_def)
  have np: "n \<noteq> p"
    using parent_rank [OF tree] sn nd(3) by (metis less_irrefl snode_of_simps(2))
  have b: "books (root_node s) (H(p := H p - d)) (shape s1) ev pr (evictable_leaves s')"
  proof -
    have "((H(n := H n - d))(n := (H(n := H n - d)) n + d))(p := (H(n := H n - d)) p - d) = H(p := H p - d)"
      using np by auto
    moreover have "evictable_leaves s' = leaf_mark (lock_ref nd + d = 0 \<and> children nd = []) n (evictable_leaves s)"
      using nd(4) by (auto simp: s'_def s1_def)
    ultimately show ?thesis
      using books_bump [OF tree cache_okD(2) [OF ok] sn nd(2), of p d, unfolded snode_of_simps length_key_iter] nd(3,4)
      unfolding sh ev pr by (simp only:)
  qed
  have ok': "cache_ok (H(p := H p - d)) s'"
  proof (rule cache_okI)
    show "keys_ok s'" using cache_okD(3) [OF ok] nd(1,2) by (auto simp: keys_ok_def s'_def s1_def)
    show "m < counter s'" if "nodes s' m = Some x" for m x
      using that cache_okD(4) [OF ok] nd(1) by (auto simp: s'_def s1_def split: if_splits)
  qed (use tree1 b in \<open>simp_all add: s'_def s1_def\<close>)
  have fin: "finite (dom (shape s))" "finite (dom (nodes s))" using cache_okD(2) [OF ok] by (simp_all add: books_def)
  have "relocked s s' {n} d"
    unfolding relocked_def
  proof (intro conjI)
    show "hashes_ok s \<longrightarrow> hashes_ok s'" using nd(1,2) by (simp add: hashes_ok_def s'_def s1_def)
    show "live_blocks s' = live_blocks s"
      unfolding live_blocks_def s'_def s1_def
      by (simp, rule fsum_same [of "nodes s" n, OF fin(2) nd(1)]) (simp add: event_hashes_def)
    have sh': "shape s' = shape s1" by (simp add: s'_def)
    show "unlock (shape s') = unlock (shape s)" using un sh' by simp
    show "tree_pages (cache_page_size s) (shape s') = tree_pages (cache_page_size s) (shape s)"
      unfolding sh' sh tree_pages_def by (rule fsum_same [of "shape s" n, OF fin(1) sn]) (simp add: node_pages_def)
    show "runs_ok (cache_page_size s) (shape s) \<longrightarrow> runs_ok (cache_page_size s) (shape s')"
      unfolding sh' sh runs_ok_def using sn by auto
    have "ev + pr = evictable_size s + protected_size s"
    proof -
      have "0 \<le> lock_ref nd" by (rule cache_ok_lock [OF ok nd(1,2)])
      then show ?thesis using nd(4) by (auto simp: ev pr)
    qed
    then show "evictable_size s' + protected_size s' = evictable_size s + protected_size s" by (simp add: s'_def s1_def)
    show "\<forall>x. nodes s' x = map_option (\<lambda>nd. nd\<lparr>lock_ref := lock_ref nd + (if x \<in> {n} then d else 0)\<rparr>) (nodes s x)"
      using nd(1) by (auto simp: s'_def s1_def option.map_ident_strong)
  qed (simp_all add: same_setup_def s'_def s1_def)
  then show ?thesis using that [of s'] run ok' s1 by (simp add: s'_def s1_def)
qed

section \<open>The loops\<close>

lemma cache_ok_root: "cache_ok (H(root_node s := x)) s = cache_ok H s"
proof -
  have "cache_ok H' s" if "cache_ok H s" "\<And>n. n \<noteq> root_node s \<Longrightarrow> H' n = H n" for H H'
  proof -
    note li = cache_ok_lock_inv [OF that(1)]
    have "lock_inv (root_node s) H' (shape s)"
      unfolding lock_inv_def
    proof (intro conjI allI impI)
      fix n assume n: "shape s n = None"
      then have "n \<noteq> root_node s" using root_live [OF that(1)] by auto
      then show "H' n = 0" using that(2) lock_invD(2) [OF li n] by simp
    qed (use li that(2) lock_invD in auto)
    then show ?thesis using that(1) by (simp add: cache_ok_def books_def)
  qed
  then show ?thesis by (metis fun_upd_other)
qed

lemma relocked_root: "relocked s s' L d \<Longrightarrow> root_node s' = root_node s"
  by (simp add: relocked_def same_setup_def)

lemma relocked_up: "relocked s s' L d \<Longrightarrow> up r (shape s') n l = up r (shape s) n l"
  using up_unlock [of r "shape s'"] up_unlock [of r "shape s"] by (simp add: relocked_def)

lemma up_parent: "up (root_node s) (shape s) n (x # l) \<Longrightarrow>
  \<exists>nd p. x = n \<and> n \<noteq> root_node s \<and> nodes s n = Some nd \<and> parent nd = Some p \<and> up (root_node s) (shape s) p l"
  by (elim up_Cons) (auto simp: shape_of_Some)

lemma up_mem: "tree_shape ps r sh \<Longrightarrow> up r sh n (x # l) \<Longrightarrow> n \<notin> set l"
  using up_distinct(1) [of ps r sh n "x # l"] by (auto elim: up_Cons)

lemma inc_lock_loop_facts:
  assumes "cache_ok (H(n := H n - 1)) s" "up (root_node s) (shape s) n l" "length l < fuel"
  shows "\<exists>s'. inc_lock_loop fuel s (Some n) delta = Inr (delta + (evictable_size s' - evictable_size s), s') \<and>
    cache_ok H s' \<and> relocked s s' (set l) 1"
  using assms
proof (induction l arbitrary: n s fuel delta)
  case Nil
  then have n: "n = root_node s" by (auto elim: up_Nil)
  have "cache_ok H s" using Nil.prems(1) unfolding n cache_ok_root .
  then show ?case using Nil.prems(3) n by (cases fuel) (auto intro: relocked_refl)
next
  case (Cons x l)
  from up_parent [OF Cons.prems(2)] obtain nd p where n: "x = n" "n \<noteq> root_node s" "nodes s n = Some nd" "parent nd = Some p"
    "up (root_node s) (shape s) p l" by blast
  obtain f where f: "fuel = Suc f" "length l < f" using Cons.prems(3) by (cases fuel) auto
  have l0: "0 \<le> lock_ref nd" by (rule cache_ok_lock [OF Cons.prems(1) n(3,2)])
  let ?l = "int (key_len (key nd))"
  let ?ev = "evictable_size s - (if lock_ref nd = 0 then ?l else 0)" and ?pr = "protected_size s + (if lock_ref nd = 0 then ?l else 0)"
  obtain s1 where s1: "update_leaf_status (upd_node (s\<lparr>evictable_size := ?ev, protected_size := ?pr\<rparr>) n (\<lambda>nd. nd\<lparr>lock_ref := lock_ref nd + 1\<rparr>)) n = Inr s1"
    "cache_ok (H(p := H p - 1)) s1" "relocked s s1 {n} 1" "evictable_size s1 = ?ev"
    by (rule lock_step [OF Cons.prems(1) n(3,2,4), of ?ev ?pr]) (use l0 in auto)
  have nd_l: "n \<notin> set l" by (rule up_mem [OF cache_okD(1) [OF Cons.prems(1)] Cons.prems(2)])
  from Cons.IH [OF s1(2), of f "delta - (if lock_ref nd = 0 then ?l else 0)"] f n(5) relocked_up [OF s1(3)] relocked_root [OF s1(3)]
  obtain s2 where s2: "inc_lock_loop f s1 (Some p) (delta - (if lock_ref nd = 0 then ?l else 0)) =
      Inr (delta - (if lock_ref nd = 0 then ?l else 0) + (evictable_size s2 - evictable_size s1), s2)"
    "cache_ok H s2" "relocked s1 s2 (set l) 1" by auto
  have "relocked s s2 ({n} \<union> set l) 1" by (rule relocked_trans [OF s1(3) s2(3)]) (use nd_l in simp)
  moreover have "inc_lock_loop fuel s (Some n) delta = inc_lock_loop f s1 (Some p) (delta - (if lock_ref nd = 0 then ?l else 0))"
    using f n s1(1) by (cases "lock_ref nd = 0"; simp add: Let_def)
  ultimately show ?case using s2 s1(4) n(1) by auto
qed

lemma dec_lock_loop_facts:
  assumes "cache_ok (H(n := H n + 1)) s" "\<And>n. 0 \<le> H n" "up (root_node s) (shape s) n l" "length l < fuel"
  shows "\<exists>s'. dec_lock_loop fuel s (Some n) delta = Inr (delta + (evictable_size s' - evictable_size s), s') \<and>
    cache_ok H s' \<and> relocked s s' (set l) (- 1)"
  using assms(1,3,4)
proof (induction l arbitrary: n s fuel delta)
  case Nil
  then have n: "n = root_node s" by (auto elim: up_Nil)
  have "cache_ok H s" using Nil.prems(1) unfolding n cache_ok_root .
  then show ?case using Nil.prems(3) n by (cases fuel) (auto intro: relocked_refl)
next
  case (Cons x l)
  from up_parent [OF Cons.prems(2)] obtain nd p where n: "x = n" "n \<noteq> root_node s" "nodes s n = Some nd" "parent nd = Some p"
    "up (root_node s) (shape s) p l" by blast
  obtain f where f: "fuel = Suc f" "length l < f" using Cons.prems(3) by (cases fuel) auto
  note sn = shape_SomeI [OF n(3)] and tree = cache_okD(1) [OF Cons.prems(1)]
  note li = cache_ok_lock_inv [OF Cons.prems(1)]
  have "0 \<le> child_locks (shape s) (snode_of nd)"
  proof (rule sum_list_nonneg)
    fix y assume "y \<in> set (map (\<lambda>kc. s_lock (the (shape s (snd kc)))) (s_children (snode_of nd)))"
    then obtain k c where "(k, c) \<in> set (children nd)" "y = s_lock (the (shape s c))" by auto
    then show "0 \<le> y" using tree_shapeD(5) [OF tree sn, of k c] lock_invD(3) [OF li, of c] by auto
  qed
  then have l1: "1 \<le> lock_ref nd" using lock_invD(4) [OF li sn n(2)] assms(2) [of n] by simp
  let ?l = "int (key_len (key nd))"
  have c0: "cache_ok (H(n := H n - - 1)) s" using Cons.prems(1) by (simp del: fun_upd_apply)
  let ?ev = "evictable_size s + (if lock_ref nd = 1 then ?l else 0)" and ?pr = "protected_size s - (if lock_ref nd = 1 then ?l else 0)"
  obtain s1 where s1: "update_leaf_status (upd_node (s\<lparr>evictable_size := ?ev, protected_size := ?pr\<rparr>) n (\<lambda>nd. nd\<lparr>lock_ref := lock_ref nd + - 1\<rparr>)) n = Inr s1"
    "cache_ok (H(p := H p - - 1)) s1" "relocked s s1 {n} (- 1)" "evictable_size s1 = ?ev"
    by (rule lock_step [OF c0 n(3,2,4), of ?ev ?pr]) (use l1 in auto)
  have nd_l: "n \<notin> set l" by (rule up_mem [OF tree Cons.prems(2)])
  have "cache_ok (H(p := H p + 1)) s1" using s1(2) by simp
  from Cons.IH [OF this, of f "delta + (if lock_ref nd = 1 then ?l else 0)"] f n(5) relocked_up [OF s1(3)] relocked_root [OF s1(3)]
  obtain s2 where s2: "dec_lock_loop f s1 (Some p) (delta + (if lock_ref nd = 1 then ?l else 0)) =
      Inr (delta + (if lock_ref nd = 1 then ?l else 0) + (evictable_size s2 - evictable_size s1), s2)"
    "cache_ok H s2" "relocked s1 s2 (set l) (- 1)" by auto
  have "relocked s s2 ({n} \<union> set l) (- 1)" by (rule relocked_trans [OF s1(3) s2(3)]) (use nd_l in simp)
  moreover have "dec_lock_loop fuel s (Some n) delta = dec_lock_loop f s1 (Some p) (delta + (if lock_ref nd = 1 then ?l else 0))"
    using f n s1(1) by (cases "lock_ref nd = 1"; simp add: Let_def)
  ultimately show ?case using s2 s1(4) n(1) by auto
qed

text \<open>The nodes on the way from \<open>n\<close> to the root, the root excluded.\<close>

definition path_of :: "radix_cache \<Rightarrow> nat \<Rightarrow> nat set" where
  "path_of s n = {x. \<exists>l. up (root_node s) (shape s) n l \<and> x \<in> set l}"

lemma up_unique: "up r sh n l \<Longrightarrow> up r sh n l' \<Longrightarrow> l = l'"
proof (induction arbitrary: l' rule: up.induct)
  case up_root
  then show ?case by cases simp_all
next
  case (up_step n nd p l)
  from up_step.prems obtain nd' p' l2 where "sh n = Some nd'" "s_parent nd' = Some p'" "up r sh p' l2" "l' = n # l2"
    by cases (use up_step.hyps(1) in simp_all)
  then show ?case using up_step.hyps(2,3) up_step.IH [of l2] by simp
qed

lemma path_of_up: "up (root_node s) (shape s) n l \<Longrightarrow> path_of s n = set l"
  unfolding path_of_def using up_unique by blast

lemma inc_lock_ref_facts:
  assumes ok: "cache_ok H s" and en: "\<not> disable s" and n: "nodes s n \<noteq> None"
  obtains s' where "inc_lock_ref s (Some n) = Inr (evictable_size s' - evictable_size s, s')" "cache_ok (H(n := H n + 1)) s'"
    "relocked s s' (path_of s n) 1"
proof -
  obtain l where l: "up (root_node s) (shape s) n l" using up_exists [OF cache_okD(1) [OF ok], of n] n by auto
  have "cache_ok ((H(n := H n + 1))(n := (H(n := H n + 1)) n - 1)) s" using ok by simp
  from inc_lock_loop_facts [OF this l up_bound [OF ok l], of 0] obtain s' where
    "inc_lock_loop (Suc (counter s)) s (Some n) 0 = Inr (0 + (evictable_size s' - evictable_size s), s')"
    "cache_ok (H(n := H n + 1)) s'" "relocked s s' (set l) 1" by blast
  then show ?thesis using that [of s'] en path_of_up [OF l] by (simp add: inc_lock_ref_def del: inc_lock_loop.simps fun_upd_apply)
qed

lemma dec_lock_ref_facts:
  assumes ok: "cache_ok H s" and pos: "\<And>n. 0 \<le> H n" and en: "\<not> disable s" and n: "nodes s n \<noteq> None" "1 \<le> H n"
  obtains s' where "dec_lock_ref s (Some n) = Inr (evictable_size s' - evictable_size s, s')" "cache_ok (H(n := H n - 1)) s'"
    "relocked s s' (path_of s n) (- 1)"
proof -
  obtain l where l: "up (root_node s) (shape s) n l" using up_exists [OF cache_okD(1) [OF ok], of n] n by auto
  have "cache_ok ((H(n := H n - 1))(n := (H(n := H n - 1)) n + 1)) s" using ok by simp
  moreover have "0 \<le> (H(n := H n - 1)) m" for m using pos [of m] n(2) by simp
  ultimately obtain s' where
    "dec_lock_loop (Suc (counter s)) s (Some n) 0 = Inr (0 + (evictable_size s' - evictable_size s), s')"
    "cache_ok (H(n := H n - 1)) s'" "relocked s s' (set l) (- 1)"
    using dec_lock_loop_facts [OF _ _ l up_bound [OF ok l], of "H(n := H n - 1)" 0] by blast
  then show ?thesis using that [of s'] en path_of_up [OF l] by (simp add: dec_lock_ref_def del: dec_lock_loop.simps fun_upd_apply)
qed

end
