(* ===== verification/RadixEvict.thy ===== *)
theory RadixEvict
  imports RadixLock
begin

text \<open>
  Eviction. The loop pops the leaf with the smallest priority, gives its pages back to the pool,
  removes it and puts its parent on the heap once that has become an unlocked leaf. It stops
  when enough tokens are free or nothing evictable is left; locked nodes are never touched.
\<close>

section \<open>Pages of the tree and of the pool\<close>

definition pool_ok :: "radix_cache \<Rightarrow> bool" where
  "pool_ok s \<longleftrightarrow>
     kv_inv (kv_pool s) \<and> kv_page_size (kv_pool s) = cache_page_size s \<and> runs_ok (cache_page_size s) (shape s) \<and>
     (\<forall>q. count (tree_pages (cache_page_size s) (shape s)) q \<le> 1) \<and>
     set_mset (tree_pages (cache_page_size s) (shape s)) \<inter> kv_avail (kv_pool s) = {} \<and>
     set_mset (tree_pages (cache_page_size s) (shape s)) \<subseteq> kv_capacity (kv_pool s)"

lemma distinct_by_count: "(\<And>q. count (mset xs) q \<le> 1) \<Longrightarrow> distinct xs"
proof (induction xs)
  case (Cons a xs)
  have "count (mset xs) q \<le> count (mset (a # xs)) q" for q by simp
  then have "count (mset xs) q \<le> 1" for q using Cons.prems le_trans by blast
  moreover have "count (mset (a # xs)) a = Suc (count (mset xs) a)" by simp
  then have "a \<notin> set xs" using Cons.prems [of a] by simp
  ultimately show ?case using Cons.IH by simp
qed simp

lemma nth_page_slots:
  "0 < ps \<Longrightarrow> i < length qs * ps \<Longrightarrow> concat (map (page_slots ps) qs) ! i = qs ! (i div ps) * int ps + int (i mod ps)"
proof (induction qs arbitrary: i)
  case (Cons q qs)
  have l: "length (page_slots ps q) = ps" by (simp add: page_slots_def)
  show ?case
  proof (cases "i < ps")
    case True
    then show ?thesis using l by (simp add: nth_append page_slots_def)
  next
    case False
    then have "i div ps = Suc ((i - ps) div ps)" "i mod ps = (i - ps) mod ps"
      using Cons.prems(1) by (simp_all add: le_div_geq le_mod_geq)
    then show ?thesis using False l Cons.IH [of "i - ps"] Cons.prems by (simp add: nth_append)
  qed
qed simp

lemma page_run_row:
  assumes "0 < ps" "page_run ps v"
  shows "paged_row ps (\<lambda>q. pages_seq ps v ! q) 0 v"
  unfolding paged_row_def
proof (intro allI impI)
  fix i assume "i < length v"
  then have "i < length (pages_seq ps v) * ps" using length_page_run [OF assms(2)] by simp
  from nth_page_slots [OF assms(1) this] show "v ! i = pages_seq ps v ! ((0 + i) div ps) * int ps + int ((0 + i) mod ps)"
    using assms(2) by (simp add: page_run_def)
qed

lemma free_run:
  assumes inv: "kv_inv al" "kv_page_size al = ps" and run: "page_run ps v" "distinct (pages_seq ps v)"
    and dj: "set (pages_seq ps v) \<inter> kv_avail al = {}" "set (pages_seq ps v) \<subseteq> kv_capacity al"
  shows "\<exists>al'. kv_free_segment al v 0 = Inr al' \<and> kv_inv al' \<and> kv_capacity al' = kv_capacity al \<and>
    kv_page_size al' = ps \<and> kv_avail al' = kv_avail al \<union> set (pages_seq ps v)"
proof -
  have ps: "0 < ps" using kvp.psize_pos [OF inv(1)] inv(2) by simp
  have "ceil_div (length v) ps = length (pages_seq ps v)"
    using length_page_run [OF run(1)] ceil_div_dvd [OF ps, of "length v"] ps by simp
  then have "inj_on (\<lambda>q. pages_seq ps v ! q) {0 div ps..<ceil_div (0 + length v) ps}"
    using run(2) by (auto simp: inj_on_def nth_eq_iff_index_eq)
  from kv_free_segment_facts [OF inv(1), unfolded inv(2), OF page_run_row [OF ps run(1)] this] show ?thesis
    using dj slot_pages_run [OF ps run(1)] by simp
qed

section \<open>Removing a leaf from the store\<close>

text \<open>One round of the eviction loop removes \<open>x\<close> and keeps everything else.\<close>

definition shrunk :: "(nat \<Rightarrow> int) \<Rightarrow> radix_cache \<Rightarrow> radix_cache \<Rightarrow> int multiset \<Rightarrow> bool" where
  "shrunk H s s' P \<longleftrightarrow>
     cache_ok H s' \<and> pool_ok s' \<and> hashes_ok s' \<and> same_setup s s' \<and> req_to_token s' = req_to_token s \<and>
     protected_size s' = protected_size s \<and>
     evictable_size s = evictable_size s' + int (size P * cache_page_size s) \<and>
     tree_pages (cache_page_size s) (shape s) = P + tree_pages (cache_page_size s) (shape s') \<and>
     kv_avail (kv_pool s') = kv_avail (kv_pool s) \<union> set_mset P \<and> kv_capacity (kv_pool s') = kv_capacity (kv_pool s) \<and>
     (\<exists>X. live_blocks s = X + live_blocks s' \<and>
        (enabled (kv_events s) \<longrightarrow> (\<forall>M. replay (queue (kv_events s')) M = replay (queue (kv_events s)) M - X))) \<and>
     dom (nodes s') \<subseteq> dom (nodes s) \<and>
     (\<forall>n nd. nodes s n = Some nd \<longrightarrow> lock_ref nd > 0 \<longrightarrow> n \<in> dom (nodes s')) \<and>
     (\<forall>n \<in> dom (nodes s'). \<exists>cs. nodes s' n = map_option (\<lambda>nd. nd\<lparr>children := cs\<rparr>) (nodes s n)) \<and>
     (\<forall>ns n us vs. n \<in> dom (nodes s') \<longrightarrow> walk ns (shape s) (root_node s) n us vs \<longrightarrow> walk ns (shape s') (root_node s) n us vs) \<and>
     (\<forall>ns us vs. cached s' ns us vs \<longrightarrow> cached s ns us vs)"

lemma delete_leaf_run:
  assumes ok: "cache_ok H s" and x: "nodes s x = Some nd" "x \<noteq> root_node s" "children nd = []" "lock_ref nd = 0"
    and p: "parent nd = Some p" "nodes s p = Some pd"
  defines "ck \<equiv> page_key (cache_page_size s) (namespace (key nd)) (key_iter (key nd))"
  shows "delete_leaf s x = Inr (s\<lparr>nodes := (nodes s)(p \<mapsto> pd\<lparr>children := AList.delete ck (children pd)\<rparr>),
     evictable_size := evictable_size s - int (key_len (key nd)),
     evictable_leaves := leaf_mark (\<not> lock_ref pd > 0 \<and> AList.delete ck (children pd) = []) p (evictable_leaves s - {x})\<rparr>)"
proof -
  note tree = cache_okD(1) [OF ok]
  obtain v where f: "map_of (children pd) ck = Some x" "cache_page_size s \<le> key_len (key nd)" "x \<noteq> p"
    by (rule node_facts [OF ok x(1,2)]) (use p in \<open>auto simp: ck_def\<close>)
  let ?pd = "pd\<lparr>children := AList.delete ck (children pd)\<rparr>"
  let ?s2 = "s\<lparr>nodes := (nodes s)(p \<mapsto> ?pd), evictable_size := evictable_size s - int (key_len (key nd)), evictable_leaves := evictable_leaves s - {x}\<rparr>"
  have "update_leaf_status ?s2 p = Inr (?s2\<lparr>evictable_leaves := leaf_mark (\<not> lock_ref ?pd > 0 \<and> children ?pd = []) p (evictable_leaves ?s2)\<rparr>)"
  proof (rule update_leaf_status_live)
    show "nodes ?s2 p = Some ?pd" by simp
    show "val ?pd \<noteq> None" using tree_node_val [OF tree p(2)] by simp
    fix k c assume "(k, c) \<in> set (children ?pd)"
    then have "(k, c) \<in> set (children pd)" by (simp add: set_alist_delete)
    then obtain cd where cd: "nodes s c = Some cd" using tree_shapeD(5) [OF tree shape_SomeI [OF p(2)], of k c] by (auto simp: shape_of_Some)
    then show "\<exists>cd. nodes ?s2 c = Some cd \<and> val cd \<noteq> None" using tree_node_val [OF tree cd] tree_node_val [OF tree p(2)] by auto
  qed
  then show ?thesis
    using x p f by (simp add: delete_leaf_def page_key_child_key ck_def [symmetric] set_node_def)
qed

lemma root_lock: "cache_ok H s \<Longrightarrow> nodes s (root_node s) = Some rd \<Longrightarrow> lock_ref rd = 1"
  using lock_invD(1) [OF cache_ok_lock_inv, of H s] by (auto simp: shape_of_Some)

lemma evict_step:
  assumes ok: "cache_ok H s" and pk: "pool_ok s" and hk: "hashes_ok s" and x: "x \<in> evictable_leaves s" and nd: "nodes s x = Some nd"
  obtains v pool s1 p pd st ev where "val nd = Some v" "kv_free_segment (kv_pool s) v 0 = Inr pool"
    "delete_leaf (s\<lparr>kv_pool := pool\<rparr>) x = Inr s1" "parent nd = Some p" "nodes s1 p = Some pd" "p \<noteq> x"
    "\<exists>opd cs. nodes s p = Some opd \<and> children opd \<noteq> [] \<and> pd = opd\<lparr>children := cs\<rparr>"
    "record_remove E (Suc (counter s1)) (nodes s1) (kv_events s1) x None = Inr (st, ev)"
    "shrunk H s (s1\<lparr>nodes := st(x := None), kv_events := ev\<rparr>) (mset (pages_seq (cache_page_size s) v))"
    "st(x := None) = (nodes s)(p \<mapsto> pd, x := None)"
    "evictable_leaves s1 = leaf_mark (children pd = [] \<and> lock_ref pd = 0) p (evictable_leaves s - {x})"
proof -
  let ?ps = "cache_page_size s" and ?r = "root_node s"
  note tree = cache_okD(1) [OF ok] and ps = cache_okD(6) [OF ok] and sx = shape_SomeI [OF nd]
  have "x \<in> free_leaves ?r (shape s)" using x cache_okD(2) [OF ok] by (simp add: books_def)
  then have xr: "x \<noteq> ?r" and x0: "lock_ref nd = 0" "children nd = []" using sx by (auto simp: free_leaves_def)
  obtain p opd v where p: "parent nd = Some p" "nodes s p = Some opd" "x \<noteq> p" and v: "val nd = Some v" "length v = key_len (key nd)"
    and dv: "?ps dvd key_len (key nd)" and och: "children opd \<noteq> []"
    by (rule node_facts [OF ok nd xr]) fastforce
  let ?P = "mset (pages_seq ?ps v)"
  have lf: "leaf_of ?ps ?r x p (shape s)" using tree xr sx p(1) x0(2) by (simp add: leaf_of_def)
  have fin: "finite (dom (shape s))" "finite (dom (nodes s))" using cache_okD(2) [OF ok] by (simp_all add: books_def)
  have tp: "tree_pages ?ps (shape s) = ?P + tree_pages ?ps (shape_delete ?ps x p (shape s))"
    by (rule tree_pages_delete [OF lf fin(1) sx]) (simp add: v)
  have run: "page_run ?ps v" using pk sx v(1) by (auto simp: pool_ok_def runs_ok_def)
  have cnt: "count ?P q + count (tree_pages ?ps (shape_delete ?ps x p (shape s))) q \<le> 1" for q
    using pk tp by (simp add: pool_ok_def)
  have dist: "distinct (pages_seq ?ps v)"
  proof (rule distinct_by_count)
    fix q show "count ?P q \<le> 1" using cnt [of q] by simp
  qed
  obtain pool where pool: "kv_free_segment (kv_pool s) v 0 = Inr pool" "kv_inv pool" "kv_capacity pool = kv_capacity (kv_pool s)"
    "kv_page_size pool = ?ps" "kv_avail pool = kv_avail (kv_pool s) \<union> set (pages_seq ?ps v)"
    using free_run [OF _ _ run dist, of "kv_pool s"] pk tp by (auto simp: pool_ok_def)
  define ck where "ck = page_key ?ps (namespace (key nd)) (key_iter (key nd))"
  define pd where "pd = opd\<lparr>children := AList.delete ck (children opd)\<rparr>"
  define s1 where "s1 = s\<lparr>kv_pool := pool, nodes := (nodes s)(p \<mapsto> pd), evictable_size := evictable_size s - int (key_len (key nd)),
     evictable_leaves := leaf_mark (children pd = [] \<and> lock_ref pd = 0) p (evictable_leaves s - {x})\<rparr>"
  have pl: "(\<not> 0 < lock_ref opd \<and> children pd = []) = (children pd = [] \<and> lock_ref pd = 0)"
    using cache_ok_lock [OF ok p(2)] root_lock [OF ok] p(2) by (cases "p = ?r") (auto simp: pd_def)
  have "cache_ok H (s\<lparr>kv_pool := pool\<rparr>)" using ok by (simp add: cache_ok_def keys_ok_def)
  from delete_leaf_run [OF this, of x nd p opd] nd xr x0 p have del: "delete_leaf (s\<lparr>kv_pool := pool\<rparr>) x = Inr s1"
    using pl by (simp add: s1_def pd_def ck_def)
  have n1: "nodes s1 x = Some nd" "nodes s1 p = Some pd" using nd p by (simp_all add: s1_def)
  obtain ev X where rr: "record_remove E (Suc (counter s1)) (nodes s1) (kv_events s1) x None = Inr (nodes s1, ev)"
    and ev: "enabled ev = enabled (kv_events s)" "ev_page_size ev = ev_page_size (kv_events s)"
    and X: "X = mset (map block_id (event_hashes nd))" "enabled (kv_events s) \<Longrightarrow> replay (queue ev) M = replay (queue (kv_events s)) M - X" for M
  proof (cases "enabled (kv_events s)")
    case False
    then show ?thesis using that [of "kv_events s"] by (simp add: record_remove_def s1_def)
  next
    case True
    have "node_hashes_ok ?ps nd" using hk True nd xr by (simp add: hashes_ok_def)
    then have f: "\<exists>r'. record_remove E (Suc (counter s1)) (nodes s1) (kv_events s1) x None = Inr (nodes s1, r') \<and> enabled r' = enabled (kv_events s1) \<and>
        ev_page_size r' = ?ps \<and> replay (queue r') M = replay (queue (kv_events s1)) M - mset (map block_id (event_hashes nd))" for M
      by (intro record_remove_facts) (use True hk ps n1 dv in \<open>auto simp: hashes_ok_def s1_def\<close>)
    then obtain r' where r': "record_remove E (Suc (counter s1)) (nodes s1) (kv_events s1) x None = Inr (nodes s1, r')" "enabled r'" "ev_page_size r' = ?ps"
      using True by (auto simp: s1_def)
    have "replay (queue r') M = replay (queue (kv_events s)) M - mset (map block_id (event_hashes nd))" for M
      using f [of M] r'(1) by (auto simp: s1_def)
    then show ?thesis using that [of r'] r' True hk by (simp add: hashes_ok_def)
  qed
  define s' where "s' = s1\<lparr>nodes := (nodes s1)(x := None), kv_events := ev\<rparr>"
  have sh: "shape s' = shape_delete ?ps x p (shape s)"
    using p(3) nd p(2) by (simp add: s'_def s1_def delete_as_updates [OF lf sx shape_SomeI [OF p(2)]] pd_def ck_def snode_of_def)
  have f: "cache_page_size s' = ?ps" "root_node s' = ?r" "is_eagle s' = is_eagle s" "counter s' = counter s" "kv_events s' = ev" "kv_pool s' = pool"
    "nodes s' = (nodes s)(p \<mapsto> pd, x := None)" "evictable_size s' = evictable_size s - int (key_len (key nd))"
    "protected_size s' = protected_size s" "evictable_leaves s' = leaf_mark (children pd = [] \<and> lock_ref pd = 0) p (evictable_leaves s - {x})"
    by (simp_all add: s'_def s1_def)
  have spd: "shape_delete ?ps x p (shape s) p = Some (snode_of pd)" unfolding sh [symmetric] using f(7) p(3) by (simp add: shape_SomeI)
  have ok': "cache_ok H s'"
  proof (rule cache_okI)
    show "tree_shape (cache_page_size s') (root_node s') (shape s')" unfolding sh f(1,2) by (rule shape_delete_tree [OF lf])
    have "(p \<noteq> ?r \<and> lock_ref pd = 0 \<and> children pd = []) = (children pd = [] \<and> lock_ref pd = 0)"
      using root_lock [OF ok] p(2) by (auto simp: pd_def)
    then show "books (root_node s') H (shape s') (evictable_size s') (protected_size s') (evictable_leaves s')"
      unfolding sh f(2,8-10) using books_delete [OF lf cache_okD(2) [OF ok] sx _ spd] x0(1) by simp
    show "keys_ok s'" using cache_okD(3) [OF ok] p(2) by (auto simp: keys_ok_def f pd_def)
    show "n < counter s'" if "nodes s' n = Some a" for n a
      using that cache_okD(4) [OF ok] p(2) by (auto simp: f split: if_splits)
  qed
  have hk': "hashes_ok s'"
  proof (unfold hashes_ok_def, intro impI)
    assume "enabled (kv_events s')"
    then have e: "enabled (kv_events s)" by (simp add: f ev)
    have "if p = ?r then event_hash_value pd = None else node_hashes_ok ?ps pd"
      using hk e p(2) by (simp add: hashes_ok_def pd_def)
    then show "ev_page_size (kv_events s') = cache_page_size s' \<and> (\<forall>n nd. nodes s' n = Some nd \<longrightarrow>
        (if n = root_node s' then event_hash_value nd = None else node_hashes_ok (cache_page_size s') nd))"
      using hk e by (simp add: hashes_ok_def f ev)
  qed
  have lb: "live_blocks s = X + live_blocks s'"
  proof -
    let ?w = "\<lambda>n nd. if n = ?r then {#} else mset (map block_id (event_hashes nd))"
    have "fsum ?w ((nodes s)(p \<mapsto> pd)) = fsum ?w (nodes s)"
      by (rule fsum_same [of "nodes s" p, OF fin(2) p(2)]) (simp add: pd_def event_hashes_def)
    moreover have "fsum ?w ((nodes s)(p \<mapsto> pd)) = ?w x nd + fsum ?w ((nodes s)(p \<mapsto> pd, x := None))"
      by (rule fsum_split) (use fin nd p in auto)
    ultimately show ?thesis unfolding live_blocks_def f X(1) using xr by simp
  qed
  let ?T = "tree_pages ?ps (shape_delete ?ps x p (shape s))"
  have c1: "count ?T q \<le> 1" for q using cnt [of q] by simp
  have dj: "set (pages_seq ?ps v) \<inter> set_mset ?T = {}"
  proof (rule ccontr)
    assume "set (pages_seq ?ps v) \<inter> set_mset ?T \<noteq> {}"
    then obtain q where "q \<in># ?P" "q \<in># ?T" by auto
    then have "0 < count ?P q" "0 < count ?T q" by (simp_all only: count_greater_zero_iff)
    then show False using cnt [of q] by linarith
  qed
  have pk': "pool_ok s'"
    using pk pool c1 dj tp runs_ok_delete [OF lf] unfolding pool_ok_def f(1,6) sh by auto
  have sz: "int (key_len (key nd)) = int (size ?P * ?ps)" using length_page_run [OF run] v(2) by simp
  have "shrunk H s s' ?P"
    unfolding shrunk_def
  proof (intro conjI allI impI ballI)
    show "evictable_size s = evictable_size s' + int (size ?P * ?ps)" using sz by (simp add: f)
    show "tree_pages ?ps (shape s) = ?P + tree_pages ?ps (shape s')" unfolding sh by (rule tp)
    show "\<exists>X. live_blocks s = X + live_blocks s' \<and>
        (enabled (kv_events s) \<longrightarrow> (\<forall>M. replay (queue (kv_events s')) M = replay (queue (kv_events s)) M - X))"
      using lb X(2) f(5) by auto
    show "\<exists>cs. nodes s' n = map_option (\<lambda>nd. nd\<lparr>children := cs\<rparr>) (nodes s n)" if "n \<in> dom (nodes s')" for n
    proof (cases "n = p")
      case True
      then show ?thesis using p f(7) by (intro exI [of _ "children pd"]) (simp add: pd_def)
    next
      case False
      then show ?thesis using that f(7) by (intro exI [of _ "children (the (nodes s n))"]) (auto split: if_splits)
    qed
    show "walk ns (shape s') ?r n us vs" if "n \<in> dom (nodes s')" "walk ns (shape s) ?r n us vs" for ns n us vs
      unfolding sh using walk_delete [OF lf that(2)] that(1) f(7) by auto
    show "cached s ns us vs" if "cached s' ns us vs" for ns us vs
      using below_delete [OF lf] that unfolding cached_def f(1,2) sh by blast
    show "n \<in> dom (nodes s')" if "nodes s n = Some a" "0 < lock_ref a" for n a
      using that nd x0(1) by (auto simp: f)
  qed (use ok' pk' hk' pool ev f p in \<open>auto simp: same_setup_def s'_def s1_def\<close>)
  then show ?thesis
    using that [of v pool s1 p pd "nodes s1" ev] v pool del p n1 rr och by (simp add: s'_def) (auto simp: s1_def pd_def)
qed

end
