(* ===== verification/RadixEvictLoop.thy ===== *)
theory RadixEvictLoop
  imports RadixEvict
begin

text \<open>
  The eviction loop of \<^verbatim>\<open>radix_cache.py\<close>: what a whole run of \<^verbatim>\<open>evict\<close> frees, in which
  order, and that it ends. The heap always holds the entries of the evictable leaves, each once.
\<close>

section \<open>The loop\<close>

lemma shrunkD:
  assumes "shrunk H s s' P"
  shows "cache_ok H s'" "pool_ok s'" "hashes_ok s'" "same_setup s s'" "req_to_token s' = req_to_token s"
    "protected_size s' = protected_size s" "evictable_size s = evictable_size s' + int (size P * cache_page_size s)"
    "tree_pages (cache_page_size s) (shape s) = P + tree_pages (cache_page_size s) (shape s')"
    "kv_avail (kv_pool s') = kv_avail (kv_pool s) \<union> set_mset P" "kv_capacity (kv_pool s') = kv_capacity (kv_pool s)"
    "\<exists>X. live_blocks s = X + live_blocks s' \<and>
        (enabled (kv_events s) \<longrightarrow> (\<forall>M. replay (queue (kv_events s')) M = replay (queue (kv_events s)) M - X))"
    "dom (nodes s') \<subseteq> dom (nodes s)"
    "nodes s n = Some nd \<Longrightarrow> lock_ref nd > 0 \<Longrightarrow> n \<in> dom (nodes s')"
    "n \<in> dom (nodes s') \<Longrightarrow> \<exists>cs. nodes s' n = map_option (\<lambda>nd. nd\<lparr>children := cs\<rparr>) (nodes s n)"
    "n \<in> dom (nodes s') \<Longrightarrow> walk ns (shape s) (root_node s) n us vs \<Longrightarrow> walk ns (shape s') (root_node s) n us vs"
    "cached s' ns us vs \<Longrightarrow> cached s ns us vs"
  using assms unfolding shrunk_def by blast+

lemma shrunk_refl:
  assumes "cache_ok H s" "pool_ok s" "hashes_ok s"
  shows "shrunk H s s {#}"
proof -
  have "\<exists>cs. nodes s n = map_option (\<lambda>nd. nd\<lparr>children := cs\<rparr>) (nodes s n)" for n
    by (cases "nodes s n") (auto intro!: exI [of _ "children (the (nodes s n))"])
  then show ?thesis using assms unfolding shrunk_def by auto
qed

lemma shrunk_trans:
  assumes a: "shrunk H s s' P" and b: "shrunk H s' s'' Q"
  shows "shrunk H s s'' (P + Q)"
proof -
  note A = shrunkD [OF a] and S = same_setupD [OF shrunkD(4) [OF a]]
  note B = shrunkD [OF b, unfolded S]
  show ?thesis
    unfolding shrunk_def
  proof (intro conjI allI impI ballI)
    obtain X Y where X: "live_blocks s = X + live_blocks s'" "enabled (kv_events s) \<longrightarrow> (\<forall>M. replay (queue (kv_events s')) M = replay (queue (kv_events s)) M - X)"
      and Y: "live_blocks s' = Y + live_blocks s''" "enabled (kv_events s) \<longrightarrow> (\<forall>M. replay (queue (kv_events s'')) M = replay (queue (kv_events s')) M - Y)"
      using A(11) B(11) by blast
    show "\<exists>X. live_blocks s = X + live_blocks s'' \<and>
        (enabled (kv_events s) \<longrightarrow> (\<forall>M. replay (queue (kv_events s'')) M = replay (queue (kv_events s)) M - X))"
      using X Y by (intro exI [of _ "X + Y"]) (auto simp: ac_simps)
    show "n \<in> dom (nodes s'')" if "nodes s n = Some nd" "0 < lock_ref nd" for n nd
    proof -
      have n': "n \<in> dom (nodes s')" by (rule A(13) [OF that])
      obtain cs where "nodes s' n = map_option (\<lambda>nd. nd\<lparr>children := cs\<rparr>) (nodes s n)" using A(14) [OF n'] by blast
      then have "nodes s' n = Some (nd\<lparr>children := cs\<rparr>)" using that(1) by simp
      then show ?thesis using B(13) that(2) by simp
    qed
    show "\<exists>cs. nodes s'' n = map_option (\<lambda>nd. nd\<lparr>children := cs\<rparr>) (nodes s n)" if n: "n \<in> dom (nodes s'')" for n
    proof -
      obtain cs where cs: "nodes s'' n = map_option (\<lambda>nd. nd\<lparr>children := cs\<rparr>) (nodes s' n)" using B(14) [OF n] by blast
      obtain cs' where "nodes s' n = map_option (\<lambda>nd. nd\<lparr>children := cs'\<rparr>) (nodes s n)" using A(14) B(12) n by blast
      then show ?thesis using cs by (intro exI [of _ cs]) (simp add: option.map_comp comp_def)
    qed
    show "walk ns (shape s'') (root_node s) n us vs" if "n \<in> dom (nodes s'')" "walk ns (shape s) (root_node s) n us vs" for ns n us vs
      using A(15) B(12,15) that by blast
  qed (use A(1-10,12,16) B(1-10,12,16) same_setup_trans [OF A(4) shrunkD(4) [OF b]] in \<open>auto simp: ac_simps distrib_left\<close>)
qed

definition entry_at :: "radix_cache \<Rightarrow> nat \<Rightarrow> heap_entry" where
  "entry_at s n = heap_entry_of (eviction_strategy s) n (the (nodes s n))"

definition heap_ok :: "radix_cache \<Rightarrow> heap_entry list \<Rightarrow> bool" where
  "heap_ok s heap \<longleftrightarrow> distinct (map (snd \<circ> snd) heap) \<and> set heap = entry_at s ` evictable_leaves s"

lemma heap_entry_children: "heap_entry_of strat n (nd\<lparr>children := cs\<rparr>) = heap_entry_of strat n nd"
  by (cases strat) (simp_all add: heap_entry_of_def Let_def)

lemma entry_at_id [simp]: "snd (snd (entry_at s n)) = n"
  by (simp add: entry_at_def heap_entry_of_def)

lemma entry_at_shrunk: "shrunk H s s' P \<Longrightarrow> n \<in> dom (nodes s') \<Longrightarrow> entry_at s' n = entry_at s n"
  using shrunkD(14) [of H s s' P n] shrunkD(12) [of H s s' P] same_setupD(5) [OF shrunkD(4), of H s s' P]
  by (auto simp: entry_at_def heap_entry_children)

lemma leaves_live: "cache_ok H s \<Longrightarrow> n \<in> evictable_leaves s \<Longrightarrow> n \<in> dom (nodes s)"
  using cache_okD(2) [of H s] by (auto simp: books_def free_leaves_def shape_of_Some)

text \<open>Popping keeps the heap in step with the set of evictable leaves.\<close>

lemma heap_pop:
  assumes h: "heap_ok s heap" and pop: "heappop heap = Some (e, rest)"
  obtains x where "x \<in> evictable_leaves s" "e = entry_at s x" "distinct (map (snd \<circ> snd) rest)"
    "set rest = entry_at s ` (evictable_leaves s - {x})" "\<And>y. y \<in> evictable_leaves s \<Longrightarrow> \<not> entry_less (entry_at s y) e"
proof -
  note p = heappop_Some [OF pop]
  obtain x where x: "x \<in> evictable_leaves s" "e = entry_at s x" using p(1) h by (auto simp: heap_ok_def)
  have "distinct (map (snd \<circ> snd) (e # rest))"
    using h p(2) by (metis (no_types, lifting) heap_ok_def mset.simps(2) mset_eq_imp_distinct_iff mset_map)
  then have d: "distinct (map (snd \<circ> snd) rest)" "x \<notin> (snd \<circ> snd) ` set rest" using x(2) by simp_all
  have ins: "insert e (set rest) = entry_at s ` evictable_leaves s"
    using h p(2) by (metis heap_ok_def set_mset_add_mset_insert set_mset_mset)
  have ne: "y \<noteq> x" if "entry_at s y \<in> set rest" for y using d(2) imageI [OF that, of "snd \<circ> snd"] by auto
  have "set rest = entry_at s ` (evictable_leaves s - {x})"
  proof (intro equalityI subsetI)
    fix a assume a: "a \<in> set rest"
    then obtain y where "y \<in> evictable_leaves s" "a = entry_at s y" using ins by blast
    then show "a \<in> entry_at s ` (evictable_leaves s - {x})" using ne a by blast
  next
    fix a assume "a \<in> entry_at s ` (evictable_leaves s - {x})"
    then obtain y where y: "y \<in> evictable_leaves s" "y \<noteq> x" "a = entry_at s y" by blast
    then have "a \<noteq> e" using x(2) entry_at_id [of s y] entry_at_id [of s x] by metis
    then show "a \<in> set rest" using ins y by blast
  qed
  then show ?thesis using that [OF x d(1)] p(3) h by (auto simp: heap_ok_def)
qed

lemma node_len:
  assumes "cache_ok H s" "nodes s n = Some nd" "n \<noteq> root_node s" "val nd = Some v"
  shows "cache_page_size s dvd length v"
  by (rule node_facts [OF assms(1-3)]) (use assms(4) in simp)

lemma leaf_not_root: "cache_ok H s \<Longrightarrow> n \<in> evictable_leaves s \<Longrightarrow> n \<noteq> root_node s"
  using cache_okD(2) [of H s] by (auto simp: books_def free_leaves_def)

lemma leaf_children: "cache_ok H s \<Longrightarrow> n \<in> evictable_leaves s \<Longrightarrow> nodes s n = Some nd \<Longrightarrow> children nd = []"
  using cache_okD(2) [of H s] by (auto simp: books_def free_leaves_def shape_of_Some)

text \<open>
  One round of the loop: the popped leaf goes, no other evictable leaf has a smaller entry, and the
  new heap is in step with the new set of evictable leaves.
\<close>

lemma evict_round:
  assumes ok: "cache_ok H s" and pk: "pool_ok s" and hk: "hashes_ok s" and h: "heap_ok s heap"
    and less: "k < num" and ne: "heap \<noteq> []"
  obtains x s1 heap1 P where "evict_loop E (Suc fuel) s num heap k = evict_loop E fuel s1 num heap1 (k + size P * cache_page_size s)"
    "shrunk H s s1 P" "heap_ok s1 heap1" "x \<in> evictable_leaves s" "dom (nodes s1) = dom (nodes s) - {x}"
    "\<And>y. y \<in> evictable_leaves s \<Longrightarrow> \<not> entry_less (entry_at s y) (entry_at s x)"
    "evictable_leaves s - {x} \<subseteq> evictable_leaves s1"
proof -
  obtain e heap1 where pop: "heappop heap = Some (e, heap1)" using ne heappop_None [of heap] by (cases "heappop heap") auto
  obtain x where x: "x \<in> evictable_leaves s" "e = entry_at s x" "distinct (map (snd \<circ> snd) heap1)"
    "set heap1 = entry_at s ` (evictable_leaves s - {x})" and least: "\<And>y. y \<in> evictable_leaves s \<Longrightarrow> \<not> entry_less (entry_at s y) e"
    by (rule heap_pop [OF h pop]) blast
  obtain nd where nd: "nodes s x = Some nd" using leaves_live [OF ok x(1)] by auto
  obtain v pool s1 p pd st ev where v: "val nd = Some v" and run: "kv_free_segment (kv_pool s) v 0 = Inr pool"
    "delete_leaf (s\<lparr>kv_pool := pool\<rparr>) x = Inr s1" "parent nd = Some p" "nodes s1 p = Some pd"
    "record_remove E (Suc (counter s1)) (nodes s1) (kv_events s1) x None = Inr (st, ev)"
    and px: "p \<noteq> x" and opd: "\<exists>opd cs. nodes s p = Some opd \<and> children opd \<noteq> [] \<and> pd = opd\<lparr>children := cs\<rparr>"
    and sh: "shrunk H s (s1\<lparr>nodes := st(x := None), kv_events := ev\<rparr>) (mset (pages_seq (cache_page_size s) v))"
    and st: "st(x := None) = (nodes s)(p \<mapsto> pd, x := None)"
    and lv: "evictable_leaves s1 = leaf_mark (children pd = [] \<and> lock_ref pd = 0) p (evictable_leaves s - {x})"
    by (rule evict_step [OF ok pk hk x(1) nd, of E]) blast
  let ?s' = "s1\<lparr>nodes := st(x := None), kv_events := ev\<rparr>" and ?c = "children pd = [] \<and> lock_ref pd = 0"
  let ?h = "if ?c then heap1 @ [heap_entry_of (eviction_strategy s) p pd] else heap1"
  have dom: "dom (nodes ?s') = dom (nodes s) - {x}" using st px opd by auto
  have pl: "p \<notin> evictable_leaves s" using opd leaf_children [OF ok] by blast
  have lv': "evictable_leaves ?s' = (if ?c then insert p (evictable_leaves s - {x}) else evictable_leaves s - {x})"
    using lv pl by (auto simp: leaf_mark_def)
  have same: "entry_at ?s' n = entry_at s n" if "n \<in> dom (nodes s)" "n \<noteq> x" for n
    using entry_at_shrunk [OF sh] that dom by blast
  have ep: "heap_entry_of (eviction_strategy s) p pd = entry_at ?s' p"
    using same_setupD(5) [OF shrunkD(4) [OF sh]] st px by (simp add: entry_at_def)
  have old: "entry_at ?s' ` (evictable_leaves s - {x}) = set heap1"
    unfolding x(4) using same leaves_live [OF ok] by (intro image_cong) auto
  have hk': "heap_ok ?s' ?h"
    unfolding heap_ok_def lv' using x(3,4) old ep pl by (auto simp: image_iff)
  have go: "evict_loop E (Suc fuel) s num heap k = evict_loop E fuel ?s' num ?h (k + length v)"
    using less pop x(2) nd v run by (auto simp: entry_at_def heap_entry_of_def Let_def split: prod.splits)
  have len: "length v = size (mset (pages_seq (cache_page_size s) v)) * cache_page_size s"
    using node_len [OF ok nd leaf_not_root [OF ok x(1)] v] by (simp add: pages_seq_def)
  show ?thesis
  proof (rule that [of ?s' ?h "mset (pages_seq (cache_page_size s) v)" x, OF _ sh hk' x(1) dom least [unfolded x(2)]])
    show "evict_loop E (Suc fuel) s num heap k
        = evict_loop E fuel ?s' num ?h (k + size (mset (pages_seq (cache_page_size s) v)) * cache_page_size s)"
      unfolding go len [symmetric] by (rule refl)
    show "evictable_leaves s - {x} \<subseteq> evictable_leaves ?s'" unfolding lv' by auto
  qed
qed

lemma evict_loop_facts:
  assumes "cache_ok H s" "pool_ok s" "hashes_ok s" "heap_ok s heap" "card (dom (nodes s)) < fuel"
  shows "\<exists>s' P. evict_loop E fuel s num heap k = Inr (k + size P * cache_page_size s, s') \<and> shrunk H s s' P
    \<and> (num \<le> k + size P * cache_page_size s \<or> evictable_leaves s' = {})
    \<and> evictable_leaves s \<inter> dom (nodes s') \<subseteq> evictable_leaves s'
    \<and> (\<forall>n \<in> dom (nodes s) - dom (nodes s'). \<forall>m \<in> evictable_leaves s \<inter> dom (nodes s').
         \<not> entry_less (entry_at s m) (entry_at s n))"
  using assms
proof (induction fuel arbitrary: s heap k)
  case 0
  then show ?case by simp
next
  case (Suc fuel)
  note ok = Suc.prems(1) and pk = Suc.prems(2) and hk = Suc.prems(3) and h = Suc.prems(4)
  show ?case
  proof (cases "k < num \<and> heap \<noteq> []")
    case False
    then have "evict_loop E (Suc fuel) s num heap k = Inr (k, s)" using heappop_None [of heap] by auto
    moreover have "num \<le> k \<or> evictable_leaves s = {}" using False h by (auto simp: heap_ok_def)
    ultimately show ?thesis using shrunk_refl [OF ok pk hk] by (intro exI [of _ s] exI [of _ "{#}"]) auto
  next
    case True
    obtain x s1 heap1 P where run: "evict_loop E (Suc fuel) s num heap k = evict_loop E fuel s1 num heap1 (k + size P * cache_page_size s)"
      and sh: "shrunk H s s1 P" and h1: "heap_ok s1 heap1" and x: "x \<in> evictable_leaves s" "dom (nodes s1) = dom (nodes s) - {x}"
      and least: "\<And>y. y \<in> evictable_leaves s \<Longrightarrow> \<not> entry_less (entry_at s y) (entry_at s x)"
      and keep: "evictable_leaves s - {x} \<subseteq> evictable_leaves s1"
      by (rule evict_round [OF ok pk hk h conjunct1 [OF True] conjunct2 [OF True], where E = E and fuel = fuel]) blast
    note S = shrunkD [OF sh] and ps = same_setupD [OF shrunkD(4) [OF sh]]
    have "card (dom (nodes s1)) < fuel"
    proof -
      have "finite (dom (nodes s))" using cache_okD(2) [OF ok] by (simp add: books_def)
      then have "card (dom (nodes s1)) < card (dom (nodes s))"
        unfolding x(2) using leaves_live [OF ok x(1)] by (rule card_Diff1_less)
      then show ?thesis using Suc.prems(5) by simp
    qed
    from Suc.IH [OF S(1-3) h1 this, of "k + size P * cache_page_size s"] obtain s' Q where
      IH: "evict_loop E fuel s1 num heap1 (k + size P * cache_page_size s) = Inr (k + size P * cache_page_size s + size Q * cache_page_size s, s')"
      "shrunk H s1 s' Q" "num \<le> k + size P * cache_page_size s + size Q * cache_page_size s \<or> evictable_leaves s' = {}"
      "evictable_leaves s1 \<inter> dom (nodes s') \<subseteq> evictable_leaves s'"
      and ord: "\<And>n m. n \<in> dom (nodes s1) - dom (nodes s') \<Longrightarrow> m \<in> evictable_leaves s1 \<inter> dom (nodes s') \<Longrightarrow> \<not> entry_less (entry_at s1 m) (entry_at s1 n)"
      unfolding ps by blast
    have sub: "dom (nodes s') \<subseteq> dom (nodes s1)" by (rule shrunkD(12) [OF IH(2)])
    have ent: "entry_at s1 n = entry_at s n" if "n \<in> dom (nodes s1)" for n by (rule entry_at_shrunk [OF sh that])
    have "\<not> entry_less (entry_at s m) (entry_at s n)" if n: "n \<in> dom (nodes s) - dom (nodes s')" and m: "m \<in> evictable_leaves s \<inter> dom (nodes s')" for n m
    proof (cases "n = x")
      case True
      then show ?thesis using least m by blast
    next
      case False
      then have "n \<in> dom (nodes s1) - dom (nodes s')" using n x(2) by blast
      moreover have "m \<in> evictable_leaves s1 \<inter> dom (nodes s')" "m \<in> dom (nodes s1)" using m keep sub x(2) by auto
      ultimately show ?thesis using ord ent by fastforce
    qed
    moreover have "evictable_leaves s \<inter> dom (nodes s') \<subseteq> evictable_leaves s'" using IH(4) keep sub x(2) by auto
    ultimately show ?thesis
      using run IH(1,3) shrunk_trans [OF sh IH(2)]
      by (intro exI [of _ s'] exI [of _ "P + Q"]) (auto simp: distrib_right add.assoc simp del: evict_loop.simps)
  qed
qed

section \<open>Nothing left\<close>

text \<open>When no leaf is evictable, no unlocked token is left: below an unlocked node hangs an unlocked leaf.\<close>

lemma unlocked_children:
  assumes l: "lock_inv r H sh" and H: "\<And>n. 0 \<le> H n" and t: "tree_shape ps r sh" and n: "sh n = Some nd" "n \<noteq> r" "s_lock nd = 0"
    and c: "(k, c) \<in> set (s_children nd)" "sh c = Some cd"
  shows "s_lock cd = 0"
proof -
  have nn: "0 \<le> s_lock (the (sh (snd kc)))" if kc0: "kc \<in> set (s_children nd)" for kc
  proof -
    obtain k' c' where kc: "kc = (k', c')" by fastforce
    then obtain cd' where "sh c' = Some cd'" "c' \<noteq> r" using tree_shapeD(5) [OF t n(1), of k' c'] kc0 by blast
    then show ?thesis using lock_invD(3) [OF l] kc by simp
  qed
  have "child_locks sh nd \<le> 0" using lock_invD(4) [OF l n(1,2)] H [of n] n(3) by simp
  moreover have "0 \<le> child_locks sh nd" using nn by (intro sum_list_nonneg) auto
  ultimately have "child_locks sh nd = 0" by simp
  then have "\<forall>x \<in> set (map (\<lambda>kc. s_lock (the (sh (snd kc)))) (s_children nd)). x = 0"
    using nn by (subst (asm) sum_list_nonneg_eq_0_iff) auto
  then have "s_lock (the (sh (snd (k, c)))) = 0" using c(1) by fastforce
  then show ?thesis using c(2) by simp
qed

lemma unlocked_leaf:
  assumes l: "lock_inv r H sh" and H: "\<And>n. 0 \<le> H n" and t: "tree_shape ps r sh" and fin: "finite (dom sh)"
    and n: "sh n = Some nd" "n \<noteq> r" "s_lock nd = 0"
  shows "free_leaves r sh \<noteq> {}"
proof -
  obtain d :: "nat \<Rightarrow> nat" where d: "\<And>n nd p. sh n = Some nd \<Longrightarrow> s_parent nd = Some p \<Longrightarrow> d p < d n"
    using t unfolding tree_shape_def by blast
  let ?U = "{m. m \<noteq> r \<and> (\<exists>md. sh m = Some md \<and> s_lock md = 0)}"
  have U: "finite (d ` ?U)" "d ` ?U \<noteq> {}" using n by (auto intro: finite_subset [OF _ fin])
  then obtain m where m: "m \<in> ?U" "d m = Max (d ` ?U)" using Max_in [OF U] by (metis (no_types, lifting) imageE)
  have mx: "d c \<le> d m" if "c \<in> ?U" for c unfolding m(2) using Max_ge [OF U(1)] that by blast
  from m(1) obtain md where md: "m \<noteq> r" "sh m = Some md" "s_lock md = 0" by blast
  have "s_children md = []"
  proof (rule ccontr)
    assume "s_children md \<noteq> []"
    then obtain k c where kc: "(k, c) \<in> set (s_children md)" by (cases "s_children md") auto
    from tree_shapeD(5) [OF t md(2) kc] obtain cd where cd: "c \<noteq> r" "sh c = Some cd" "s_parent cd = Some m" by blast
    have "s_lock cd = 0" by (rule unlocked_children [OF l H t md(2,1,3) kc cd(2)])
    then show False using mx [of c] d [OF cd(2,3)] cd by auto
  qed
  then show ?thesis using md by (auto simp: free_leaves_def)
qed

lemma no_leaves_no_size:
  assumes ok: "cache_ok H s" and H: "\<And>n. 0 \<le> H n" and none: "evictable_leaves s = {}"
  shows "evictable_size s = 0"
proof -
  have b: "finite (dom (shape s))" "lock_inv (root_node s) H (shape s)" "evictable_size s = size_of (\<lambda>l. l = 0) (root_node s) (shape s)"
    "free_leaves (root_node s) (shape s) = {}"
    using cache_okD(2) [OF ok] none by (simp_all add: books_def)
  have "(if n \<noteq> root_node s \<and> s_lock nd = 0 then int (length (s_units nd)) else 0) = 0" if "shape s n = Some nd" for n nd
    using unlocked_leaf [OF b(2) H cache_okD(1) [OF ok] b(1) that] b(4) by auto
  then show ?thesis unfolding b(3) size_of_def fsum_def by (intro sum.neutral ballI) (metis domD option.sel)
qed

section \<open>The whole operation\<close>

lemma heap_of_leaves:
  assumes ok: "cache_ok H s" and l: "set ls = evictable_leaves s" "distinct ls"
  shows "heap_ok s (List.map_filter (\<lambda>n. map_option (heap_entry_of (eviction_strategy s) n) (nodes s n)) ls)"
proof -
  have "List.map_filter (\<lambda>n. map_option (heap_entry_of (eviction_strategy s) n) (nodes s n)) ls' = map (entry_at s) ls'"
    if "set ls' \<subseteq> dom (nodes s)" for ls'
    using that by (induction ls') (auto simp: List.map_filter_simps entry_at_def)
  then show ?thesis using leaves_live [OF ok] l by (simp add: heap_ok_def subset_iff comp_def)
qed

lemma evict_facts:
  assumes ok: "cache_ok H s" and pk: "pool_ok s" and hk: "hashes_ok s" and H: "\<And>n. 0 \<le> H n"
    and on: "\<not> disable s" and ls: "set (leaf_order E (evictable_leaves s)) = evictable_leaves s" "distinct (leaf_order E (evictable_leaves s))"
  shows "\<exists>s' P. evict E s num = Inr (size P * cache_page_size s, s') \<and> shrunk H s s' P
    \<and> (num \<le> size P * cache_page_size s \<or> evictable_size s' = 0)
    \<and> (\<forall>n \<in> dom (nodes s) - dom (nodes s'). \<forall>m \<in> evictable_leaves s \<inter> dom (nodes s').
         \<not> entry_less (entry_at s m) (entry_at s n))"
proof -
  have "dom (nodes s) \<subseteq> {..<counter s}" using cache_okD(4) [OF ok] by auto
  then have "card (dom (nodes s)) < Suc (counter s)" using card_mono [of "{..<counter s}" "dom (nodes s)"] by simp
  from evict_loop_facts [OF ok pk hk heap_of_leaves [OF ok ls] this, of E num 0]
  show ?thesis using on no_leaves_no_size [of H] H shrunkD(1) by (simp add: evict_def Let_def del: evict_loop.simps) metis
qed

end
