(* ===== verification/RadixSystem.thy ===== *)
theory RadixSystem
  imports RadixEvictLoop
begin

text \<open>
  The prefix cache as a system: its operations, those of the page pool behind it and the reading
  of the event queue as steps of one relation, the states reached from a new cache, and the
  invariant of all of them. A state carries two ghost components: how many handles are held on
  each node, and the blocks a consumer of the events believes to be cached.
\<close>

section \<open>Steps\<close>

definition owned :: "radix_cache \<Rightarrow> int list \<Rightarrow> bool" where
  "owned s v \<longleftrightarrow>
     page_run (cache_page_size s) v \<and> distinct (pages_seq (cache_page_size s) v) \<and>
     set (pages_seq (cache_page_size s) v) \<inter> kv_avail (kv_pool s) = {} \<and>
     set (pages_seq (cache_page_size s) v) \<inter> set_mset (tree_pages (cache_page_size s) (shape s)) = {} \<and>
     set (pages_seq (cache_page_size s) v) \<subseteq> kv_capacity (kv_pool s)"

definition aligned_len :: "radix_cache \<Rightarrow> radix_key \<Rightarrow> nat" where
  "aligned_len s k = length (lookup_units s k) div cache_page_size s * cache_page_size s"

definition order_laws :: "cache_env \<Rightarrow> bool" where
  "order_laws E \<longleftrightarrow> (\<forall>X. finite X \<longrightarrow> set (leaf_order E X) = X \<and> distinct (leaf_order E X))"

type_synonym sys_state = "(nat \<Rightarrow> int) \<times> int multiset \<times> radix_cache"

inductive cache_step :: "cache_env \<Rightarrow> sys_state \<Rightarrow> sys_state \<Rightarrow> bool" for E where
  step_match: "key_fits s k \<Longrightarrow> match_prefix E s k = Inr (r, s') \<Longrightarrow> cache_step E (H, C, s) (H, C, s')"
| step_insert: "key_fits s k \<Longrightarrow> aligned_len s k \<le> length v \<Longrightarrow>
    insert_op E s k (Some v) prio chunked = Inr (r, s') \<Longrightarrow>
    owned s (drop (prefix_len r) (take (aligned_len s k) v)) \<Longrightarrow> cache_step E (H, C, s) (H, C, s')"
| step_inc: "nodes s n \<noteq> None \<Longrightarrow> inc_lock_ref s (Some n) = Inr (d, s') \<Longrightarrow>
    cache_step E (H, C, s) (H(n := H n + 1), C, s')"
| step_dec: "nodes s n \<noteq> None \<Longrightarrow> 1 \<le> H n \<Longrightarrow> dec_lock_ref s (Some n) = Inr (d, s') \<Longrightarrow>
    cache_step E (H, C, s) (H(n := H n - 1), C, s')"
| step_evict: "evict E s num = Inr (k, s') \<Longrightarrow> cache_step E (H, C, s) (H, C, s')"
| step_reset: "cache_step E (H, C, s) (\<lambda>_. 0, C, reset E s)"
| step_events: "take_events (kv_events s) = (evs, r) \<Longrightarrow> cache_step E (H, C, s) (H, replay evs C, s\<lparr>kv_events := r\<rparr>)"
| step_alloc: "kv_alloc (kv_pool s) n = Inr (res, pool) \<Longrightarrow> cache_step E (H, C, s) (H, C, s\<lparr>kv_pool := pool\<rparr>)"
| step_free: "owned s v \<Longrightarrow> kv_free_segment (kv_pool s) v 0 = Inr pool \<Longrightarrow> cache_step E (H, C, s) (H, C, s\<lparr>kv_pool := pool\<rparr>)"

inductive reachable :: "cache_env \<Rightarrow> sys_state \<Rightarrow> bool" for E where
  reach_new: "0 < pg \<Longrightarrow> kv_inv pool \<Longrightarrow> kv_page_size pool = pg \<Longrightarrow>
    new_radix_cache E False pg eagle no_finished policy events table pool = Inr s \<Longrightarrow> reachable E (\<lambda>_. 0, C, s)"
| reach_step: "reachable E st \<Longrightarrow> cache_step E st st' \<Longrightarrow> reachable E st'"

definition in_sync :: "int multiset \<Rightarrow> radix_cache \<Rightarrow> bool" where
  "in_sync C s \<longleftrightarrow> enabled (kv_events s) \<longrightarrow> replay (queue (kv_events s)) C = live_blocks s"

definition sound :: "sys_state \<Rightarrow> bool" where
  "sound st \<longleftrightarrow> (case st of (H, C, s) \<Rightarrow>
     cache_ok H s \<and> (\<forall>n. 0 \<le> H n) \<and> pool_ok s \<and> hashes_ok s \<and> \<not> disable s \<and> in_sync C s)"

section \<open>Every step keeps the invariant\<close>

lemma soundD:
  assumes "sound (H, C, s)"
  shows "cache_ok H s" "0 \<le> H n" "pool_ok s" "hashes_ok s" "\<not> disable s" "in_sync C s"
    "\<And>n. 0 \<le> H n"
  using assms by (simp_all add: sound_def)

lemma pool_okD:
  assumes "pool_ok s"
  shows "kv_inv (kv_pool s)" "kv_page_size (kv_pool s) = cache_page_size s" "runs_ok (cache_page_size s) (shape s)"
    "count (tree_pages (cache_page_size s) (shape s)) q \<le> 1"
    "set_mset (tree_pages (cache_page_size s) (shape s)) \<inter> kv_avail (kv_pool s) = {}"
    "set_mset (tree_pages (cache_page_size s) (shape s)) \<subseteq> kv_capacity (kv_pool s)"
  using assms unfolding pool_ok_def by blast+

lemma sound_reshaped:
  assumes s: "sound (H, C, s)" and r: "reshaped H s s'"
  shows "sound (H, C, s')"
proof -
  note R = reshapedD [OF r] and S = same_setupD [OF reshapedD(2) [OF r]]
  have "pool_ok s'" using soundD(3) [OF s] R(4,11,12) S by (simp add: pool_ok_def)
  moreover have "in_sync C s'" using soundD(6) [OF s] R(6,10) by (simp add: in_sync_def)
  ultimately show ?thesis using R(1,3) S soundD [OF s] by (simp add: sound_def)
qed

lemma sound_inserted:
  assumes s: "sound (H, C, s)" and i: "inserted H s s' ns us v n V node" and o: "owned s (drop n v)"
  shows "sound (H, C, s')"
proof -
  let ?ps = "cache_page_size s" and ?P = "pages_seq (cache_page_size s) (drop n v)"
  note P = pool_okD [OF soundD(3) [OF s]]
  have I: "cache_ok H s'" "hashes_ok s'" "same_setup s s'" "kv_pool s' = kv_pool s"
    "tree_pages ?ps (shape s') = mset ?P + tree_pages ?ps (shape s)"
    "runs_ok ?ps (shape s) \<Longrightarrow> page_run ?ps (drop n v) \<Longrightarrow> runs_ok ?ps (shape s')"
    "\<exists>X. live_blocks s' = live_blocks s + X \<and>
        (enabled (kv_events s) \<longrightarrow> (\<forall>M. replay (queue (kv_events s')) M = replay (queue (kv_events s)) M + X))"
    using i unfolding inserted_def by blast+
  note S = same_setupD [OF I(3)]
  have sync: "in_sync C s'" using I(7) soundD(6) [OF s] S by (auto simp: in_sync_def)
  have cnt: "count (mset ?P + tree_pages ?ps (shape s)) q \<le> 1" for q
  proof (cases "q \<in> set ?P")
    case True
    have "distinct ?P" "q \<notin># tree_pages ?ps (shape s)" using o True unfolding owned_def by blast+
    then have "count (mset ?P) q = 1" "count (tree_pages ?ps (shape s)) q = 0"
      using True distinct_count_atmost_1 [of ?P] by (simp_all add: not_in_iff)
    then show ?thesis by simp
  next
    case False
    then have "count (mset ?P) q = 0" by (simp add: count_mset_0_iff)
    then show ?thesis unfolding plus_multiset.rep_eq using P(4) [of q] by linarith
  qed
  have "pool_ok s'"
    unfolding pool_ok_def S(2) I(4,5)
  proof (intro conjI)
    show "runs_ok ?ps (shape s')" using I(6) P(3) o by (simp add: owned_def)
    show "set_mset (mset ?P + tree_pages ?ps (shape s)) \<inter> kv_avail (kv_pool s) = {}" using P(5) o unfolding owned_def by auto
    show "set_mset (mset ?P + tree_pages ?ps (shape s)) \<subseteq> kv_capacity (kv_pool s)" using P(6) o unfolding owned_def by auto
  qed (use P(1,2) cnt in simp_all)
  then show ?thesis using sync I(1,2) S soundD [OF s] by (simp add: sound_def)
qed

lemma sound_shrunk:
  assumes s: "sound (H, C, s)" and r: "shrunk H s s' P"
  shows "sound (H, C, s')"
proof -
  note R = shrunkD [OF r] and S = same_setupD [OF shrunkD(4) [OF r]]
  have "in_sync C s'" using R(11) soundD(6) [OF s] S by (auto simp: in_sync_def)
  then show ?thesis using R(1-3) S soundD [OF s] by (simp add: sound_def)
qed

lemma sound_relocked:
  assumes s: "sound (H, C, s)" and r: "relocked s s' L d" and ok: "cache_ok H' s'" and H: "\<And>n. 0 \<le> H' n"
  shows "sound (H', C, s')"
proof -
  have R: "same_setup s s'" "hashes_ok s \<Longrightarrow> hashes_ok s'" "kv_pool s' = kv_pool s" "kv_events s' = kv_events s" "live_blocks s' = live_blocks s"
    "tree_pages (cache_page_size s) (shape s') = tree_pages (cache_page_size s) (shape s)"
    "runs_ok (cache_page_size s) (shape s) \<Longrightarrow> runs_ok (cache_page_size s) (shape s')"
    using r unfolding relocked_def by blast+
  note S = same_setupD [OF R(1)]
  have "pool_ok s'" using soundD(3) [OF s] R S by (simp add: pool_ok_def)
  moreover have "in_sync C s'" using soundD(6) [OF s] R by (simp add: in_sync_def)
  ultimately show ?thesis using ok H R(2) S soundD [OF s] by (simp add: sound_def)
qed

lemma sound_pool:
  assumes s: "sound (H, C, s)" and p: "kv_inv pool" "kv_page_size pool = cache_page_size s" "kv_capacity pool = kv_capacity (kv_pool s)"
    and a: "kv_avail pool \<inter> set_mset (tree_pages (cache_page_size s) (shape s)) = {}"
  shows "sound (H, C, s\<lparr>kv_pool := pool\<rparr>)"
proof -
  have "cache_ok H (s\<lparr>kv_pool := pool\<rparr>)" using soundD(1) [OF s] by (simp add: cache_ok_def keys_ok_def)
  moreover have "pool_ok (s\<lparr>kv_pool := pool\<rparr>)" using soundD(3) [OF s] p a by (auto simp: pool_ok_def)
  ultimately show ?thesis using soundD [OF s] by (simp add: sound_def hashes_ok_def in_sync_def live_blocks_def)
qed

lemma sound_alloc:
  assumes s: "sound (H, C, s)" and a: "kv_alloc (kv_pool s) n = Inr (res, pool)"
  shows "sound (H, C, s\<lparr>kv_pool := pool\<rparr>)"
proof (rule sound_pool [OF s])
  note P = pool_okD [OF soundD(3) [OF s]]
  note A = kv_alloc_cases [OF P(1) a]
  show "kv_inv pool" "kv_page_size pool = cache_page_size s" "kv_capacity pool = kv_capacity (kv_pool s)" using A P(2) by simp_all
  have "kv_avail pool \<subseteq> kv_avail (kv_pool s)" using A by (auto split: option.splits)
  then show "kv_avail pool \<inter> set_mset (tree_pages (cache_page_size s) (shape s)) = {}" using P(5) by blast
qed

lemma sound_free:
  assumes s: "sound (H, C, s)" and o: "owned s v" and f: "kv_free_segment (kv_pool s) v 0 = Inr pool"
  shows "sound (H, C, s\<lparr>kv_pool := pool\<rparr>)"
proof (rule sound_pool [OF s])
  note P = pool_okD [OF soundD(3) [OF s]]
  have O: "page_run (cache_page_size s) v" "distinct (pages_seq (cache_page_size s) v)"
    "set (pages_seq (cache_page_size s) v) \<inter> kv_avail (kv_pool s) = {}" "set (pages_seq (cache_page_size s) v) \<subseteq> kv_capacity (kv_pool s)"
    using o unfolding owned_def by blast+
  note F = free_run [OF P(1,2) O, unfolded f sum.inject]
  show "kv_inv pool" "kv_page_size pool = cache_page_size s" "kv_capacity pool = kv_capacity (kv_pool s)" using F by simp_all
  have "kv_avail pool = kv_avail (kv_pool s) \<union> set (pages_seq (cache_page_size s) v)" using F by simp
  then show "kv_avail pool \<inter> set_mset (tree_pages (cache_page_size s) (shape s)) = {}" using P(5) o unfolding owned_def by blast
qed

lemma reset_nodes:
  "nodes (reset E s) = Map.empty(counter s \<mapsto> (blank_node (- (2 ^ 63 - 1)) (monotonic E (clock s)) (monotonic E (clock s + 1)))
     \<lparr>key := new_radix_key [] None False None None, val := Some [], host_value := Some [], lock_ref := 1, hash_value := Some []\<rparr>)"
  "root_node (reset E s) = counter s" "evictable_size (reset E s) = 0" "protected_size (reset E s) = 0" "evictable_leaves (reset E s) = {}"
  "kv_pool (reset E s) = kv_pool s" "cache_page_size (reset E s) = cache_page_size s" "counter (reset E s) = counter s + 1"
  "disable (reset E s) = disable s" "kv_events (reset E s) = record_all_cleared (kv_events s)" "is_eagle (reset E s) = is_eagle s"
  by (simp_all add: reset_def Let_def new_tree_node_def read_clock_def set_node_def)

lemma tree_shape_single:
  assumes "0 < ps" "root_ok R" "s_children R = []" "s_parent R = None"
  shows "tree_shape ps r [r \<mapsto> R]"
  unfolding tree_shape_def
proof (intro conjI)
  show "\<exists>d :: nat \<Rightarrow> nat. \<forall>n nd p. [r \<mapsto> R] n = Some nd \<longrightarrow> s_parent nd = Some p \<longrightarrow> d p < d n"
    using assms(4) by (intro exI [of _ "\<lambda>_. 0"]) auto
qed (use assms in \<open>auto split: if_splits\<close>)

lemma books_single: "s_lock R = 1 \<Longrightarrow> books r (\<lambda>_. 0) [r \<mapsto> R] 0 0 {}"
  by (auto simp: books_def lock_inv_def free_leaves_def size_of_def fsum_def split: if_splits)

lemma reset_shape:
  "shape (reset E s) = [counter s \<mapsto> \<lparr>s_children = [], s_parent = None, s_ns = (None, None), s_units = [], s_val = Some [], s_lock = 1\<rparr>]"
  by (rule ext) (simp add: reset_nodes snode_of_def shape_of_def blank_node_def new_radix_key_def key_iter_def raw_len_def namespace_def Let_def)

lemma sound_reset:
  assumes ps: "0 < cache_page_size s" and pool: "kv_inv (kv_pool s)" "kv_page_size (kv_pool s) = cache_page_size s"
    and en: "\<not> disable s" and ev: "\<not> enabled (kv_events s) \<or> ev_page_size (kv_events s) = cache_page_size s"
  shows "sound (\<lambda>_. 0, C, reset E s)"
proof -
  let ?s = "reset E s"
  have "cache_ok (\<lambda>_. 0) ?s"
  proof (rule cache_okI)
    show "tree_shape (cache_page_size ?s) (root_node ?s) (shape ?s)"
      unfolding reset_shape reset_nodes(2-) using ps by (intro tree_shape_single) (simp_all add: root_ok_def)
    show "books (root_node ?s) (\<lambda>_. 0) (shape ?s) (evictable_size ?s) (protected_size ?s) (evictable_leaves ?s)"
      unfolding reset_shape reset_nodes(2-) by (intro books_single) simp
    show "keys_ok ?s" by (simp add: keys_ok_def reset_nodes key_ok_def new_radix_key_def)
  qed (simp add: reset_nodes split: if_splits)
  moreover have tp: "tree_pages (cache_page_size s) (shape ?s) = {#}"
    unfolding tree_pages_def fsum_def reset_shape by (simp add: node_pages_def pages_seq_def)
  have "runs_ok (cache_page_size s) (shape ?s)" unfolding reset_shape by (simp add: runs_ok_def page_run_def pages_seq_def)
  then have "pool_ok ?s" unfolding pool_ok_def reset_nodes(2-) tp using pool by simp
  moreover have "hashes_ok ?s" using ev by (simp add: hashes_ok_def reset_nodes record_all_cleared_def blank_node_def)
  moreover have "in_sync C ?s"
    by (simp add: in_sync_def live_blocks_def reset_nodes fsum_def record_all_cleared_def replay_enqueue)
  ultimately show ?thesis using en by (simp add: sound_def reset_nodes)
qed

text \<open>Every operation of a sound cache succeeds, and every step leads to a sound cache.\<close>

lemma insert_sound_facts:
  assumes s: "sound (H, C, s)" and laws: "hash_laws E" and k: "key_fits s k" and al: "aligned_len s k \<le> length v"
  obtains n node s' V where "insert_op E s k (Some v) prio chunked = Inr (\<lparr>prefix_len = n, insert_last_node = Some node\<rparr>, s')"
    "longest (cache_page_size s) (namespace k) (shape s) (root_node s) (lookup_units s k) n" "n \<le> aligned_len s k"
    "inserted H s s' (namespace k) (take (aligned_len s k) (lookup_units s k)) (take (aligned_len s k) v) n V node"
    "length V = aligned_len s k" "drop n V = drop n (take (aligned_len s k) v)"
  using insert_op_facts [OF soundD(1,4) [OF s] laws soundD(5) [OF s] k aligned_len_def al] by blast

lemma evict_sound_facts:
  assumes s: "sound (H, C, s)" and ord: "order_laws E"
  obtains s' P where "evict E s num = Inr (size P * cache_page_size s, s')" "shrunk H s s' P"
    "num \<le> size P * cache_page_size s \<or> evictable_size s' = 0"
    "\<And>n m. n \<in> dom (nodes s) - dom (nodes s') \<Longrightarrow> m \<in> evictable_leaves s \<inter> dom (nodes s') \<Longrightarrow>
       \<not> entry_less (entry_at s m) (entry_at s n)"
proof -
  have "finite (evictable_leaves s)"
    using cache_okD(2) [OF soundD(1) [OF s]] leaves_live [OF soundD(1) [OF s]] by (auto simp: books_def intro: finite_subset)
  then have l: "set (leaf_order E (evictable_leaves s)) = evictable_leaves s" "distinct (leaf_order E (evictable_leaves s))"
    using ord by (simp_all add: order_laws_def)
  show ?thesis using evict_facts [OF soundD(1,3,4,7,5) [OF s] l, of num] that by blast
qed

lemma sound_step:
  assumes "cache_step E st st'" "sound st" "hash_laws E" "order_laws E"
  shows "sound st'"
  using assms
proof (induction rule: cache_step.induct)
  case (step_match s k r s' H C)
  from match_prefix_facts [OF soundD(1) [OF step_match(3)] step_match(1) soundD(5) [OF step_match(3)], of E]
  obtain r0 s0 where "match_prefix E s k = Inr (r0, s0)" "reshaped H s s0" by blast
  then show ?case using sound_reshaped [OF step_match(3)] step_match(2) by simp
next
  case (step_insert s k v prio chunked r s' H C)
  from insert_sound_facts [OF step_insert(5,6,1,2), of prio chunked] obtain n node s0 V where
    f: "insert_op E s k (Some v) prio chunked = Inr (\<lparr>prefix_len = n, insert_last_node = Some node\<rparr>, s0)"
    "inserted H s s0 (namespace k) (take (aligned_len s k) (lookup_units s k)) (take (aligned_len s k) v) n V node" by metis
  then have "r = \<lparr>prefix_len = n, insert_last_node = Some node\<rparr>" "s' = s0" using step_insert(3) by simp_all
  then show ?case using sound_inserted [OF step_insert(5) f(2)] step_insert(4) by simp
next
  case (step_inc s n d s' H C)
  from inc_lock_ref_facts [OF soundD(1,5) [OF step_inc(3)] step_inc(1)] obtain s0 where
    f: "inc_lock_ref s (Some n) = Inr (evictable_size s0 - evictable_size s, s0)" "cache_ok (H(n := H n + 1)) s0" "relocked s s0 (path_of s n) 1" .
  have "0 \<le> (H(n := H n + 1)) m" for m using soundD(2) [OF step_inc(3), of m] soundD(2) [OF step_inc(3), of n] by simp
  from sound_relocked [OF step_inc(3) f(3,2) this] f(1) step_inc(2) show ?case by (simp del: fun_upd_apply)
next
  case (step_dec s n H d s' C)
  from dec_lock_ref_facts [OF soundD(1,7,5) [OF step_dec(4)] step_dec(1,2)] obtain s0 where
    f: "dec_lock_ref s (Some n) = Inr (evictable_size s0 - evictable_size s, s0)" "cache_ok (H(n := H n - 1)) s0" "relocked s s0 (path_of s n) (- 1)" .
  have "0 \<le> (H(n := H n - 1)) m" for m using soundD(2) [OF step_dec(4), of m] step_dec(2) by simp
  from sound_relocked [OF step_dec(4) f(3,2) this] f(1) step_dec(3) show ?case by (simp del: fun_upd_apply)
next
  case (step_evict s num k s' H C)
  from evict_sound_facts [OF step_evict(2,4), of num] obtain s0 P where "evict E s num = Inr (size P * cache_page_size s, s0)" "shrunk H s s0 P" by metis
  then show ?case using sound_shrunk [OF step_evict(2)] step_evict(1) by simp
next
  case (step_reset H C s)
  note P = pool_okD [OF soundD(3) [OF step_reset(1)]]
  have "\<not> enabled (kv_events s) \<or> ev_page_size (kv_events s) = cache_page_size s" using soundD(4) [OF step_reset(1)] by (auto simp: hashes_ok_def)
  show ?case by (rule sound_reset [OF cache_okD(6) [OF soundD(1) [OF step_reset(1)]] P(1,2) soundD(5) [OF step_reset(1)]]) fact
next
  case (step_events s evs r H C)
  have "sound (H, replay evs C, s\<lparr>kv_events := r\<rparr>)"
  proof -
    have "cache_ok H (s\<lparr>kv_events := r\<rparr>)" using soundD(1) [OF step_events(2)] by (simp add: cache_ok_def keys_ok_def)
    moreover have "pool_ok (s\<lparr>kv_events := r\<rparr>)" using soundD(3) [OF step_events(2)] by (simp add: pool_ok_def)
    ultimately show ?thesis
      using soundD [OF step_events(2)] step_events(1)
      by (auto simp: sound_def hashes_ok_def in_sync_def live_blocks_def take_events_def replay_def split: if_splits)
  qed
  then show ?case .
next
  case (step_alloc s n res pool H C)
  then show ?case using sound_alloc by blast
next
  case (step_free s v pool H C)
  then show ?case using sound_free by blast
qed

lemma sound_reachable:
  assumes "reachable E st" "hash_laws E" "order_laws E"
  shows "sound st"
  using assms
proof (induction rule: reachable.induct)
  case (reach_new pg pool eagle no_finished policy events table s C)
  then obtain strat where "s = reset E
         \<lparr>disable = False, cache_page_size = pg, is_eagle = eagle,
          disable_finished_insert = no_finished, eviction_strategy = strat,
          kv_events = \<lparr>enabled = events, ev_page_size = pg, queue = []\<rparr>,
          nodes = Map.empty, counter = 0, clock = 0, root_node = 0, evictable_size = 0,
          protected_size = 0, evictable_leaves = {}, req_to_token = table, kv_pool = pool\<rparr>"
    by (auto simp: new_radix_cache_def rbind_eq_Inr)
  then show ?case using sound_reset reach_new by simp
qed (use sound_step in blast)

end
