(* ===== verification/RadixProps.thy ===== *)
theory RadixProps
  imports RadixSystem
begin

text \<open>
  The properties of the radix cache, over the states reached from a new cache by any sequence of
  its operations. A small concrete run stands at the end of the lemmas for the witnesses.
\<close>

section \<open>Lemmas\<close>

abbreviation laws :: "cache_env \<Rightarrow> bool" where
  "laws E \<equiv> hash_laws E \<and> order_laws E"

lemma reach_sound: "reachable E (H, C, s) \<Longrightarrow> laws E \<Longrightarrow> sound (H, C, s)"
  using sound_reachable [of E "(H, C, s)"] by blast

lemma handle_locks:
  assumes s: "sound (H, C, s)" and n: "nodes s n = Some nd" "1 \<le> H n"
  shows "0 < lock_ref nd"
proof (cases "n = root_node s")
  case True
  then show ?thesis using root_lock [OF soundD(1) [OF s]] n(1) by simp
next
  case False
  note tree = cache_okD(1) [OF soundD(1) [OF s]] and l = cache_ok_lock_inv [OF soundD(1) [OF s]] and sn = shape_SomeI [OF n(1)]
  have "0 \<le> s_lock (the (shape s (snd kc)))" if kc: "kc \<in> set (children nd)" for kc
  proof -
    obtain cd where "shape s (snd kc) = Some cd" "snd kc \<noteq> root_node s"
      using tree_shapeD(5) [OF tree sn, of "fst kc" "snd kc"] kc by auto
    then show ?thesis using lock_invD(3) [OF l] by simp
  qed
  then have "0 \<le> child_locks (shape s) (snode_of nd)" by (intro sum_list_nonneg) auto
  then show ?thesis using lock_invD(4) [OF l sn False] n(2) by simp
qed

lemma fsum_add: "fsum (\<lambda>n nd. f n nd + g n nd) m = fsum f m + fsum g m"
  by (simp add: fsum_def sum.distrib)

lemma fsum_cong: "(\<And>n nd. m n = Some nd \<Longrightarrow> f n nd = g n nd) \<Longrightarrow> fsum f m = fsum g m"
  unfolding fsum_def by (rule sum.cong) auto

lemma size_sum_multiset:
  fixes g :: "'a \<Rightarrow> 'b multiset"
  shows "finite A \<Longrightarrow> size (\<Sum>n \<in> A. g n) = (\<Sum>n \<in> A. size (g n))"
  by (induction rule: finite_induct) auto

lemma size_fsum:
  fixes f :: "nat \<Rightarrow> 'b \<Rightarrow> 'c multiset"
  shows "finite (dom m) \<Longrightarrow> size (fsum f m) = fsum (\<lambda>n nd. size (f n nd)) m"
  by (simp add: fsum_def size_sum_multiset)

lemma tree_tokens:
  assumes ok: "cache_ok H s"
  shows "evictable_size s + protected_size s = int (size (tree_pages (cache_page_size s) (shape s)) * cache_page_size s)"
proof -
  let ?ps = "cache_page_size s" and ?r = "root_node s"
  have b: "finite (dom (shape s))" "evictable_size s = size_of (\<lambda>l. l = 0) ?r (shape s)" "protected_size s = size_of (\<lambda>l. l > 0) ?r (shape s)"
    using cache_okD(2) [OF ok] by (simp_all add: books_def)
  have e: "(if n \<noteq> ?r \<and> s_lock nd = 0 then int (length (s_units nd)) else 0) + (if n \<noteq> ?r \<and> 0 < s_lock nd then int (length (s_units nd)) else 0)
      = int (size (node_pages ?ps nd) * ?ps)" if n: "shape s n = Some nd" for n nd
  proof (cases "n = ?r")
    case True
    then have "root_ok nd" using tree_shapeD(2) [OF cache_okD(1) [OF ok]] n by auto
    then show ?thesis using True by (auto simp: root_ok_def node_pages_def pages_seq_def)
  next
    case False
    have "snode_ok ?ps nd" by (rule tree_shapeD(4) [OF cache_okD(1) [OF ok] n False])
    moreover have "0 \<le> s_lock nd" by (rule lock_invD(3) [OF cache_ok_lock_inv [OF ok] n False])
    ultimately show ?thesis using False by (auto simp: snode_ok_def node_pages_def pages_seq_def)
  qed
  have "evictable_size s + protected_size s = fsum (\<lambda>n nd. int (size (node_pages ?ps nd) * ?ps)) (shape s)"
    unfolding b(2,3) size_of_def fsum_add [symmetric] by (rule fsum_cong) (rule e)
  also have "\<dots> = int (fsum (\<lambda>n nd. size (node_pages ?ps nd)) (shape s) * ?ps)"
    by (simp add: fsum_def sum_distrib_right)
  finally show ?thesis unfolding tree_pages_def size_fsum [OF b(1)] .
qed

lemma cached_facts:
  assumes s: "sound (H, C, s)"
  shows "cached s ns us vs \<Longrightarrow> length vs = length us \<and> cache_page_size s dvd length us"
    "cached s ns us vs \<Longrightarrow> cached s ns us vs' \<Longrightarrow> vs' = vs"
    "cached s ns us vs \<Longrightarrow> m \<le> length us \<Longrightarrow> cache_page_size s dvd m \<Longrightarrow> cached s ns (take m us) (take m vs)"
proof -
  note tree = cache_okD(1) [OF soundD(1) [OF s]]
  show "cached s ns us vs \<Longrightarrow> length vs = length us \<and> cache_page_size s dvd length us"
    unfolding cached_def using below_length [OF tree] by blast
  show "cached s ns us vs \<Longrightarrow> cached s ns us vs' \<Longrightarrow> vs' = vs"
    unfolding cached_def using below_unique [OF tree] by blast
  show "cached s ns us vs \<Longrightarrow> m \<le> length us \<Longrightarrow> cache_page_size s dvd m \<Longrightarrow> cached s ns (take m us) (take m vs)"
    unfolding cached_def using below_prefix [OF tree] by simp
qed

text \<open>Matching and inserting, seen as operations on the content.\<close>

lemma match_content:
  assumes s: "sound (H, C, s)" and k: "key_fits s k"
  obtains r s' where "match_prefix E s k = Inr (r, s')" "reshaped H s s'"
    "length (device_indices r) \<le> length (lookup_units s k)"
    "cached s (namespace k) (take (length (device_indices r)) (lookup_units s k)) (device_indices r)"
    "\<And>j vs. j \<le> length (lookup_units s k) \<Longrightarrow> cached s (namespace k) (take j (lookup_units s k)) vs \<Longrightarrow> j \<le> length (device_indices r)"
    "walk (namespace k) (shape s') (root_node s) (last_device_node r) (take (length (device_indices r)) (lookup_units s k)) (device_indices r)"
    "nodes s' (last_device_node r) \<noteq> None"
    "\<And>ns us vs. cached s' ns us vs = cached s ns us vs"
proof -
  note ok = soundD(1) [OF s]
  obtain r s' where m: "match_prefix E s k = Inr (r, s')" "reshaped H s s'"
    "longest (cache_page_size s) (namespace k) (shape s) (root_node s) (lookup_units s k) (length (device_indices r))"
    "walk (namespace k) (shape s') (root_node s) (last_device_node r) (take (length (device_indices r)) (lookup_units s k)) (device_indices r)"
    "nodes s' (last_device_node r) \<noteq> None"
    by (rule match_prefix_facts [OF ok k soundD(5) [OF s], of E]) blast
  note S = same_setupD [OF reshapedD(2) [OF m(2)]]
  have same: "cached s' ns us vs = cached s ns us vs" for ns us vs
    unfolding cached_def S using reshapedD(14) [OF m(2) root_live [OF ok]] .
  have "cached s' (namespace k) (take (length (device_indices r)) (lookup_units s k)) (device_indices r)"
    unfolding cached_def S by (rule walk_below_self [OF m(4)])
  then show ?thesis
    using that [OF m(1,2) longestD(1) [OF m(3)] _ _ m(4,5) same] same m(3) unfolding longest_def cached_def by blast
qed

lemma inserted_cached:
  assumes i: "inserted H s s' ns (take al us) v n V node" and al: "al \<le> length us"
  shows "cached s' ns' us' vs' \<longleftrightarrow> cached s ns' us' vs' \<or>
    ns' = ns \<and> (\<exists>j \<le> al. cache_page_size s dvd j \<and> us' = take j us \<and> vs' = take j V)"
proof -
  have "cached s' ns' us' vs' \<longleftrightarrow> cached s ns' us' vs' \<or>
    ns' = ns \<and> (\<exists>j. j \<le> length (take al us) \<and> cache_page_size s dvd j \<and> us' = take j (take al us) \<and> vs' = take j V)"
    using i unfolding inserted_def by blast
  moreover have "take j (take al us) = take j us" if "j \<le> al" for j using that by (simp add: min_absorb1)
  moreover have "length (take al us) = al" using al by simp
  ultimately show ?thesis by metis
qed

lemma insert_content:
  assumes s: "sound (H, C, s)" and l: "hash_laws E" and k: "key_fits s k" and al: "aligned_len s k \<le> length v"
  obtains n node s' V where "insert_op E s k (Some v) prio chunked = Inr (\<lparr>prefix_len = n, insert_last_node = Some node\<rparr>, s')"
    "inserted H s s' (namespace k) (take (aligned_len s k) (lookup_units s k)) (take (aligned_len s k) v) n V node"
    "n \<le> aligned_len s k" "length V = aligned_len s k" "drop n V = drop n (take (aligned_len s k) v)"
    "cached s (namespace k) (take n (lookup_units s k)) (take n V)"
    "\<And>j vs. j \<le> length (lookup_units s k) \<Longrightarrow> cached s (namespace k) (take j (lookup_units s k)) vs \<Longrightarrow> j \<le> n"
    "cached s' (namespace k) (take (aligned_len s k) (lookup_units s k)) V"
proof -
  let ?al = "aligned_len s k" and ?us = "lookup_units s k"
  obtain n node s' V where i: "insert_op E s k (Some v) prio chunked = Inr (\<lparr>prefix_len = n, insert_last_node = Some node\<rparr>, s')"
    "longest (cache_page_size s) (namespace k) (shape s) (root_node s) ?us n" "n \<le> ?al"
    "inserted H s s' (namespace k) (take ?al ?us) (take ?al v) n V node" "length V = ?al" "drop n V = drop n (take ?al v)"
    by (rule insert_sound_facts [OF s l k al, of prio chunked]) blast
  have I: "cache_ok H s'" "same_setup s s'" "walk (namespace k) (shape s') (root_node s) node (take ?al ?us) V"
    "\<And>ns' us' vs'. cached s' ns' us' vs' \<longleftrightarrow> cached s ns' us' vs' \<or>
        (ns' = namespace k \<and> (\<exists>j. j \<le> length (take ?al ?us) \<and> cache_page_size s dvd j \<and> us' = take j (take ?al ?us) \<and> vs' = take j V))"
    using i(4) unfolding inserted_def by blast+
  note S = same_setupD [OF I(2)] and L = longestD [OF i(2)]
  have full: "cached s' (namespace k) (take ?al ?us) V" unfolding cached_def S by (rule walk_below_self [OF I(3)])
  obtain ws where ws: "cached s (namespace k) (take n ?us) ws" using L(2) unfolding cached_def by blast
  have dv: "cache_page_size s dvd n" using cached_facts(1) [OF s ws] L(1) by simp
  have "below (cache_page_size s') (namespace k) (shape s') (root_node s') (take n (take ?al ?us)) (take n V)"
    using below_prefix [OF cache_okD(1) [OF I(1)], of "namespace k" _ "take ?al ?us" V n] full dv unfolding cached_def S by blast
  then have "cached s' (namespace k) (take n ?us) (take n V)" using i(3) by (simp add: cached_def min_absorb1)
  moreover have "cached s' (namespace k) (take n ?us) ws" using I(4) ws by blast
  ultimately have "take n V = ws" using below_unique [OF cache_okD(1) [OF I(1)]] unfolding cached_def by blast
  then show ?thesis using that [OF i(1,4,3,5,6) _ _ full] ws i(2) unfolding longest_def cached_def by blast
qed

lemma hex_digit_bound: "hex_digit c = Some d \<Longrightarrow> d < 16"
  by (auto simp: hex_digit_def Let_def split: if_splits)

lemma hex_value_range:
  "hex_value acc cs = Some i \<Longrightarrow> 0 \<le> acc \<Longrightarrow> acc * 16 ^ length cs \<le> i \<and> i < (acc + 1) * 16 ^ length cs"
proof (induction cs arbitrary: acc)
  case (Cons c cs)
  then obtain d where d: "hex_digit c = Some d" "hex_value (acc * 16 + int d) cs = Some i" by (auto split: option.splits)
  have "(acc * 16 + int d) * 16 ^ length cs \<le> i \<and> i < (acc * 16 + int d + 1) * 16 ^ length cs"
    using Cons.IH [OF d(2)] Cons.prems(2) by simp
  moreover have "acc * 16 * 16 ^ length cs \<le> (acc * 16 + int d) * 16 ^ length cs" by (simp add: mult_right_mono)
  moreover have "(acc * 16 + int d + 1) * 16 ^ length cs \<le> ((acc + 1) * 16) * 16 ^ length cs"
    using hex_digit_bound [OF d(1)] by (intro mult_right_mono) simp_all
  moreover have pw: "acc * 16 ^ length (c # cs) = acc * 16 * 16 ^ length cs" "(acc + 1) * 16 ^ length (c # cs) = ((acc + 1) * 16) * 16 ^ length cs"
    by simp_all
  ultimately show ?case unfolding pw by linarith
qed simp

section \<open>A concrete run\<close>

definition demo_env :: cache_env where
  "demo_env =
     \<lparr>page_hashes = (\<lambda>k prior ps. replicate (ceil_div (key_len k) ps) ''0123456789abcdef''),
      salt_digest = (\<lambda>s. ''00''), monotonic = int, leaf_order = sorted_list_of_set\<rparr>"

definition demo_key :: radix_key where
  "demo_key = new_radix_key [7, 8, 9, 10] None False None None"

lemma demo_laws: "laws demo_env"
proof -
  have "is_ok (hash_str_to_int64 ''0123456789abcdef'')" by code_simp
  then show ?thesis by (auto simp: hash_laws_def order_laws_def good_hashes_def demo_env_def list_all_iff)
qed

lemma demo_pool:
  "kv_inv (PagedAlloc (paged_init 16 2 False False))" "kv_page_size (PagedAlloc (paged_init 16 2 False False)) = 2"
  "kv_capacity (PagedAlloc (paged_init 16 2 False False)) = {1..8}"
proof -
  have h: "free_pages (paged_init 16 2 False False) = [1, 2, 3, 4, 5, 6, 7, 8]"
    by (simp add: paged_init_def paged_clear_def torch_arange_def upt_rec)
  then show "kv_inv (PagedAlloc (paged_init 16 2 False False))" "kv_page_size (PagedAlloc (paged_init 16 2 False False)) = 2"
    "kv_capacity (PagedAlloc (paged_init 16 2 False False)) = {1..8}"
    by (auto simp: kv_defs paged_inv_def base_inv_def paged_init_def paged_clear_def)
qed

lemma demo_alloc:
  obtains pool where "kv_alloc (PagedAlloc (paged_init 16 2 False False)) 4 = Inr (Some [2, 3, 4, 5], pool)" "kv_avail pool = {3, 4, 5, 6, 7, 8}"
    "kv_inv pool" "kv_page_size pool = 2" "kv_capacity pool = {1..8}"
proof -
  let ?al = "PagedAlloc (paged_init 16 2 False False)"
  have "case kv_alloc ?al 4 of Inr (Some out, p) \<Rightarrow> out = [2, 3, 4, 5] \<and> kv_avail p = {3, 4, 5, 6, 7, 8} | _ \<Rightarrow> False" by code_simp
  then obtain p where p: "kv_alloc ?al 4 = Inr (Some [2, 3, 4, 5], p)" "kv_avail p = {3, 4, 5, 6, 7, 8}" by (auto split: sum.splits option.splits)
  from kv_alloc_cases [OF demo_pool(1) p(1)] p show ?thesis using that [of p] by (simp add: demo_pool)
qed

lemma demo_reachable:
  obtains s where "reachable demo_env (\<lambda>_. 0, {#}, s)" "cache_page_size s = 2" "\<not> is_eagle s" "enabled (kv_events s)"
    "lookup_units s demo_key = [(7, None), (8, None), (9, None), (10, None)]" "key_fits s demo_key" "namespace demo_key = (None, None)"
    "cached s (None, None) [(7, None), (8, None), (9, None), (10, None)] [2, 3, 4, 5]" "evictable_size s = 4" "protected_size s = 0"
    "tree_pages 2 (shape s) = {#1, 2#}" "kv_avail (kv_pool s) = {3, 4, 5, 6, 7, 8}" "kv_capacity (kv_pool s) = {1..8}"
proof -
  let ?al = "PagedAlloc (paged_init 16 2 False False)" and ?us = "[(7, None), (8, None), (9, None), (10, None)] :: key_unit list"
  define s0 where "s0 = reset demo_env
         \<lparr>disable = False, cache_page_size = 2, is_eagle = False,
          disable_finished_insert = False, eviction_strategy = LRU,
          kv_events = \<lparr>enabled = True, ev_page_size = 2, queue = []\<rparr>,
          nodes = Map.empty, counter = 0, clock = 0, root_node = 0, evictable_size = 0,
          protected_size = 0, evictable_leaves = {}, req_to_token = [], kv_pool = ?al\<rparr>"
  have strat: "get_eviction_strategy ''lru'' = Inr LRU" by code_simp
  have r0: "reachable demo_env (\<lambda>_. 0, {#}, s0)"
    by (rule reach_new [of 2 ?al _ False False "''lru''" True "[]"]) (simp_all add: demo_pool new_radix_cache_def strat s0_def)
  obtain pool where p: "kv_alloc ?al 4 = Inr (Some [2, 3, 4, 5], pool)" "kv_avail pool = {3, 4, 5, 6, 7, 8}"
    "kv_inv pool" "kv_page_size pool = 2" "kv_capacity pool = {1..8}" by (rule demo_alloc)
  define s1 where "s1 = s0\<lparr>kv_pool := pool\<rparr>"
  have s1: "cache_page_size s1 = 2" "\<not> is_eagle s1" "enabled (kv_events s1)" "kv_pool s1 = pool" "evictable_size s1 = 0" "protected_size s1 = 0"
    "root_node s1 = 0" "shape s1 = shape s0"
    by (simp_all add: s1_def s0_def reset_nodes record_all_cleared_def)
  have sh: "shape s1 = [0 \<mapsto> \<lparr>s_children = [], s_parent = None, s_ns = (None, None), s_units = [], s_val = Some [], s_lock = 1\<rparr>]"
    unfolding s1(8) s0_def reset_shape by simp
  have r1: "reachable demo_env (\<lambda>_. 0, {#}, s1)"
    unfolding s1_def by (rule reach_step [OF r0 step_alloc [of _ 4]]) (simp add: s0_def reset_nodes p(1))
  note so = reach_sound [OF r1 demo_laws]
  have k: "key_fits s demo_key" "lookup_units s demo_key = ?us" "namespace demo_key = (None, None)" if "\<not> is_eagle s" for s
    using that by (simp_all add: key_fits_def demo_key_def new_radix_key_def key_ok_def lookup_units_def raw_def raw_len_def units_def namespace_def)
  note k1 = k [OF s1(2)]
  have al: "aligned_len s1 demo_key = 4" by (simp add: aligned_len_def k1 s1)
  obtain n node s2 V where i: "insert_op demo_env s1 demo_key (Some [2, 3, 4, 5]) None False = Inr (\<lparr>prefix_len = n, insert_last_node = Some node\<rparr>, s2)"
    "inserted (\<lambda>_. 0) s1 s2 (None, None) ?us [2, 3, 4, 5] n V node" "n \<le> 4" "length V = 4" "drop n V = drop n [2, 3, 4, 5]"
    "cached s1 (None, None) (take n ?us) (take n V)" "cached s2 (None, None) ?us V"
    by (rule insert_content [OF so conjunct1 [OF demo_laws] k1(1), of "[2, 3, 4, 5]" None False]) (simp_all add: al k1)
  have n0: "n = 0" using i(6) i(3) unfolding cached_def s1(7) by (cases rule: below.cases) (auto simp: sh)
  have seq: "pages_seq 2 [2, 3, 4, 5] = [1, 2]" by code_simp
  have t1: "tree_pages 2 (shape s1) = {#}" unfolding sh by (simp add: tree_pages_def fsum_def node_pages_def pages_seq_def)
  have "page_run 2 [2, 3, 4, 5]" by code_simp
  then have "owned s1 [2, 3, 4, 5]" by (simp add: owned_def s1(1,4) seq t1 p)
  then have r2: "reachable demo_env (\<lambda>_. 0, {#}, s2)"
    by (intro reach_step [OF r1 step_insert [OF k1(1) _ i(1)]]) (simp_all add: al n0)
  have I: "same_setup s1 s2" "kv_pool s2 = kv_pool s1" "evictable_size s2 = evictable_size s1 + int (length ?us - n)" "protected_size s2 = protected_size s1"
    "tree_pages (cache_page_size s1) (shape s2) = mset (pages_seq (cache_page_size s1) (drop n [2, 3, 4, 5])) + tree_pages (cache_page_size s1) (shape s1)"
    using i(2) unfolding inserted_def by blast+
  note S = same_setupD [OF I(1)]
  have "tree_pages 2 (shape s2) = {#1, 2#}" using I(5) by (simp add: s1(1) seq t1 n0)
  then show ?thesis
    using that [OF r2] k [of s2] i(4,5,7) I(2-4) by (simp add: S s1(1-7) n0 p)
qed

section \<open>Properties\<close>

text \<open>
  C1: in every state reached from a new radix cache by lookups, insertions, locks, unlocks, evictions, resets, event reads and pool operations, the tree is well formed, the lock counts and the size counters are those of the tree, the set of evictable leaves is exact, no page is owned twice or both cached and free, and every page hash is present.
\<close>

theorem reachable_invariant:
  assumes "reachable E (H, C, s)" "hash_laws E" "order_laws E"
  shows "cache_inv H s \<and> pool_ok s \<and> hashes_ok s"
  using soundD [OF reach_sound [OF assms(1)]] assms(2,3) by (simp add: cache_inv_def)

theorem reachable_invariant_witness:
  "\<exists>s. evictable_size s = 4 \<and> cache_inv (\<lambda>_. 0) s \<and> pool_ok s \<and> hashes_ok s"
proof -
  obtain s where "reachable demo_env (\<lambda>_. 0, {#}, s)" "evictable_size s = 4" by (rule demo_reachable) blast
  then show ?thesis using reachable_invariant demo_laws by blast
qed

text \<open>
  C5: a lookup always succeeds, returns the slots of the longest page-aligned prefix of the key that is cached in the key's namespace, and leaves the cached content, the pool and the size counters as they were (splitting a node on the way is invisible).
\<close>

theorem match_prefix_longest:
  assumes "reachable E (H, C, s)" "hash_laws E" "order_laws E" "key_fits s k"
  shows "\<exists>r s'. match_prefix E s k = Inr (r, s') \<and> reachable E (H, C, s') \<and>
    cached s (namespace k) (take (length (device_indices r)) (lookup_units s k)) (device_indices r) \<and>
    (\<forall>j vs. j \<le> length (lookup_units s k) \<and> cached s (namespace k) (take j (lookup_units s k)) vs \<longrightarrow> j \<le> length (device_indices r)) \<and>
    (\<forall>ns us vs. cached s' ns us vs = cached s ns us vs) \<and>
    kv_pool s' = kv_pool s \<and> evictable_size s' = evictable_size s \<and> protected_size s' = protected_size s"
proof -
  have so: "sound (H, C, s)" using assms(1-3) reach_sound by blast
  obtain r s' where m: "match_prefix E s k = Inr (r, s')" "reshaped H s s'"
    "cached s (namespace k) (take (length (device_indices r)) (lookup_units s k)) (device_indices r)"
    "\<And>j vs. j \<le> length (lookup_units s k) \<Longrightarrow> cached s (namespace k) (take j (lookup_units s k)) vs \<Longrightarrow> j \<le> length (device_indices r)"
    "\<And>ns us vs. cached s' ns us vs = cached s ns us vs"
    by (rule match_content [OF so assms(4), of E]) blast
  have "reachable E (H, C, s')" by (rule reach_step [OF assms(1) step_match [OF assms(4) m(1)]])
  then show ?thesis using m reshapedD(4,7,8) [OF m(2)] by blast
qed

theorem match_prefix_longest_witness:
  "\<exists>s r s'. match_prefix demo_env s demo_key = Inr (r, s') \<and> 4 \<le> length (device_indices r)"
proof -
  obtain s where s: "reachable demo_env (\<lambda>_. 0, {#}, s)" "key_fits s demo_key" "namespace demo_key = (None, None)"
    "lookup_units s demo_key = [(7, None), (8, None), (9, None), (10, None)]"
    "cached s (None, None) [(7, None), (8, None), (9, None), (10, None)] [2, 3, 4, 5]"
    by (rule demo_reachable) blast
  obtain r s' where r: "match_prefix demo_env s demo_key = Inr (r, s')"
    "\<forall>j vs. j \<le> length (lookup_units s demo_key) \<and> cached s (namespace demo_key) (take j (lookup_units s demo_key)) vs \<longrightarrow> j \<le> length (device_indices r)"
    using match_prefix_longest [OF s(1) _ _ s(2)] demo_laws by blast
  have "4 \<le> length (device_indices r)" using r(2) [rule_format, of 4 "[2, 3, 4, 5]"] s(3-5) by simp
  then show ?thesis using r(1) by blast
qed

text \<open>
  C8: an insertion of a key with enough slots always succeeds, reports how many leading units were cached already, and makes cached exactly the page-aligned prefixes of the key on top of what was cached before; the units already there keep their old slots and the rest get the given ones. When the new pages belong to the caller, the new state is again a sound one.
\<close>

theorem insert_adds_prefixes:
  assumes "reachable E (H, C, s)" "hash_laws E" "order_laws E" "key_fits s k" "aligned_len s k \<le> length v"
  shows "\<exists>n node s' V. insert_op E s k (Some v) prio chunked = Inr (\<lparr>prefix_len = n, insert_last_node = Some node\<rparr>, s') \<and>
    n \<le> aligned_len s k \<and> length V = aligned_len s k \<and>
    cached s (namespace k) (take n (lookup_units s k)) (take n V) \<and> drop n V = drop n (take (aligned_len s k) v) \<and>
    (\<forall>ns us vs. cached s' ns us vs \<longleftrightarrow> cached s ns us vs \<or>
       ns = namespace k \<and> (\<exists>j \<le> aligned_len s k. cache_page_size s dvd j \<and> us = take j (lookup_units s k) \<and> vs = take j V)) \<and>
    evictable_size s' = evictable_size s + int (aligned_len s k - n) \<and> protected_size s' = protected_size s \<and>
    (owned s (drop n (take (aligned_len s k) v)) \<longrightarrow> reachable E (H, C, s'))"
proof -
  have so: "sound (H, C, s)" using assms(1-3) reach_sound by blast
  let ?al = "aligned_len s k"
  obtain n node s' V where i: "insert_op E s k (Some v) prio chunked = Inr (\<lparr>prefix_len = n, insert_last_node = Some node\<rparr>, s')"
    "inserted H s s' (namespace k) (take ?al (lookup_units s k)) (take ?al v) n V node"
    "n \<le> ?al" "length V = ?al" "drop n V = drop n (take ?al v)" "cached s (namespace k) (take n (lookup_units s k)) (take n V)"
    by (rule insert_content [OF so assms(2,4,5), of prio chunked]) blast
  have le: "?al \<le> length (lookup_units s k)" by (simp add: aligned_len_def)
  have "cached s' ns us vs \<longleftrightarrow> cached s ns us vs \<or>
      ns = namespace k \<and> (\<exists>j \<le> ?al. cache_page_size s dvd j \<and> us = take j (lookup_units s k) \<and> vs = take j V)" for ns us vs
    by (rule inserted_cached [OF i(2) le])
  moreover have "evictable_size s' = evictable_size s + int (?al - n)" "protected_size s' = protected_size s"
    using i(2) le unfolding inserted_def by (simp_all add: min_absorb2)
  moreover have "reachable E (H, C, s')" if "owned s (drop n (take ?al v))"
    using reach_step [OF assms(1) step_insert [OF assms(4,5) i(1)]] that by simp
  ultimately show ?thesis using i(1,3-6) by blast
qed

theorem insert_adds_prefixes_witness:
  "\<exists>s n node s' V. insert_op demo_env s demo_key (Some [2, 3, 4, 5]) None False = Inr (\<lparr>prefix_len = n, insert_last_node = Some node\<rparr>, s') \<and>
     n \<le> 4 \<and> length V = 4 \<and> drop n V = drop n (take 4 [2, 3, 4, 5 :: int])"
proof -
  obtain s where s: "reachable demo_env (\<lambda>_. 0, {#}, s)" "key_fits s demo_key" "cache_page_size s = 2"
    "lookup_units s demo_key = [(7, None), (8, None), (9, None), (10, None)]"
    by (rule demo_reachable) blast
  have al: "aligned_len s demo_key = 4" by (simp add: aligned_len_def s)
  then have "aligned_len s demo_key \<le> length ([2, 3, 4, 5] :: int list)" by simp
  from insert_adds_prefixes [OF s(1) conjunct1 [OF demo_laws] conjunct2 [OF demo_laws] s(2) this, of None False]
  show ?thesis unfolding al by blast
qed

text \<open>
  C21: looking a key up right after inserting it finds all of its whole pages: the slots returned are the given ones past the part that was cached before the insertion.
\<close>

theorem insert_then_match:
  assumes "reachable E (H, C, s)" "hash_laws E" "order_laws E" "key_fits s k" "aligned_len s k \<le> length v"
    and "insert_op E s k (Some v) prio chunked = Inr (r, s')" "owned s (drop (prefix_len r) (take (aligned_len s k) v))"
  shows "\<exists>m s''. match_prefix E s' k = Inr (m, s'') \<and> length (device_indices m) = aligned_len s k \<and>
    drop (prefix_len r) (device_indices m) = drop (prefix_len r) (take (aligned_len s k) v)"
proof -
  have so: "sound (H, C, s)" using assms(1-3) reach_sound by blast
  let ?al = "aligned_len s k" and ?us = "lookup_units s k"
  obtain n node s0 V where i: "insert_op E s k (Some v) prio chunked = Inr (\<lparr>prefix_len = n, insert_last_node = Some node\<rparr>, s0)"
    "inserted H s s0 (namespace k) (take ?al ?us) (take ?al v) n V node"
    "length V = ?al" "drop n V = drop n (take ?al v)" "cached s0 (namespace k) (take ?al ?us) V"
    by (rule insert_content [OF so assms(2,4,5), of prio chunked]) blast
  have r: "prefix_len r = n" "s0 = s'" using i(1) assms(6) by auto
  have so': "sound (H, C, s')" using sound_inserted [OF so i(2)] assms(7) r by simp
  have S: "is_eagle s' = is_eagle s" "cache_page_size s' = cache_page_size s" using i(2) r(2) by (simp_all add: inserted_def same_setup_def)
  have u: "lookup_units s' k = ?us" "key_fits s' k" using S assms(4) by (simp_all add: lookup_units_def key_fits_def)
  obtain m s'' where m: "match_prefix E s' k = Inr (m, s'')" "length (device_indices m) \<le> length ?us"
    "cached s' (namespace k) (take (length (device_indices m)) ?us) (device_indices m)"
    "\<And>j vs. j \<le> length ?us \<Longrightarrow> cached s' (namespace k) (take j ?us) vs \<Longrightarrow> j \<le> length (device_indices m)"
    by (rule match_content [OF so' u(2), of E]) (unfold u, blast)
  have al: "?al \<le> length ?us" by (simp add: aligned_len_def)
  have "?al \<le> length (device_indices m)" using m(4) [OF al] i(5) r(2) by blast
  moreover have "length (device_indices m) \<le> ?al"
  proof -
    have "cache_page_size s dvd length (device_indices m)" using cached_facts(1) [OF so' m(3)] m(2) S(2) by simp
    then obtain q where q: "length (device_indices m) = q * cache_page_size s" by (metis dvd_mult_div_cancel mult.commute)
    then show ?thesis
      using m(2) cache_okD(6) [OF soundD(1) [OF so]] div_le_mono [of "q * cache_page_size s" "length ?us" "cache_page_size s"]
      by (simp add: aligned_len_def)
  qed
  ultimately have eq: "length (device_indices m) = ?al" by simp
  then have "device_indices m = V" using cached_facts(2) [OF so'] m(3) i(5) r(2) by metis
  then show ?thesis using m(1) eq i(4) r(1) by blast
qed

theorem insert_then_match_witness:
  "\<exists>s s' r m s''. insert_op demo_env s demo_key (Some [2, 3, 4, 5]) None False = Inr (r, s') \<and>
     match_prefix demo_env s' demo_key = Inr (m, s'') \<and> length (device_indices m) = 4"
proof -
  obtain s where s: "reachable demo_env (\<lambda>_. 0, {#}, s)" "key_fits s demo_key" "cache_page_size s = 2" "namespace demo_key = (None, None)"
    "lookup_units s demo_key = [(7, None), (8, None), (9, None), (10, None)]"
    "cached s (None, None) [(7, None), (8, None), (9, None), (10, None)] [2, 3, 4, 5]"
    by (rule demo_reachable) blast
  have al: "aligned_len s demo_key = 4" by (simp add: aligned_len_def s)
  then have le: "aligned_len s demo_key \<le> length ([2, 3, 4, 5] :: int list)" by simp
  note so = reach_sound [OF s(1) demo_laws]
  obtain n node s' where i: "insert_op demo_env s demo_key (Some [2, 3, 4, 5]) None False = Inr (\<lparr>prefix_len = n, insert_last_node = Some node\<rparr>, s')"
    and n: "\<And>j vs. j \<le> length (lookup_units s demo_key) \<Longrightarrow> cached s (namespace demo_key) (take j (lookup_units s demo_key)) vs \<Longrightarrow> j \<le> n"
    by (rule insert_content [OF so conjunct1 [OF demo_laws] s(2) le, of None False]) blast
  have "4 \<le> n" using n [of 4 "[2, 3, 4, 5]"] s(4-6) by simp
  then have "owned s (drop n (take 4 [2, 3, 4, 5]))" by (simp add: owned_def page_run_def pages_seq_def)
  then show ?thesis
    using insert_then_match [OF s(1) conjunct1 [OF demo_laws] conjunct2 [OF demo_laws] s(2) le i] i al by auto
qed



text \<open>
  C22: the two size counters together count every cached token exactly once, and the evictable one alone is zero exactly when no leaf can be evicted.
\<close>

theorem sizes_count_tree:
  assumes "reachable E (H, C, s)" "hash_laws E" "order_laws E"
  shows "evictable_size s + protected_size s = int (size (tree_pages (cache_page_size s) (shape s)) * cache_page_size s) \<and>
    (evictable_size s = 0 \<longleftrightarrow> evictable_leaves s = {})"
proof -
  have so: "sound (H, C, s)" using assms reach_sound by blast
  note ok = soundD(1) [OF so]
  have "0 < evictable_size s" if x: "x \<in> evictable_leaves s" for x
  proof -
    obtain nd where nd: "nodes s x = Some nd" using leaves_live [OF ok x] by auto
    obtain v pool s1 p pd st ev where v: "val nd = Some v"
      and sh: "shrunk H s (s1\<lparr>nodes := st(x := None), kv_events := ev\<rparr>) (mset (pages_seq (cache_page_size s) v))"
      by (rule evict_step [OF ok soundD(3,4) [OF so] x nd, of E]) blast
    have len: "cache_page_size s dvd length v" "0 < length v"
      by (rule node_facts [OF ok nd leaf_not_root [OF ok x]], use v in simp)+
    then have "0 < length v div cache_page_size s * cache_page_size s" by simp
    then have "0 < int (size (mset (pages_seq (cache_page_size s) v)) * cache_page_size s)" by (simp add: pages_seq_def)
    moreover have "0 \<le> evictable_size (s1\<lparr>nodes := st(x := None), kv_events := ev\<rparr>)"
      using cache_okD(2) [OF shrunkD(1) [OF sh]] by (simp add: books_def size_of_def fsum_def sum_nonneg)
    ultimately show ?thesis using shrunkD(7) [OF sh] by linarith
  qed
  then show ?thesis using tree_tokens [OF ok] no_leaves_no_size [OF ok soundD(7) [OF so]] by fastforce
qed

theorem sizes_count_tree_witness: "\<exists>s :: radix_cache. evictable_size s = 4 \<and> evictable_leaves s \<noteq> {}"
proof -
  obtain s where s: "reachable demo_env (\<lambda>_. 0, {#}, s)" "evictable_size s = 4" by (rule demo_reachable) blast
  have "(evictable_size s = 0) = (evictable_leaves s = {})" using sizes_count_tree [OF s(1)] demo_laws by blast
  then have "evictable_leaves s \<noteq> {}" using s(2) by simp
  then show ?thesis using s(2) by blast
qed

text \<open>
  C31: taking a lock on a node and releasing it succeeds, and afterwards every node, both size counters and the set of evictable leaves are what they were; the two reported changes of the evictable size cancel.
\<close>

theorem lock_unlock_restores:
  assumes "reachable E (H, C, s)" "hash_laws E" "order_laws E" "nodes s n \<noteq> None"
  shows "\<exists>d s1 s2. inc_lock_ref s (Some n) = Inr (d, s1) \<and> dec_lock_ref s1 (Some n) = Inr (- d, s2) \<and>
    nodes s2 = nodes s \<and> evictable_size s2 = evictable_size s \<and> protected_size s2 = protected_size s \<and>
    evictable_leaves s2 = evictable_leaves s \<and> (\<forall>x \<in> path_of s n. \<exists>nd. nodes s1 x = Some nd \<and> 0 < lock_ref nd)"
proof -
  have so: "sound (H, C, s)" using assms(1-3) reach_sound by blast
  let ?H = "H(n := H n + 1)"
  obtain s1 where i: "inc_lock_ref s (Some n) = Inr (evictable_size s1 - evictable_size s, s1)" "cache_ok ?H s1" "relocked s s1 (path_of s n) 1"
    by (rule inc_lock_ref_facts [OF soundD(1,5) [OF so] assms(4)])
  have so1: "sound (?H, C, s1)" by (rule sound_step [OF step_inc [OF assms(4) i(1)] so assms(2,3)])
  have R: "same_setup s s1" "nodes s1 x = map_option (\<lambda>nd. nd\<lparr>lock_ref := lock_ref nd + (if x \<in> path_of s n then 1 else 0)\<rparr>) (nodes s x)" for x
    using i(3) unfolding relocked_def by blast+
  have n1: "nodes s1 n \<noteq> None" using assms(4) R(2) by simp
  have "1 \<le> ?H n" using soundD(2) [OF so, of n] by simp
  then obtain s2 where d: "dec_lock_ref s1 (Some n) = Inr (evictable_size s2 - evictable_size s1, s2)" "cache_ok (?H(n := ?H n - 1)) s2"
      "relocked s1 s2 (path_of s1 n) (- 1)"
    using dec_lock_ref_facts [OF soundD(1,7,5) [OF so1] n1] by blast
  have p: "path_of s1 n = path_of s n" using relocked_up [OF i(3)] relocked_root [OF i(3)] by (simp add: path_of_def)
  have R2: "same_setup s1 s2" "nodes s2 x = map_option (\<lambda>nd. nd\<lparr>lock_ref := lock_ref nd + (if x \<in> path_of s n then - 1 else 0)\<rparr>) (nodes s1 x)" for x
    using d(3) unfolding relocked_def p by blast+
  have same: "nodes s2 = nodes s"
  proof
    fix x show "nodes s2 x = nodes s x" unfolding R2(2) R(2) by (cases "nodes s x") simp_all
  qed
  have "?H(n := ?H n - 1) = H" by auto
  then have ok2: "cache_ok H s2" using d(2) by simp
  have r2: "root_node s2 = root_node s" using same_setupD(6) [OF R(1)] same_setupD(6) [OF R2(1)] by simp
  have "evictable_size s2 = evictable_size s" "protected_size s2 = protected_size s" "evictable_leaves s2 = evictable_leaves s"
    using cache_okD(2) [OF ok2] cache_okD(2) [OF soundD(1) [OF so]] unfolding same r2 books_def by simp_all
  moreover have "\<exists>nd. nodes s1 x = Some nd \<and> 0 < lock_ref nd" if x: "x \<in> path_of s n" for x
  proof -
    from x obtain l where l: "up (root_node s) (shape s) n l" "x \<in> set l" unfolding path_of_def by blast
    obtain nd where nd: "nodes s x = Some nd" "x \<noteq> root_node s"
      using up_distinct(2) [OF cache_okD(1) [OF soundD(1) [OF so]] l(1)] l(2) by (auto simp: dom_def)
    then show ?thesis using R(2) [of x] x cache_ok_lock [OF soundD(1) [OF so] nd] by simp
  qed
  ultimately show ?thesis using i(1) d(1) same by (intro exI [of _ "evictable_size s1 - evictable_size s"] exI [of _ s1] exI [of _ s2]) auto
qed

theorem lock_unlock_restores_witness:
  "\<exists>s d s1 s2. inc_lock_ref s (Some (root_node s)) = Inr (d, s1) \<and> dec_lock_ref s1 (Some (root_node s)) = Inr (- d, s2) \<and> nodes s2 = nodes s \<and> evictable_size s2 = 4"
proof -
  obtain s where s: "reachable demo_env (\<lambda>_. 0, {#}, s)" "evictable_size s = 4" by (rule demo_reachable) blast
  have "nodes s (root_node s) \<noteq> None" by (rule root_live [OF soundD(1) [OF reach_sound [OF s(1) demo_laws]]])
  then show ?thesis using lock_unlock_restores [OF s(1) conjunct1 [OF demo_laws] conjunct2 [OF demo_laws]] s(2) by metis
qed

text \<open>
  C3: a prefix on which a handle is held survives every eviction, whatever the amount asked for: its node is still there and its slots are still cached for it.
\<close>

theorem locked_prefix_survives_eviction:
  assumes "reachable E (H, C, s)" "hash_laws E" "order_laws E" "nodes s n \<noteq> None" "1 \<le> H n"
    and "walk ns (shape s) (root_node s) n us vs" "evict E s num = Inr (k, s')"
  shows "nodes s' n \<noteq> None \<and> walk ns (shape s') (root_node s') n us vs \<and> cached s' ns us vs"
proof -
  have so: "sound (H, C, s)" using assms(1-3) reach_sound by blast
  obtain P where sh: "shrunk H s s' P" using evict_sound_facts [OF so assms(3), of num] assms(7) by (metis Pair_inject sum.inject(2))
  obtain nd where nd: "nodes s n = Some nd" using assms(4) by blast
  have n': "n \<in> dom (nodes s')" by (rule shrunkD(13) [OF sh nd handle_locks [OF so nd assms(5)]])
  note S = same_setupD [OF shrunkD(4) [OF sh]]
  have "walk ns (shape s') (root_node s') n us vs" unfolding S by (rule shrunkD(15) [OF sh n' assms(6)])
  then show ?thesis using n' walk_below_self unfolding cached_def by blast
qed

theorem locked_prefix_survives_eviction_witness:
  "\<exists>s k s'. evict demo_env s 100 = Inr (k, s') \<and> cached s' (None, None) [(7, None), (8, None), (9, None), (10, None)] [2, 3, 4, 5]"
proof -
  let ?us = "[(7, None), (8, None), (9, None), (10, None)] :: key_unit list"
  obtain s where s: "reachable demo_env (\<lambda>_. 0, {#}, s)" "key_fits s demo_key" "namespace demo_key = (None, None)"
    "lookup_units s demo_key = ?us" "cached s (None, None) ?us [2, 3, 4, 5]"
    by (rule demo_reachable) blast
  note so = reach_sound [OF s(1) demo_laws] and L = conjunct1 [OF demo_laws] conjunct2 [OF demo_laws]
  obtain r s1 where m: "match_prefix demo_env s demo_key = Inr (r, s1)" "reshaped (\<lambda>_. 0) s s1"
    "length (device_indices r) \<le> length ?us" "cached s (None, None) (take (length (device_indices r)) ?us) (device_indices r)"
    "\<And>j vs. j \<le> length ?us \<Longrightarrow> cached s (None, None) (take j ?us) vs \<Longrightarrow> j \<le> length (device_indices r)"
    "walk (None, None) (shape s1) (root_node s) (last_device_node r) (take (length (device_indices r)) ?us) (device_indices r)"
    "nodes s1 (last_device_node r) \<noteq> None"
    by (rule match_content [OF so s(2), of demo_env]) (unfold s(3,4), blast)
  have len: "length (device_indices r) = 4" using m(3) m(5) [of 4 "[2, 3, 4, 5]"] s(5) by simp
  then have d: "device_indices r = [2, 3, 4, 5]" using cached_facts(2) [OF so s(5)] m(4) by simp
  let ?n = "last_device_node r" and ?H = "(\<lambda>_. 0 :: int)(last_device_node r := (\<lambda>_. 0) (last_device_node r) + 1)"
  have r1: "reachable demo_env (\<lambda>_. 0, {#}, s1)" by (rule reach_step [OF s(1) step_match [OF s(2) m(1)]])
  note so1 = reach_sound [OF r1 demo_laws]
  obtain s2 where i: "inc_lock_ref s1 (Some ?n) = Inr (evictable_size s2 - evictable_size s1, s2)" "relocked s1 s2 (path_of s1 ?n) 1"
    by (rule inc_lock_ref_facts [OF soundD(1,5) [OF so1] m(7)]) blast
  have r2: "reachable demo_env (?H, {#}, s2)" by (rule reach_step [OF r1 step_inc [OF m(7) i(1)]])
  have R: "unlock (shape s2) = unlock (shape s1)" "root_node s2 = root_node s" "nodes s2 ?n \<noteq> None"
    using i(2) same_setupD(6) [OF reshapedD(2) [OF m(2)]] m(7) unfolding relocked_def same_setup_def by simp_all
  have "walk (None, None) (unlock (shape s1)) (root_node s) ?n ?us [2, 3, 4, 5]"
    unfolding walk_unlock using m(6) unfolding d len by simp
  then have w: "walk (None, None) (shape s2) (root_node s2) ?n ?us [2, 3, 4, 5]" unfolding R(1) [symmetric] R(2) walk_unlock .
  obtain k s3 where e: "evict demo_env s2 100 = Inr (k, s3)"
    by (rule evict_sound_facts [OF reach_sound [OF r2 demo_laws] L(2), of 100]) blast
  have "cached s3 (None, None) ?us [2, 3, 4, 5]"
    using locked_prefix_survives_eviction [OF r2 L R(3) _ w e] by simp
  then show ?thesis using e by blast
qed

text \<open>
  C20: an eviction always ends with a result; it frees at least the requested number of tokens, or everything that is not locked. The number it reports is what the evictable size went down by, the protected part is untouched, and nothing becomes cached that was not.
\<close>

theorem evict_frees_enough:
  assumes "reachable E (H, C, s)" "hash_laws E" "order_laws E"
  shows "\<exists>k s'. evict E s num = Inr (k, s') \<and> reachable E (H, C, s') \<and> (num \<le> k \<or> evictable_size s' = 0) \<and>
    evictable_size s = evictable_size s' + int k \<and> protected_size s' = protected_size s \<and>
    (\<forall>ns us vs. cached s' ns us vs \<longrightarrow> cached s ns us vs)"
proof -
  have so: "sound (H, C, s)" using assms reach_sound by blast
  obtain s' P where e: "evict E s num = Inr (size P * cache_page_size s, s')" "shrunk H s s' P"
    "num \<le> size P * cache_page_size s \<or> evictable_size s' = 0"
    by (rule evict_sound_facts [OF so assms(3), of num]) blast
  have "reachable E (H, C, s')" by (rule reach_step [OF assms(1) step_evict [OF e(1)]])
  then show ?thesis using e shrunkD(6,7,16) [OF e(2)] by blast
qed

theorem evict_frees_enough_witness:
  "\<exists>s k s'. evict demo_env s 3 = Inr (k, s') \<and> evictable_size s = 4 \<and> 3 \<le> k"
proof -
  obtain s where s: "reachable demo_env (\<lambda>_. 0, {#}, s)" "evictable_size s = 4" by (rule demo_reachable) blast
  obtain k s' where e: "evict demo_env s 3 = Inr (k, s')" "3 \<le> k \<or> evictable_size s' = 0" "evictable_size s = evictable_size s' + int k"
    using evict_frees_enough [OF s(1) conjunct1 [OF demo_laws] conjunct2 [OF demo_laws], of 3] by blast
  then have "3 \<le> k" using s(2) by auto
  then show ?thesis using e(1) s(2) by blast
qed



text \<open>
  C23: eviction moves pages from the tree to the pool and loses none: the pages freed are exactly those that left the tree, they were not free before, and their number times the page size is the number of tokens reported.
\<close>

theorem evict_returns_pages:
  assumes "reachable E (H, C, s)" "hash_laws E" "order_laws E" "evict E s num = Inr (k, s')"
  shows "\<exists>P. tree_pages (cache_page_size s) (shape s) = P + tree_pages (cache_page_size s) (shape s') \<and> k = size P * cache_page_size s \<and>
    set_mset P \<inter> kv_avail (kv_pool s) = {} \<and> kv_avail (kv_pool s') = kv_avail (kv_pool s) \<union> set_mset P"
proof -
  have so: "sound (H, C, s)" using assms(1-3) reach_sound by blast
  obtain s0 P where e: "evict E s num = Inr (size P * cache_page_size s, s0)" "shrunk H s s0 P"
    by (rule evict_sound_facts [OF so assms(3), of num]) blast
  have eq: "s0 = s'" "k = size P * cache_page_size s" using e(1) assms(4) by simp_all
  note R = shrunkD [OF e(2), unfolded eq(1)]
  have "set_mset P \<inter> kv_avail (kv_pool s) = {}" using pool_okD(5) [OF soundD(3) [OF so]] unfolding R(8) by auto
  then show ?thesis using R(8,9) eq(2) by blast
qed

theorem evict_returns_pages_witness:
  "\<exists>s k s' P. evict demo_env s 4 = Inr (k, s') \<and> {#1, 2#} = P + tree_pages 2 (shape s') \<and> k = size P * 2"
proof -
  obtain s where s: "reachable demo_env (\<lambda>_. 0, {#}, s)" "cache_page_size s = 2" "tree_pages 2 (shape s) = {#1, 2#}"
    by (rule demo_reachable) blast
  have "sound (\<lambda>_. 0, {#}, s)" by (rule reach_sound [OF s(1) demo_laws])
  then obtain s' P where "evict demo_env s 4 = Inr (size (P :: int multiset) * cache_page_size s, s')"
    by (rule evict_sound_facts [OF _ conjunct2 [OF demo_laws], of _ _ _ 4]) blast
  then show ?thesis
    using evict_returns_pages [OF s(1) conjunct1 [OF demo_laws] conjunct2 [OF demo_laws]] unfolding s(2) s(3) [symmetric] by blast
qed

text \<open>
  C15: with events enabled, a consumer that replays the announced events holds exactly the blocks of the tree: what it has read plus what is still queued is the multiset of block hashes of the cached pages.
\<close>

theorem events_mirror_tree:
  assumes "reachable E (H, C, s)" "hash_laws E" "order_laws E" "enabled (kv_events s)"
  shows "replay (queue (kv_events s)) C = live_blocks s \<and>
    (let (evs, r) = take_events (kv_events s) in queue r = [] \<and> replay evs C = live_blocks s)"
  using soundD(6) [OF reach_sound [OF assms(1)]] assms(2-4) by (simp add: in_sync_def take_events_def)

theorem events_mirror_tree_witness: "\<exists>s. replay (queue (kv_events s)) {#} = live_blocks s \<and> evictable_size s = 4"
proof -
  obtain s where s: "reachable demo_env (\<lambda>_. 0, {#}, s)" "enabled (kv_events s)" "evictable_size s = 4" by (rule demo_reachable) blast
  then show ?thesis using events_mirror_tree [OF s(1) conjunct1 [OF demo_laws] conjunct2 [OF demo_laws] s(2)] by blast
qed

text \<open>
  C37: a block hash announced in an event fits a signed 64-bit integer: whatever the hash string, the conversion gives a number in the range of int64 that is congruent to the first sixteen hexadecimal digits modulo 2^64.
\<close>

theorem hash_int64_range:
  assumes "hash_str_to_int64 h = Inr i"
  shows "- (2 ^ 63) \<le> i \<and> i < 2 ^ 63 \<and> (\<exists>u. hex_value 0 (take 16 h) = Some u \<and> i mod 2 ^ 64 = u)"
proof -
  from assms obtain u where u: "hex_value 0 (take 16 h) = Some u" "i = (if u \<ge> 2 ^ 63 then u - 2 ^ 64 else u)"
    by (auto simp: hash_str_to_int64_def py_int16_def rbind_eq_Inr of_option_def split: if_splits option.splits)
  have r: "0 \<le> u" "u < 16 ^ length (take 16 h)" using hex_value_range [OF u(1)] by simp_all
  have "(16 :: int) ^ length (take 16 h) \<le> 16 ^ 16" by (intro power_increasing) simp_all
  then have "u < 2 ^ 64" using r(2) by simp
  moreover have "i mod 2 ^ 64 = u"
  proof (cases "u \<ge> 2 ^ 63")
    case True
    then have "i = u - 2 ^ 64" using u(2) by simp
    then have "i mod 2 ^ 64 = u mod 2 ^ 64" by (metis mod_diff_right_eq mod_self diff_zero)
    then show ?thesis using r(1) \<open>u < 2 ^ 64\<close> by simp
  qed (use u(2) r(1) \<open>u < 2 ^ 64\<close> in simp)
  ultimately show ?thesis using u r(1) by auto
qed

theorem hash_int64_range_witness: "\<exists>i. hash_str_to_int64 ''fedcba9876543210ff'' = Inr i \<and> i mod 2 ^ 64 = 0xfedcba9876543210"
proof -
  have "hash_str_to_int64 ''fedcba9876543210ff'' = Inr (0xfedcba9876543210 - 2 ^ 64)" by code_simp
  moreover have "hex_value 0 (take 16 ''fedcba9876543210ff'') = Some 0xfedcba9876543210" by code_simp
  ultimately show ?thesis using hash_int64_range by fastforce
qed


end
