(* ===== verification/RadixRequest.thy ===== *)
theory RadixRequest
  imports RadixProps
begin

text \<open>
  The life of a request in the radix cache: \<open>cache_unfinished_req\<close> hands the computed slots of a
  request to the tree and \<open>cache_finished_req\<close> ends its use of the cache. Both compose an
  insertion, a release of slots, a lookup and changes of the locks. What a running request holds
  is stated once; the first operation keeps it and the second returns every page of it.
\<close>

section \<open>What a request holds\<close>

definition kv_key :: "radix_cache \<Rightarrow> kv_req \<Rightarrow> int list \<Rightarrow> radix_key" where
  "kv_key s req ids =
     page_aligned (new_radix_key ids (req_extra_key req) (is_eagle s) None (req_cache_salt req)) (cache_page_size s)"

definition row_page :: "nat \<Rightarrow> int list \<Rightarrow> nat \<Rightarrow> int" where
  "row_page ps row q = row ! (q * ps) div int ps"

text \<open>The pages of a row of \<open>m\<close> slots that the request owns alone, behind the \<open>p\<close> slots of the tree.\<close>

definition private_pages :: "nat \<Rightarrow> int list \<Rightarrow> nat \<Rightarrow> nat \<Rightarrow> int set" where
  "private_pages ps row p m = row_page ps row ` {p div ps..<ceil_div m ps}"

definition private_row :: "radix_cache \<Rightarrow> int list \<Rightarrow> nat \<Rightarrow> nat \<Rightarrow> bool" where
  "private_row s row p m \<longleftrightarrow>
     m \<le> length row \<and> cache_page_size s dvd p \<and> p \<le> m \<and>
     paged_row (cache_page_size s) (row_page (cache_page_size s) row) p (drop p (take m row)) \<and>
     inj_on (row_page (cache_page_size s) row) {p div cache_page_size s..<ceil_div m (cache_page_size s)} \<and>
     private_pages (cache_page_size s) row p m \<inter> kv_avail (kv_pool s) = {} \<and>
     private_pages (cache_page_size s) row p m \<inter> set_mset (tree_pages (cache_page_size s) (shape s)) = {} \<and>
     private_pages (cache_page_size s) row p m \<subseteq> kv_capacity (kv_pool s)"

definition request_ok :: "(nat \<Rightarrow> int) \<Rightarrow> radix_cache \<Rightarrow> kv_req \<Rightarrow> int list \<Rightarrow> int list \<Rightarrow> bool" where
  "request_ok H s req ids row \<longleftrightarrow>
     py_nth (req_to_token s) (req_pool_idx req) = Inr row \<and>
     (\<exists>n. last_node req = Some n \<and> 1 \<le> H n) \<and>
     cached s (namespace (kv_key s req ids)) (take (cache_protected_len req) (lookup_units s (kv_key s req ids)))
       (take (cache_protected_len req) row) \<and>
     private_row s row (cache_protected_len req) (length ids)"

section \<open>Rows\<close>

lemma row_run:
  assumes ps: "0 < ps" and row: "paged_row ps T st v" and dv: "ps dvd st" "ps dvd length v"
  shows "pages_seq ps v = map T [st div ps..<(st + length v) div ps]" "page_run ps v"
proof -
  obtain a b where ab: "st = a * ps" "length v = b * ps" using dv by (metis dvd_def mult.commute)
  show seq: "pages_seq ps v = map T [st div ps..<(st + length v) div ps]"
  proof (rule nth_equalityI)
    fix j assume "j < length (pages_seq ps v)"
    then have j: "j < b" using ps by (simp add: pages_seq_def ab)
    then have "j * ps < length v" using ps by (simp add: ab)
    from paged_row_page [OF ps row this] show "pages_seq ps v ! j = map T [st div ps..<(st + length v) div ps] ! j"
      using j ps by (simp add: pages_seq_def ab add_mult_distrib [symmetric])
  qed (use ps in \<open>simp add: pages_seq_def ab add_mult_distrib [symmetric]\<close>)
  have l: "length (concat (map (page_slots ps) (pages_seq ps v))) = length v"
    using ps unfolding seq ab add_mult_distrib [symmetric] by (simp add: length_concat page_slots_def comp_def sum_list_triv)
  show "page_run ps v"
    unfolding page_run_def
  proof (rule nth_equalityI)
    fix i assume i: "i < length v"
    then have ib: "i div ps < b" by (simp add: ab less_mult_imp_div_less)
    have "i < length (pages_seq ps v) * ps" using i ps by (simp add: pages_seq_def ab)
    from nth_page_slots [OF ps this] have "concat (map (page_slots ps) (pages_seq ps v)) ! i = T (a + i div ps) * int ps + int (i mod ps)"
      using ib ps unfolding seq ab add_mult_distrib [symmetric] by simp
    moreover have "v ! i = T (a + i div ps) * int ps + int (i mod ps)"
      using row i ps unfolding paged_row_def ab by (simp add: mult.commute)
    ultimately show "v ! i = concat (map (page_slots ps) (pages_seq ps v)) ! i" by simp
  qed (rule l [symmetric])
qed

lemma row_part:
  assumes "paged_row ps T p (drop p (take m row))" "p \<le> st" "e \<le> m"
  shows "paged_row ps T st (drop st (take e row))"
proof -
  have "drop (st - p) (take (e - p) (drop p (take m row))) = drop st (take e row)"
    using assms(2,3) by (simp add: drop_take min_absorb1)
  then show ?thesis using paged_row_drop [OF paged_row_take [OF assms(1), of "e - p"], of "st - p"] assms(2) by simp
qed

lemma kv_key_facts:
  assumes ps: "0 < cache_page_size s"
  shows "key_fits s (kv_key s req ids)" "length (lookup_units s (kv_key s req ids)) = key_len (kv_key s req ids)"
    "aligned_len s (kv_key s req ids) = key_len (kv_key s req ids)" "key_len (kv_key s req ids) \<le> length ids"
    "cache_page_size s dvd key_len (kv_key s req ids)"
proof -
  let ?k = "new_radix_key ids (req_extra_key req) (is_eagle s) None (req_cache_salt req)"
  have k: "key_ok ?k" "is_bigram ?k = is_eagle s" by (auto simp: key_ok_def new_radix_key_def split: option.splits)
  show "key_fits s (kv_key s req ids)" using k by (simp add: key_fits_def kv_key_def)
  show l: "length (lookup_units s (kv_key s req ids)) = key_len (kv_key s req ids)"
    using key_iter_units [of "kv_key s req ids"] length_key_iter [of "kv_key s req ids"] k(2)
    by (simp add: lookup_units_def kv_key_def del: length_key_iter)
  show "cache_page_size s dvd key_len (kv_key s req ids)" by (simp add: kv_key_def)
  then show "aligned_len s (kv_key s req ids) = key_len (kv_key s req ids)" by (simp add: aligned_len_def l)
  have "key_len ?k \<le> length ids" by (simp add: key_len_def raw_len_def new_radix_key_def Let_def)
  moreover have "key_len ?k div cache_page_size s * cache_page_size s \<le> key_len ?k" by simp
  ultimately show "key_len (kv_key s req ids) \<le> length ids" unfolding kv_key_def key_len_page_aligned by linarith
qed

lemma ceil_div_mono: "m \<le> n \<Longrightarrow> ceil_div m k \<le> ceil_div n k"
  unfolding ceil_div_def by (intro div_le_mono) simp

lemma part_page_nos:
  assumes "0 < ps" "ps dvd a" "a \<le> b" "b \<le> length row"
  shows "seg_page_nos ps (drop a (take b row)) a = {a div ps..<ceil_div b ps}"
proof (cases "a = b")
  case True
  then show ?thesis using assms ceil_div_dvd [of ps a] by simp
next
  case False
  then show ?thesis using seg_page_nos_range [OF assms(1), of "drop a (take b row)" a] assms by simp
qed

lemma private_mono:
  assumes "0 < ps" "p \<le> a" "b \<le> m"
  shows "private_pages ps row a b \<subseteq> private_pages ps row p m"
proof -
  have "p div ps \<le> a div ps" "ceil_div b ps \<le> ceil_div m ps" using assms by (simp_all add: div_le_mono ceil_div_mono)
  then show ?thesis unfolding private_pages_def by (intro image_mono) auto
qed

lemma private_split:
  assumes "0 < ps" "p \<le> n" "n \<le> m" "ps dvd n"
  shows "private_pages ps row p m = private_pages ps row p n \<union> private_pages ps row n m"
proof -
  have "p div ps \<le> n div ps" "n div ps \<le> ceil_div m ps" "ceil_div n ps = n div ps"
    using assms ceil_div_mono [of n m ps] ceil_div_dvd [of ps n] by (simp_all add: div_le_mono)
  then show ?thesis unfolding private_pages_def image_Un [symmetric] by (simp add: ivl_disj_un)
qed

lemma private_disjoint:
  assumes "0 < ps" "inj_on (row_page ps row) {p div ps..<ceil_div m ps}" "p \<le> a" "b \<le> c" "d \<le> m" "b \<le> m" "p \<le> c" "ps dvd b"
  shows "private_pages ps row a b \<inter> private_pages ps row c d = {}"
proof -
  have "p div ps \<le> a div ps" "b div ps \<le> c div ps" "ceil_div d ps \<le> ceil_div m ps" "ceil_div b ps \<le> ceil_div m ps" "p div ps \<le> c div ps"
    "ceil_div b ps = b div ps"
    using assms ceil_div_dvd [of ps b] ceil_div_mono [of b m ps] ceil_div_mono [of d m ps] by (simp_all add: div_le_mono)
  then have "{a div ps..<ceil_div b ps} \<subseteq> {p div ps..<ceil_div m ps}" "{c div ps..<ceil_div d ps} \<subseteq> {p div ps..<ceil_div m ps}"
    "{a div ps..<ceil_div b ps} \<inter> {c div ps..<ceil_div d ps} = {}" by auto
  from inj_on_image_Int [OF assms(2) this(1,2)] this(3) show ?thesis unfolding private_pages_def by (metis image_empty)
qed

lemma private_part:
  assumes ps: "0 < cache_page_size s" and row: "private_row s row p m"
    and ab: "p \<le> a" "a \<le> b" "b \<le> m" "cache_page_size s dvd a" "cache_page_size s dvd b"
  shows "owned s (drop a (take b row))"
    "set (pages_seq (cache_page_size s) (drop a (take b row))) = private_pages (cache_page_size s) row a b"
proof -
  let ?ps = "cache_page_size s" and ?T = "row_page (cache_page_size s) row" and ?v = "drop a (take b row)"
  have R: "m \<le> length row" "paged_row ?ps ?T p (drop p (take m row))" "inj_on ?T {p div ?ps..<ceil_div m ?ps}"
    "private_pages ?ps row p m \<inter> kv_avail (kv_pool s) = {}"
    "private_pages ?ps row p m \<inter> set_mset (tree_pages ?ps (shape s)) = {}"
    "private_pages ?ps row p m \<subseteq> kv_capacity (kv_pool s)"
    using row unfolding private_row_def by blast+
  have l: "a + length ?v = b" "?ps dvd length ?v" using ab R(1) by (simp_all add: dvd_diff_nat)
  note run = row_run [OF ps row_part [OF R(2) ab(1,3)] ab(4) l(2), unfolded l(1)]
  have c: "ceil_div b ?ps = b div ?ps" using ceil_div_dvd [OF ps ab(5)] .
  show st: "set (pages_seq ?ps ?v) = private_pages ?ps row a b" unfolding run(1) private_pages_def c by simp
  have "b div ?ps \<le> ceil_div m ?ps" "p div ?ps \<le> a div ?ps" using ceil_div_mono [of b m ?ps] ab(1,3) c by (simp_all add: div_le_mono)
  then have "inj_on ?T (set [a div ?ps..<b div ?ps])" by (intro inj_on_subset [OF R(3)]) auto
  then have "distinct (pages_seq ?ps ?v)" unfolding run(1) by (simp add: distinct_map)
  then show "owned s ?v" using run(2) R(4-6) private_mono [OF ps ab(1,3), of row] unfolding owned_def st by blast
qed

lemma free_parts:
  assumes so: "sound (H, C, s)" and row: "private_row s row p m"
    and nk: "p \<le> n" "n \<le> k" "k \<le> m" "cache_page_size s dvd n" "cache_page_size s dvd k"
  obtains al where "kv_free_segments (kv_pool s) [(py_slice (take m row) p n, p), (drop k (take m row), k)] = Inr al"
    "kv_inv al" "kv_capacity al = kv_capacity (kv_pool s)" "kv_page_size al = cache_page_size s"
    "kv_avail al = kv_avail (kv_pool s) \<union> (private_pages (cache_page_size s) row p n \<union> private_pages (cache_page_size s) row k m)"
proof -
  let ?ps = "cache_page_size s" and ?T = "row_page (cache_page_size s) row"
  note ps = cache_okD(6) [OF soundD(1) [OF so]] and P = pool_okD [OF soundD(3) [OF so]]
  have R: "m \<le> length row" "?ps dvd p" "paged_row ?ps ?T p (drop p (take m row))" "inj_on ?T {p div ?ps..<ceil_div m ?ps}"
    "private_pages ?ps row p m \<inter> kv_avail (kv_pool s) = {}" "private_pages ?ps row p m \<subseteq> kv_capacity (kv_pool s)"
    using row unfolding private_row_def by blast+
  have sl: "py_slice (take m row) p n = drop p (take n row)" using nk by (simp add: py_slice_def take_drop min_absorb1)
  let ?segs = "[(drop p (take n row), p), (drop k (take m row), k)]"
  have segs: "row_segments ?ps ?T m ?segs"
    using nk R(1) row_part [OF R(3), of p n] row_part [OF R(3), of k m] by (simp add: row_segments_def)
  have nos0: "segs_page_nos ?ps None ?segs = {p div ?ps..<ceil_div n ?ps} \<union> {k div ?ps..<ceil_div m ?ps}"
    using part_page_nos [OF ps R(2) nk(1)] part_page_nos [OF ps nk(5,3) R(1)] nk R(1) unfolding segs_page_nos_def by auto
  have nos: "?T ` segs_page_nos ?ps None ?segs = private_pages ?ps row p n \<union> private_pages ?ps row k m"
    unfolding nos0 private_pages_def image_Un ..
  have "p div ?ps \<le> k div ?ps" "ceil_div n ?ps \<le> ceil_div m ?ps" using nk by (simp_all add: div_le_mono ceil_div_mono)
  then have inj: "inj_on ?T (segs_page_nos ?ps None ?segs)" unfolding nos0 by (intro inj_on_subset [OF R(4)]) auto
  have sub: "private_pages ?ps row p n \<union> private_pages ?ps row k m \<subseteq> private_pages ?ps row p m"
    using private_mono [OF ps, of p p n m row] private_mono [OF ps, of p k m m row] nk by auto
  have dj: "?T ` segs_page_nos ?ps None ?segs \<inter> kv_avail (kv_pool s) = {}" "?T ` segs_page_nos ?ps None ?segs \<subseteq> kv_capacity (kv_pool s)"
    unfolding nos using R(5,6) sub by blast+
  obtain al where "free_segments_loop ?ps kv_free_segment None ?segs (kv_pool s) = Inr al" "kv_inv al"
    "kv_capacity al = kv_capacity (kv_pool s)" "kv_page_size al = ?ps" "kv_avail al = kv_avail (kv_pool s) \<union> ?T ` segs_page_nos ?ps None ?segs"
    using free_segments_loop_facts [OF P(1) P(2) [symmetric] segs inj _ dj] by auto
  then show ?thesis using that [of al] unfolding kv_free_segments_def P(2) sl nos by blast
qed

lemma free_part:
  assumes so: "sound (H, C, s)" and row: "private_row s row p m" and n: "p \<le> n" "n \<le> m"
  obtains al where "kv_free_segment (kv_pool s) (py_slice (take m row) p n) p = Inr al" "kv_inv al" "kv_capacity al = kv_capacity (kv_pool s)"
    "kv_page_size al = cache_page_size s" "kv_avail al = kv_avail (kv_pool s) \<union> private_pages (cache_page_size s) row p n"
proof -
  let ?ps = "cache_page_size s" and ?T = "row_page (cache_page_size s) row"
  note ps = cache_okD(6) [OF soundD(1) [OF so]] and P = pool_okD [OF soundD(3) [OF so]]
  have R: "m \<le> length row" "?ps dvd p" "paged_row ?ps ?T p (drop p (take m row))" "inj_on ?T {p div ?ps..<ceil_div m ?ps}"
    "private_pages ?ps row p m \<inter> kv_avail (kv_pool s) = {}" "private_pages ?ps row p m \<subseteq> kv_capacity (kv_pool s)"
    using row unfolding private_row_def by blast+
  have sl: "py_slice (take m row) p n = drop p (take n row)" using n by (simp add: py_slice_def take_drop min_absorb1)
  have nos: "seg_page_nos ?ps (drop p (take n row)) p = {p div ?ps..<ceil_div n ?ps}" using part_page_nos [OF ps R(2) n(1)] n(2) R(1) by simp
  have inj: "inj_on ?T {p div ?ps..<ceil_div n ?ps}" using ceil_div_mono [OF n(2), of ?ps] by (intro inj_on_subset [OF R(4)]) auto
  have sub: "private_pages ?ps row p n \<subseteq> private_pages ?ps row p m" by (rule private_mono [OF ps order_refl n(2)])
  show ?thesis
    using kv_free_segment_row [OF P(1) P(2) [symmetric] row_part [OF R(3) order_refl n(2)]] inj R(5,6) sub that
    unfolding sl nos private_pages_def [symmetric] by blast
qed

lemma sound_freed:
  assumes so: "sound (H, C, s)" and al: "kv_inv al" "kv_capacity al = kv_capacity (kv_pool s)" "kv_page_size al = cache_page_size s"
    "kv_avail al = kv_avail (kv_pool s) \<union> X" and X: "X \<inter> set_mset (tree_pages (cache_page_size s) (shape s)) = {}"
  shows "sound (H, C, s\<lparr>kv_pool := al\<rparr>)"
  using sound_pool [OF so al(1,3,2)] pool_okD(5) [OF soundD(3) [OF so]] X unfolding al(4) by blast

section \<open>Locks\<close>

lemma held_live: "sound (H, C, s) \<Longrightarrow> 1 \<le> H n \<Longrightarrow> nodes s n \<noteq> None"
  using lock_invD(2) [OF cache_ok_lock_inv [OF soundD(1)], of H C s n] by (auto simp: shape_of_def)

lemma radix_inc:
  assumes s: "sound (H, C, s)" and n: "nodes s n \<noteq> None"
  obtains s' where "inc_lock_ref s (Some n) = Inr (evictable_size s' - evictable_size s, s')" "sound (H(n := H n + 1), C, s')"
    "relocked s s' (path_of s n) 1" "path_of s' n = path_of s n"
proof -
  obtain s' where f: "inc_lock_ref s (Some n) = Inr (evictable_size s' - evictable_size s, s')" "cache_ok (H(n := H n + 1)) s'"
    "relocked s s' (path_of s n) 1" by (rule inc_lock_ref_facts [OF soundD(1,5) [OF s] n])
  have "0 \<le> (H(n := H n + 1)) m" for m using soundD(2) [OF s, of m] soundD(2) [OF s, of n] by simp
  moreover have "path_of s' n = path_of s n" using relocked_up [OF f(3)] relocked_root [OF f(3)] by (simp add: path_of_def)
  ultimately show ?thesis using that [OF f(1) sound_relocked [OF s f(3,2)] f(3)] by blast
qed

lemma radix_dec:
  assumes s: "sound (H, C, s)" and n: "1 \<le> H n"
  obtains s' where "dec_lock_ref s (Some n) = Inr (evictable_size s' - evictable_size s, s')" "sound (H(n := H n - 1), C, s')"
    "relocked s s' (path_of s n) (- 1)"
proof -
  obtain s' where f: "dec_lock_ref s (Some n) = Inr (evictable_size s' - evictable_size s, s')" "cache_ok (H(n := H n - 1)) s'"
    "relocked s s' (path_of s n) (- 1)" by (rule dec_lock_ref_facts [OF soundD(1,7,5) [OF s] held_live [OF s n] n])
  have "0 \<le> (H(n := H n - 1)) m" for m using soundD(2) [OF s, of m] n by simp
  then show ?thesis using that [OF f(1) sound_relocked [OF s f(3,2)] f(3)] by blast
qed

lemma relocked_content:
  assumes "relocked s s' L d"
  shows "same_setup s s'" "kv_pool s' = kv_pool s" "req_to_token s' = req_to_token s"
    "tree_pages (cache_page_size s) (shape s') = tree_pages (cache_page_size s) (shape s)" "unlock (shape s') = unlock (shape s)"
  using assms unfolding relocked_def by blast+

section \<open>Inserting the slots of a request\<close>

lemma request_insert:
  assumes so: "sound (H, C, s)" and l: "hash_laws E" and r: "request_ok H s req ids row"
  obtains n node s1 V where
    "insert_op E s (kv_key s req ids) (Some (take (key_len (kv_key s req ids)) (take (length ids) row))) prio chunked
       = Inr (\<lparr>prefix_len = n, insert_last_node = Some node\<rparr>, s1)"
    "sound (H, C, s1)" "same_setup s s1" "kv_pool s1 = kv_pool s" "req_to_token s1 = req_to_token s"
    "cache_protected_len req \<le> n" "n \<le> key_len (kv_key s req ids)" "cache_page_size s dvd n"
    "set_mset (tree_pages (cache_page_size s) (shape s1)) = set_mset (tree_pages (cache_page_size s) (shape s)) \<union>
       private_pages (cache_page_size s) row n (key_len (kv_key s req ids))"
    "length V = key_len (kv_key s req ids)" "take (cache_protected_len req) V = take (cache_protected_len req) row"
    "drop n V = drop n (take (key_len (kv_key s req ids)) row)"
    "cached s1 (namespace (kv_key s req ids)) (lookup_units s (kv_key s req ids)) V"
proof -
  let ?k = "kv_key s req ids" and ?ps = "cache_page_size s" and ?p = "cache_protected_len req"
  note ps = cache_okD(6) [OF soundD(1) [OF so]]
  note K = kv_key_facts [OF ps, of req ids]
  have R: "cached s (namespace ?k) (take ?p (lookup_units s ?k)) (take ?p row)" "private_row s row ?p (length ids)"
    using r unfolding request_ok_def by blast+
  have m: "length ids \<le> length row" "?p \<le> length ids" using R(2) unfolding private_row_def by blast+
  let ?v = "take (key_len ?k) (take (length ids) row)"
  have v: "?v = take (key_len ?k) row" "length ?v = key_len ?k" using K(4) m(1) by (simp_all add: min_absorb1)
  obtain n node s1 V where i: "insert_op E s ?k (Some ?v) prio chunked = Inr (\<lparr>prefix_len = n, insert_last_node = Some node\<rparr>, s1)"
    "inserted H s s1 (namespace ?k) (lookup_units s ?k) ?v n V node"
    "n \<le> key_len ?k" "length V = key_len ?k" "drop n V = drop n ?v"
    "cached s (namespace ?k) (take n (lookup_units s ?k)) (take n V)"
    "\<And>j vs. j \<le> key_len ?k \<Longrightarrow> cached s (namespace ?k) (take j (lookup_units s ?k)) vs \<Longrightarrow> j \<le> n"
    "cached s1 (namespace ?k) (lookup_units s ?k) V"
    using insert_content [OF so l K(1), of ?v prio chunked, unfolded K(2,3)] v(2) K(2) by (metis order_refl take_all)
  have pk: "?p \<le> key_len ?k" "?ps dvd ?p" using cached_facts(1) [OF so R(1)] m K(2) by auto
  have pn: "?p \<le> n" by (rule i(7) [OF pk(1) R(1)])
  have nd: "?ps dvd n" using cached_facts(1) [OF so i(6)] i(3) K(2) by simp
  have I: "same_setup s s1" "kv_pool s1 = kv_pool s" "req_to_token s1 = req_to_token s"
    "tree_pages ?ps (shape s1) = mset (pages_seq ?ps (drop n ?v)) + tree_pages ?ps (shape s)"
    using i(2) unfolding inserted_def by blast+
  note part = private_part [OF ps R(2) pn i(3) K(4) nd K(5), unfolded v(1) [symmetric]]
  have "cached s (namespace ?k) (take ?p (lookup_units s ?k)) (take ?p V)"
    using cached_facts(3) [OF so i(6), of ?p] pn pk i(3) K(2) by (simp add: min_absorb1)
  then have "take ?p V = take ?p row" using cached_facts(2) [OF so R(1)] by blast
  moreover have "set_mset (tree_pages ?ps (shape s1)) = set_mset (tree_pages ?ps (shape s)) \<union> private_pages ?ps row n (key_len ?k)"
    using I(4) part(2) by (simp add: Un_commute)
  ultimately show ?thesis
    using that [OF i(1) sound_inserted [OF so i(2) part(1)] I(1-3) pn i(3) nd _ i(4) _ _ i(8)] i(5) v(1) by simp
qed

section \<open>Finishing a request\<close>

lemma same_setup_page_size: "same_setup s s' \<Longrightarrow> cache_page_size s' = cache_page_size s"
  by (rule same_setupD(2))

text \<open>The part of \<open>cache_finished_req\<close> behind the insertion: two segments of the row are freed and the handle is dropped.\<close>

lemma finish_tail:
  assumes so: "sound (H, C, s1)" and row: "private_row s row p m" and same: "same_setup s s1" "kv_pool s1 = kv_pool s"
    and nk: "p \<le> n" "n \<le> k" "k \<le> m" "cache_page_size s dvd n" "cache_page_size s dvd k"
    and tree: "set_mset (tree_pages (cache_page_size s) (shape s1)) = set_mset (tree_pages (cache_page_size s) (shape s)) \<union> T"
    and T: "T \<subseteq> private_pages (cache_page_size s) row n k"
    and H: "1 \<le> H h" and s: "sound (H0, C0, s)"
  obtains al s' where "kv_free_segments (kv_pool s1) [(py_slice (take m row) p n, p), (drop k (take m row), k)] = Inr al"
    "dec_lock_ref (s1\<lparr>kv_pool := al\<rparr>) (Some h) = Inr (evictable_size s' - evictable_size (s1\<lparr>kv_pool := al\<rparr>), s')"
    "sound (H(h := H h - 1), C, s')" "cache_page_size s' = cache_page_size s" "req_to_token s' = req_to_token s1"
    "kv_avail (kv_pool s') = kv_avail (kv_pool s) \<union> (private_pages (cache_page_size s) row p n \<union> private_pages (cache_page_size s) row k m)"
    "tree_pages (cache_page_size s) (shape s') = tree_pages (cache_page_size s) (shape s1)"
proof -
  let ?ps = "cache_page_size s" and ?X = "private_pages (cache_page_size s) row p n \<union> private_pages (cache_page_size s) row k m"
  note S = same_setupD [OF same(1)] and ps = cache_okD(6) [OF soundD(1) [OF s]]
  obtain al where al: "kv_free_segments (kv_pool s) [(py_slice (take m row) p n, p), (drop k (take m row), k)] = Inr al"
    "kv_inv al" "kv_capacity al = kv_capacity (kv_pool s)" "kv_page_size al = ?ps" "kv_avail al = kv_avail (kv_pool s) \<union> ?X"
    by (rule free_parts [OF s row nk])
  have R: "inj_on (row_page ?ps row) {p div ?ps..<ceil_div m ?ps}" "private_pages ?ps row p m \<inter> set_mset (tree_pages ?ps (shape s)) = {}"
    using row unfolding private_row_def by blast+
  have "?X \<inter> private_pages ?ps row n k = {}"
    using private_disjoint [OF ps R(1), of p n n k] private_disjoint [OF ps R(1), of n k k m] nk by auto
  moreover have "?X \<subseteq> private_pages ?ps row p m"
    using private_mono [OF ps, of p p n m row] private_mono [OF ps, of p k m m row] nk by auto
  ultimately have "?X \<inter> set_mset (tree_pages (cache_page_size s1) (shape s1)) = {}" unfolding S tree using R(2) T by blast
  then have so2: "sound (H, C, s1\<lparr>kv_pool := al\<rparr>)" using sound_freed [OF so al(2), of ?X] al same(2) S by simp
  obtain s' where d: "dec_lock_ref (s1\<lparr>kv_pool := al\<rparr>) (Some h) = Inr (evictable_size s' - evictable_size (s1\<lparr>kv_pool := al\<rparr>), s')"
    "sound (H(h := H h - 1), C, s')" "relocked (s1\<lparr>kv_pool := al\<rparr>) s' (path_of (s1\<lparr>kv_pool := al\<rparr>) h) (- 1)"
    by (rule radix_dec [OF so2 H])
  note D = relocked_content [OF d(3)]
  show ?thesis
    by (rule that [OF al(1) [folded same(2)] d(1,2)]) (use D same_setup_page_size [OF D(1)] al(5) S in simp_all)
qed

lemma finished_facts:
  assumes so: "sound (H, C, s)" and l: "hash_laws E" and h: "last_node req = Some h"
    and r: "request_ok H s req (take m (origin_input_ids req @ output_ids req)) row"
  obtains s' where "cache_finished_req E s req ins m = Inr s'" "sound (H(h := H h - 1), C, s')"
    "cache_page_size s' = cache_page_size s" "req_to_token s' = req_to_token s"
    "set_mset (tree_pages (cache_page_size s) (shape s)) \<subseteq> set_mset (tree_pages (cache_page_size s) (shape s'))"
    "kv_avail (kv_pool s') \<union> set_mset (tree_pages (cache_page_size s) (shape s')) =
       kv_avail (kv_pool s) \<union> set_mset (tree_pages (cache_page_size s) (shape s)) \<union>
       private_pages (cache_page_size s) row (cache_protected_len req) (length (take m (origin_input_ids req @ output_ids req)))"
proof -
  define ids where "ids = take m (origin_input_ids req @ output_ids req)"
  note r' = r [folded ids_def]
  let ?k = "kv_key s req ids" and ?ps = "cache_page_size s" and ?p = "cache_protected_len req"
  let ?M = "length ids" and ?kl = "key_len (kv_key s req ids)"
  note ps = cache_okD(6) [OF soundD(1) [OF so]]
  note K = kv_key_facts [OF ps, of req ids]
  have R: "py_nth (req_to_token s) (req_pool_idx req) = Inr row" "1 \<le> H h" "private_row s row ?p ?M"
    "cached s (namespace ?k) (take ?p (lookup_units s ?k)) (take ?p row)"
    using r' h unfolding request_ok_def by auto
  have pk: "?p \<le> ?kl" "?p \<le> ?M" "?ps dvd ?p"
    using cached_facts(1) [OF so R(4)] R(3) K(2) by (auto simp: private_row_def)
  have fold: "page_aligned (new_radix_key ids (req_extra_key req) (is_eagle s) None (req_cache_salt req)) ?ps = ?k"
    by (simp add: kv_key_def)
  show ?thesis
  proof (cases "ins \<and> \<not> disable_finished_insert s")
    case True
    let ?pr = "case req_priority req of None \<Rightarrow> 0 | Some p \<Rightarrow> p"
    obtain n node s1 V where i: "insert_op E s ?k (Some (take ?kl (take ?M row))) (Some ?pr) False = Inr (\<lparr>prefix_len = n, insert_last_node = Some node\<rparr>, s1)"
      "sound (H, C, s1)" "same_setup s s1" "kv_pool s1 = kv_pool s" "req_to_token s1 = req_to_token s" "?p \<le> n" "n \<le> ?kl" "?ps dvd n"
      "set_mset (tree_pages ?ps (shape s1)) = set_mset (tree_pages ?ps (shape s)) \<union> private_pages ?ps row n ?kl"
      by (rule request_insert [OF so l r', of "Some ?pr" False])
    obtain al s' where f: "kv_free_segments (kv_pool s1) [(py_slice (take ?M row) ?p n, ?p), (drop ?kl (take ?M row), ?kl)] = Inr al"
      "dec_lock_ref (s1\<lparr>kv_pool := al\<rparr>) (Some h) = Inr (evictable_size s' - evictable_size (s1\<lparr>kv_pool := al\<rparr>), s')"
      "sound (H(h := H h - 1), C, s')" "cache_page_size s' = ?ps" "req_to_token s' = req_to_token s1"
      "kv_avail (kv_pool s') = kv_avail (kv_pool s) \<union> (private_pages ?ps row ?p n \<union> private_pages ?ps row ?kl ?M)"
      "tree_pages ?ps (shape s') = tree_pages ?ps (shape s1)"
      by (rule finish_tail [OF i(2) R(3) i(3,4,6,7) K(4) i(8) K(5) i(9) order_refl R(2) so])
    have "cache_finished_req E s req ins m = Inr s'"
      using True soundD(5) [OF so] h unfolding cache_finished_req_def ids_def [symmetric] Let_def fold
      by (simp add: R(1) i(1) f(1,2) del: take_take)
    moreover have "private_pages ?ps row ?p ?M = private_pages ?ps row ?p n \<union> private_pages ?ps row n ?kl \<union> private_pages ?ps row ?kl ?M"
      using private_split [OF ps, of ?p ?kl ?M row] private_split [OF ps, of ?p n ?kl row] pk i(6-8) K(4,5) by simp
    ultimately show ?thesis
      unfolding ids_def [symmetric] by (intro that [OF _ f(3,4)]) (use f i(5,9) in \<open>auto simp: ids_def\<close>)
  next
    case False
    obtain al s' where f: "kv_free_segments (kv_pool s) [(py_slice (take ?M row) ?p ?kl, ?p), (drop ?kl (take ?M row), ?kl)] = Inr al"
      "dec_lock_ref (s\<lparr>kv_pool := al\<rparr>) (Some h) = Inr (evictable_size s' - evictable_size (s\<lparr>kv_pool := al\<rparr>), s')"
      "sound (H(h := H h - 1), C, s')" "cache_page_size s' = ?ps" "req_to_token s' = req_to_token s"
      "kv_avail (kv_pool s') = kv_avail (kv_pool s) \<union> (private_pages ?ps row ?p ?kl \<union> private_pages ?ps row ?kl ?M)"
      "tree_pages ?ps (shape s') = tree_pages ?ps (shape s)"
      by (rule finish_tail [OF so R(3) same_setup_refl refl pk(1) order_refl K(4,5,5), of "{}"]) (use R(2) so in auto)
    have "cache_finished_req E s req ins m = Inr s'"
      using False soundD(5) [OF so] h unfolding cache_finished_req_def ids_def [symmetric] Let_def fold
      by (auto simp: R(1) f(1,2) simp del: take_take)
    moreover have "private_pages ?ps row ?p ?M = private_pages ?ps row ?p ?kl \<union> private_pages ?ps row ?kl ?M"
      by (rule private_split [OF ps pk(1) K(4,5)])
    ultimately show ?thesis
      unfolding ids_def [symmetric] by (intro that [OF _ f(3,4)]) (use f in \<open>auto simp: ids_def\<close>)
  qed
qed

section \<open>A request that goes on\<close>

lemma relocked_cached:
  assumes "relocked s s' L d"
  shows "cached s' ns us vs = cached s ns us vs"
proof -
  note S = same_setupD [OF relocked_content(1) [OF assms]]
  show ?thesis
    unfolding cached_def S using below_unlock [of _ ns "shape s'"] below_unlock [of _ ns "shape s"] relocked_content(5) [OF assms] by simp
qed

lemma sound_rows: "sound (H, C, s) \<Longrightarrow> sound (H, C, s\<lparr>req_to_token := t\<rparr>)"
  by (simp add: sound_def cache_ok_def keys_ok_def pool_ok_def hashes_ok_def in_sync_def live_blocks_def)

text \<open>The lookup right behind the insertion returns the slots the tree now has for the key.\<close>

lemma match_inserted:
  assumes so: "sound (H, C, s)" and k: "key_fits s k" and c: "cached s (namespace k) (lookup_units s k) V"
  obtains r s2 where "match_prefix E s k = Inr (r, s2)" "device_indices r = V" "sound (H, C, s2)" "same_setup s s2"
    "kv_pool s2 = kv_pool s" "req_to_token s2 = req_to_token s"
    "tree_pages (cache_page_size s) (shape s2) = tree_pages (cache_page_size s) (shape s)"
    "nodes s2 (last_device_node r) \<noteq> None" "\<And>ns us vs. cached s2 ns us vs = cached s ns us vs"
proof -
  obtain r s2 where m: "match_prefix E s k = Inr (r, s2)" "reshaped H s s2" "length (device_indices r) \<le> length (lookup_units s k)"
    "cached s (namespace k) (take (length (device_indices r)) (lookup_units s k)) (device_indices r)"
    "\<And>j vs. j \<le> length (lookup_units s k) \<Longrightarrow> cached s (namespace k) (take j (lookup_units s k)) vs \<Longrightarrow> j \<le> length (device_indices r)"
    "nodes s2 (last_device_node r) \<noteq> None" "\<And>ns us vs. cached s2 ns us vs = cached s ns us vs"
    by (rule match_content [OF so k, of E]) blast
  have "length (device_indices r) = length (lookup_units s k)" using m(3) m(5) [of "length (lookup_units s k)" V] c by simp
  then have "device_indices r = V" using cached_facts(2) [OF so c] m(4) by simp
  then show ?thesis
    using that [OF m(1) _ sound_reshaped [OF so m(2)] reshapedD(2,4,5,11) [OF m(2)] m(6,7)] by blast
qed

text \<open>A handle moves from one node to another.\<close>

lemma move_lock:
  assumes so: "sound (H, C, s)" and h: "1 \<le> H h" and n: "nodes s n \<noteq> None"
  obtains s1 s2 d1 d2 where "dec_lock_ref s (Some h) = Inr (d1, s1)" "inc_lock_ref s1 (Some n) = Inr (d2, s2)"
    "sound ((H(h := H h - 1))(n := (H(h := H h - 1)) n + 1), C, s2)" "same_setup s s2" "kv_pool s2 = kv_pool s" "req_to_token s2 = req_to_token s"
    "tree_pages (cache_page_size s) (shape s2) = tree_pages (cache_page_size s) (shape s)" "\<And>ns us vs. cached s2 ns us vs = cached s ns us vs"
proof -
  obtain s1 where d: "dec_lock_ref s (Some h) = Inr (evictable_size s1 - evictable_size s, s1)" "sound (H(h := H h - 1), C, s1)"
    "relocked s s1 (path_of s h) (- 1)" by (rule radix_dec [OF so h])
  have "nodes s1 n \<noteq> None" using d(3) n unfolding relocked_def by simp
  then obtain s2 where i: "inc_lock_ref s1 (Some n) = Inr (evictable_size s2 - evictable_size s1, s2)"
    "sound ((H(h := H h - 1))(n := (H(h := H h - 1)) n + 1), C, s2)" "relocked s1 s2 (path_of s1 n) 1"
    by (rule radix_inc [OF d(2)])
  note D = relocked_content [OF d(3)] and I = relocked_content [OF i(3)]
  have t: "tree_pages (cache_page_size s) (shape s2) = tree_pages (cache_page_size s) (shape s)"
    using I(4) D(4) same_setup_page_size [OF D(1)] by simp
  show ?thesis
    by (rule that [OF d(1) i(1,2) same_setup_trans [OF D(1) I(1)] _ _ t]) (use D(2,3) I(2,3) relocked_cached [OF d(3)] relocked_cached [OF i(3)] in simp_all)
qed

text \<open>Behind position \<open>k\<close> the row keeps its slots.\<close>

lemma row_page_tail:
  assumes ps: "0 < ps" and k: "ps dvd k" "k div ps \<le> q" and len: "length row' = length row" and tail: "drop k row' = drop k row"
    and q: "q * ps < length row"
  shows "row_page ps row' q = row_page ps row q"
proof -
  have "k = k div ps * ps" using k(1) by simp
  then have "k \<le> q * ps" using k(2) by (metis mult_le_mono1)
  then have "row' ! (q * ps) = drop k row' ! (q * ps - k)" "row ! (q * ps) = drop k row ! (q * ps - k)" using q len by simp_all
  then show ?thesis using tail by (simp add: row_page_def)
qed

lemma private_tail:
  assumes ps: "0 < cache_page_size s" and row: "private_row s row p m" and k: "p \<le> k" "k \<le> m" "cache_page_size s dvd k"
    and len: "length row' = length row" and tail: "drop k row' = drop k row" and same: "cache_page_size s' = cache_page_size s"
    and apart: "private_pages (cache_page_size s) row k m \<inter> kv_avail (kv_pool s') = {}"
      "private_pages (cache_page_size s) row k m \<inter> set_mset (tree_pages (cache_page_size s) (shape s')) = {}"
    and cap: "kv_capacity (kv_pool s') = kv_capacity (kv_pool s)"
  shows "private_row s' row' k m" "private_pages (cache_page_size s) row' k m = private_pages (cache_page_size s) row k m"
proof -
  let ?ps = "cache_page_size s"
  have R: "m \<le> length row" "paged_row ?ps (row_page ?ps row) p (drop p (take m row))" "inj_on (row_page ?ps row) {p div ?ps..<ceil_div m ?ps}"
    "private_pages ?ps row p m \<subseteq> kv_capacity (kv_pool s)"
    using row unfolding private_row_def by blast+
  have T: "row_page ?ps row' q = row_page ?ps row q" if "k div ?ps \<le> q" "q < ceil_div m ?ps" for q
    using row_page_tail [OF ps k(3) that(1) len tail] that(2) R(1) less_ceil_div [OF ps, of q m] by linarith
  show pp: "private_pages ?ps row' k m = private_pages ?ps row k m" unfolding private_pages_def using T by (intro image_cong) auto
  have "p div ?ps \<le> k div ?ps" using k(1) by (rule div_le_mono)
  then have "inj_on (row_page ?ps row) {k div ?ps..<ceil_div m ?ps}" by (intro inj_on_subset [OF R(3)]) auto
  then have inj: "inj_on (row_page ?ps row') {k div ?ps..<ceil_div m ?ps}" 
    by (subst inj_on_cong [where g = "row_page ?ps row"]) (use T in auto)
  have same_tail: "drop k (take m row') = drop k (take m row)" using tail by (simp add: drop_take)
  have "paged_row ?ps (row_page ?ps row') k (drop k (take m row'))"
    unfolding same_tail paged_row_def
  proof (intro allI impI)
    fix i assume i: "i < length (drop k (take m row))"
    have "(k + i) div ?ps * ?ps \<le> k + i" by simp
    moreover have "k + i < m" using i R(1) by simp
    ultimately have "(k + i) div ?ps < ceil_div m ?ps" unfolding less_ceil_div [OF ps] by linarith
    then have q: "k div ?ps \<le> (k + i) div ?ps" "(k + i) div ?ps < ceil_div m ?ps" by (simp_all add: div_le_mono)
    from row_part [OF R(2) k(1) order_refl] i
    show "drop k (take m row) ! i = row_page ?ps row' ((k + i) div ?ps) * int ?ps + int ((k + i) mod ?ps)"
      unfolding paged_row_def T [OF q] by blast
  qed
  moreover have "private_pages ?ps row k m \<subseteq> private_pages ?ps row p m" by (rule private_mono [OF ps k(1) order_refl])
  ultimately show "private_row s' row' k m" unfolding private_row_def same pp using inj apart cap R(1,4) k(2,3) len by auto
qed

text \<open>Insertion and release together: the tree has the aligned slots, the duplicates are free.\<close>

lemma request_deposit:
  assumes so: "sound (H, C, s)" and l: "hash_laws E" and r: "request_ok H s req ids row"
  obtains n node s1 V al where
    "insert_op E s (kv_key s req ids) (Some (take (key_len (kv_key s req ids)) (take (length ids) row))) prio chunked
       = Inr (\<lparr>prefix_len = n, insert_last_node = Some node\<rparr>, s1)"
    "kv_free_segment (kv_pool s1) (py_slice (take (length ids) row) (cache_protected_len req) n) (cache_protected_len req) = Inr al"
    "sound (H, C, s1\<lparr>kv_pool := al\<rparr>)" "same_setup s s1" "req_to_token s1 = req_to_token s"
    "cache_protected_len req \<le> n" "n \<le> key_len (kv_key s req ids)" "cache_page_size s dvd n"
    "set_mset (tree_pages (cache_page_size s) (shape s1)) = set_mset (tree_pages (cache_page_size s) (shape s)) \<union>
       private_pages (cache_page_size s) row n (key_len (kv_key s req ids))"
    "kv_avail al = kv_avail (kv_pool s) \<union> private_pages (cache_page_size s) row (cache_protected_len req) n"
    "kv_capacity al = kv_capacity (kv_pool s)"
    "length V = key_len (kv_key s req ids)" "take (cache_protected_len req) V = take (cache_protected_len req) row"
    "cached s1 (namespace (kv_key s req ids)) (lookup_units s (kv_key s req ids)) V"
proof -
  let ?k = "kv_key s req ids" and ?ps = "cache_page_size s" and ?p = "cache_protected_len req"
  let ?M = "length ids" and ?kl = "key_len (kv_key s req ids)"
  note ps = cache_okD(6) [OF soundD(1) [OF so]]
  note K = kv_key_facts [OF ps, of req ids]
  have R: "private_row s row ?p ?M" using r unfolding request_ok_def by blast
  have RR: "private_pages ?ps row ?p ?M \<inter> set_mset (tree_pages ?ps (shape s)) = {}" "inj_on (row_page ?ps row) {?p div ?ps..<ceil_div ?M ?ps}"
    using R unfolding private_row_def by blast+
  obtain n node s1 V where i: "insert_op E s ?k (Some (take ?kl (take ?M row))) prio chunked = Inr (\<lparr>prefix_len = n, insert_last_node = Some node\<rparr>, s1)"
    "sound (H, C, s1)" "same_setup s s1" "kv_pool s1 = kv_pool s" "req_to_token s1 = req_to_token s" "?p \<le> n" "n \<le> ?kl" "?ps dvd n"
    "set_mset (tree_pages ?ps (shape s1)) = set_mset (tree_pages ?ps (shape s)) \<union> private_pages ?ps row n ?kl"
    "length V = ?kl" "take ?p V = take ?p row" "cached s1 (namespace ?k) (lookup_units s ?k) V"
    by (rule request_insert [OF so l r, of prio chunked])
  obtain al where al: "kv_free_segment (kv_pool s) (py_slice (take ?M row) ?p n) ?p = Inr al" "kv_inv al" "kv_capacity al = kv_capacity (kv_pool s)"
    "kv_page_size al = ?ps" "kv_avail al = kv_avail (kv_pool s) \<union> private_pages ?ps row ?p n"
    by (rule free_part [OF so R i(6) order_trans [OF i(7) K(4)]])
  have "private_pages ?ps row ?p n \<inter> set_mset (tree_pages (cache_page_size s1) (shape s1)) = {}"
    unfolding same_setup_page_size [OF i(3)] i(9)
    using RR(1) private_mono [OF ps order_refl order_trans [OF i(7) K(4)]] private_disjoint [OF ps RR(2), of ?p n n ?kl] i(6-8) K(4) by auto
  then have "sound (H, C, s1\<lparr>kv_pool := al\<rparr>)"
    using sound_freed [OF i(2) al(2)] al(3-5) i(4) same_setup_page_size [OF i(3)] by simp
  then show thesis using that [OF i(1) al(1) [folded i(4)] _ i(3,5-9) al(5,3) i(10-12)] by blast
qed

lemma unfinished_facts:
  assumes so: "sound (H, C, s)" and l: "hash_laws E" and h: "last_node req = Some h" and r: "request_ok H s req (fill_ids req) row"
  obtains req' s' row' n where "cache_unfinished_req E s req chunked = Inr (req', s')"
    "sound ((H(h := H h - 1))(n := (H(h := H h - 1)) n + 1), C, s')" "same_setup s s'"
    "request_ok ((H(h := H h - 1))(n := (H(h := H h - 1)) n + 1)) s' req' (fill_ids req) row'"
    "req' = req\<lparr>cache_protected_len := key_len (kv_key s req (fill_ids req)),
                prefix_indices := take (length (fill_ids req)) row', last_node := Some n\<rparr>"
    "kv_avail (kv_pool s') \<union> set_mset (tree_pages (cache_page_size s) (shape s')) \<union>
        private_pages (cache_page_size s) row' (cache_protected_len req') (length (fill_ids req)) =
      kv_avail (kv_pool s) \<union> set_mset (tree_pages (cache_page_size s) (shape s)) \<union>
        private_pages (cache_page_size s) row (cache_protected_len req) (length (fill_ids req))"
proof -
  define ids where "ids = fill_ids req"
  note r' = r [folded ids_def]
  let ?k = "kv_key s req ids" and ?ps = "cache_page_size s" and ?p = "cache_protected_len req" and ?i = "req_pool_idx req"
  let ?M = "length ids" and ?kl = "key_len (kv_key s req ids)" and ?pr = "case req_priority req of None \<Rightarrow> 0 | Some p \<Rightarrow> p"
  note ps = cache_okD(6) [OF soundD(1) [OF so]]
  note K = kv_key_facts [OF ps, of req ids]
  have R: "py_nth (req_to_token s) ?i = Inr row" "1 \<le> H h" "private_row s row ?p ?M" using r' h unfolding request_ok_def by auto
  have RR: "?M \<le> length row" "?ps dvd ?p" "private_pages ?ps row ?p ?M \<inter> set_mset (tree_pages ?ps (shape s)) = {}"
    "private_pages ?ps row ?p ?M \<inter> kv_avail (kv_pool s) = {}" "inj_on (row_page ?ps row) {?p div ?ps..<ceil_div ?M ?ps}"
    using R(3) unfolding private_row_def by blast+
  obtain n node s1 V al where i: "insert_op E s ?k (Some (take ?kl (take ?M row))) (Some ?pr) chunked = Inr (\<lparr>prefix_len = n, insert_last_node = Some node\<rparr>, s1)"
    "kv_free_segment (kv_pool s1) (py_slice (take ?M row) ?p n) ?p = Inr al" "sound (H, C, s1\<lparr>kv_pool := al\<rparr>)"
    "same_setup s s1" "req_to_token s1 = req_to_token s" "?p \<le> n" "n \<le> ?kl" "?ps dvd n"
    "set_mset (tree_pages ?ps (shape s1)) = set_mset (tree_pages ?ps (shape s)) \<union> private_pages ?ps row n ?kl"
    "kv_avail al = kv_avail (kv_pool s) \<union> private_pages ?ps row ?p n" "kv_capacity al = kv_capacity (kv_pool s)"
    "length V = ?kl" "take ?p V = take ?p row" "cached s1 (namespace ?k) (lookup_units s ?k) V"
    by (rule request_deposit [OF so l r', of "Some ?pr" chunked])
  define s2 where "s2 = s1\<lparr>kv_pool := al\<rparr>"
  note so2 = i(3) [folded s2_def]
  have fit: "key_fits s2 ?k" "lookup_units s2 ?k = lookup_units s ?k" "cached s2 (namespace ?k) (lookup_units s2 ?k) V" "cache_page_size s2 = ?ps"
    "same_setup s s2"
    using K(1) i(4,14) by (simp_all add: s2_def key_fits_def lookup_units_def cached_def same_setup_def)
  obtain m s3 where m: "match_prefix E s2 ?k = Inr (m, s3)" "device_indices m = V" "sound (H, C, s3)" "same_setup s2 s3"
    "kv_pool s3 = kv_pool s2" "req_to_token s3 = req_to_token s2"
    "tree_pages (cache_page_size s2) (shape s3) = tree_pages (cache_page_size s2) (shape s2)"
    "nodes s3 (last_device_node m) \<noteq> None" "\<And>ns us vs. cached s3 ns us vs = cached s2 ns us vs"
    by (rule match_inserted [OF so2 fit(1,3), of E]) blast
  define row' where "row' = V @ drop ?kl row"
  have klen: "?p \<le> ?kl" "?kl \<le> length row" using i(6,7) K(4) RR(1) by simp_all
  have "take ?p row @ drop ?p V = V" unfolding i(13) [symmetric] by simp
  then have asg: "slice_assign row ?p ?kl (drop ?p V) = Inr row'"
    using klen i(12) by (simp add: slice_assign_def blit_def row'_def append_assoc [symmetric] del: append_assoc)
  have row': "length row' = length row" "drop ?kl row' = drop ?kl row" "take ?kl row' = V" using klen i(12) by (simp_all add: row'_def)
  define s4 where "s4 = s3\<lparr>req_to_token := (req_to_token s3)[?i := row']\<rparr>"
  let ?n = "last_device_node m"
  let ?H = "(H(h := H h - 1))(?n := (H(h := H h - 1)) ?n + 1)"
  have so4: "sound (H, C, s4)" "nodes s4 ?n \<noteq> None" using sound_rows [OF m(3)] m(8) by (simp_all add: s4_def)
  obtain s5 s6 d1 d2 where mv: "dec_lock_ref s4 (Some h) = Inr (d1, s5)" "inc_lock_ref s5 (Some ?n) = Inr (d2, s6)" "sound (?H, C, s6)"
    "same_setup s4 s6" "kv_pool s6 = kv_pool s4" "req_to_token s6 = req_to_token s4"
    "tree_pages (cache_page_size s4) (shape s6) = tree_pages (cache_page_size s4) (shape s4)" "\<And>ns us vs. cached s6 ns us vs = cached s4 ns us vs"
    by (rule move_lock [OF so4(1) R(2) so4(2)]) blast
  define req' where "req' = req\<lparr>cache_protected_len := ?kl, prefix_indices := take ?M row', last_node := Some ?n\<rparr>"
  have S6: "same_setup s s6" using same_setup_trans [OF fit(5) m(4)] mv(4) by (simp add: same_setup_def s4_def)
  note P6 = same_setup_page_size [OF S6]
  have tree6: "set_mset (tree_pages ?ps (shape s6)) = set_mset (tree_pages ?ps (shape s)) \<union> private_pages ?ps row n ?kl"
    using mv(7) m(7) i(9) fit(4) same_setup_page_size [OF m(4)] by (simp add: s4_def s2_def)
  have pool6: "kv_avail (kv_pool s6) = kv_avail (kv_pool s) \<union> private_pages ?ps row ?p n" "kv_capacity (kv_pool s6) = kv_capacity (kv_pool s)"
    using mv(5) m(5) i(10,11) by (simp_all add: s4_def s2_def)
  have sub: "private_pages ?ps row ?kl ?M \<subseteq> private_pages ?ps row ?p ?M" by (rule private_mono [OF ps klen(1) order_refl])
  have dj: "private_pages ?ps row ?kl ?M \<inter> private_pages ?ps row n ?kl = {}" "private_pages ?ps row ?kl ?M \<inter> private_pages ?ps row ?p n = {}"
    using private_disjoint [OF ps RR(5), of n ?kl ?kl ?M] private_disjoint [OF ps RR(5), of ?p n ?kl ?M] i(6-8) K(4,5) by auto
  note tail = private_tail [OF ps R(3) klen(1) K(4,5) row'(1,2) P6 _ _ pool6(2), unfolded pool6(1) tree6]
  have priv: "private_row s6 row' ?kl ?M" "private_pages ?ps row' ?kl ?M = private_pages ?ps row ?kl ?M"
    using tail sub dj RR(3,4) by blast+
  have idx: "?i < length (req_to_token s)" using R(1) by (simp add: py_nth_def split: if_splits)
  have rows: "req_to_token s6 = (req_to_token s)[?i := row']" using mv(6) m(6) i(5) by (simp add: s4_def s2_def)
  have key6: "kv_key s6 req' ids = ?k" "lookup_units s6 ?k = lookup_units s ?k" using same_setupD [OF S6] by (simp_all add: kv_key_def req'_def lookup_units_def)
  have "cached s6 (namespace ?k) (lookup_units s ?k) V" using mv(8) m(9) fit(2,3) by (simp add: s4_def cached_def)
  moreover have "0 \<le> (H(h := H h - 1)) ?n" using soundD(2) [OF so, of ?n] R(2) by simp
  ultimately have ok: "request_ok ?H s6 req' ids row'"
    unfolding request_ok_def key6 using priv(1) row'(3) idx K(2) by (simp add: req'_def rows py_nth_def)
  have pre: "(if length V < length (take ?M row) then V @ drop (length V) (take ?M row) else V) = take ?M row'"
    using i(12) K(4) RR(1) by (simp add: row'_def drop_take)
  have row2: "py_nth (req_to_token s3) ?i = Inr row" using R(1) m(6) i(5) by (simp add: s2_def)
  have fold: "page_aligned (new_radix_key ids (req_extra_key req) (is_eagle s) None (req_cache_salt req)) ?ps = ?k" by (simp add: kv_key_def)
  have "cache_unfinished_req E s req chunked = Inr (req', s6)"
    unfolding cache_unfinished_req_def ids_def [symmetric] Let_def fold req'_def pre [symmetric]
    using soundD(5) [OF so]
    by (simp add: R(1) i(1,2,12) s2_def [symmetric] m(1,2) row2 asg s4_def [symmetric] h mv(1,2) assert_that_def del: take_take)
  moreover have "private_pages ?ps row ?p ?M = private_pages ?ps row ?p n \<union> private_pages ?ps row n ?kl \<union> private_pages ?ps row ?kl ?M"
    using private_split [OF ps klen(1) K(4,5)] private_split [OF ps i(6,7,8)] by simp
  ultimately show thesis
    by (intro that [OF _ mv(3) S6 ok [unfolded ids_def] req'_def [unfolded ids_def]]) (use pool6 tree6 priv(2) in \<open>auto simp: req'_def ids_def\<close>)
qed

section \<open>The cache and its requests\<close>

inductive serving :: "cache_env \<Rightarrow> sys_state \<Rightarrow> bool" for E where
  serve_reachable: "reachable E st \<Longrightarrow> serving E st"
| serve_step: "serving E st \<Longrightarrow> cache_step E st st' \<Longrightarrow> serving E st'"
| serve_rows: "serving E (H, C, s) \<Longrightarrow> serving E (H, C, s\<lparr>req_to_token := rows\<rparr>)"
| serve_unfinished: "serving E (H, C, s) \<Longrightarrow> last_node req = Some h \<Longrightarrow> request_ok H s req (fill_ids req) row \<Longrightarrow>
    cache_unfinished_req E s req chunked = Inr (req', s') \<Longrightarrow> last_node req' = Some n \<Longrightarrow>
    serving E ((H(h := H h - 1))(n := (H(h := H h - 1)) n + 1), C, s')"
| serve_finished: "serving E (H, C, s) \<Longrightarrow> last_node req = Some h \<Longrightarrow>
    request_ok H s req (take m (origin_input_ids req @ output_ids req)) row \<Longrightarrow>
    cache_finished_req E s req ins m = Inr s' \<Longrightarrow> serving E (H(h := H h - 1), C, s')"

lemma serving_sound:
  assumes "serving E st" "hash_laws E" "order_laws E"
  shows "sound st"
  using assms
proof (induction rule: serving.induct)
  case (serve_unfinished H C s req h row chunked req' s' n)
  let ?k = "key_len (kv_key s req (fill_ids req))"
  obtain r0 s0 row0 n0 where f: "cache_unfinished_req E s req chunked = Inr (r0, s0)"
    "sound ((H(h := H h - 1))(n0 := (H(h := H h - 1)) n0 + 1), C, s0)"
    "r0 = req\<lparr>cache_protected_len := ?k, prefix_indices := take (length (fill_ids req)) row0, last_node := Some n0\<rparr>"
    by (rule unfinished_facts [OF serve_unfinished.IH [OF serve_unfinished.prems] serve_unfinished.prems(1) serve_unfinished.hyps(2,3), of chunked]) blast
  have "r0 = req'" "s0 = s'" using f(1) serve_unfinished.hyps(4) by simp_all
  then have "n0 = n" using f(3) serve_unfinished.hyps(5) by auto
  then show ?case using f(2) \<open>s0 = s'\<close> by blast
next
  case (serve_finished H C s req h m row ins s')
  obtain s0 where "cache_finished_req E s req ins m = Inr s0" "sound (H(h := H h - 1), C, s0)"
    by (rule finished_facts [OF serve_finished.IH [OF serve_finished.prems] serve_finished.prems(1) serve_finished.hyps(2,3), of ins])
  then show ?case using serve_finished.hyps(4) by simp
qed (use sound_reachable sound_step sound_rows in blast)+

section \<open>A concrete request\<close>

definition demo_req :: kv_req where
  "demo_req = \<lparr>origin_input_ids = [7, 8, 9], output_ids = [10, 11], fill_ids = [7, 8, 9, 10, 11], req_extra_key = None,
     req_cache_salt = None, req_priority = None, last_node = Some 0, req_pool_idx = 0, cache_protected_len = 0, prefix_indices = []\<rparr>"

definition demo_row :: "int list" where
  "demo_row = [2, 3, 4, 5, 6, 7]"

lemma demo_request:
  obtains s H where "serving demo_env (H, {#}, s)" "request_ok H s demo_req [7, 8, 9, 10, 11] demo_row" "cache_page_size s = 2" "\<not> is_eagle s"
    "kv_avail (kv_pool s) = {4, 5, 6, 7, 8}" "tree_pages 2 (shape s) = {#}" "private_pages 2 demo_row 0 5 = {1, 2, 3}"
proof -
  let ?al = "PagedAlloc (paged_init 16 2 False False)"
  define s0 where "s0 = reset demo_env
         \<lparr>disable = False, cache_page_size = 2, is_eagle = False,
          disable_finished_insert = False, eviction_strategy = LRU,
          kv_events = \<lparr>enabled = True, ev_page_size = 2, queue = []\<rparr>,
          nodes = Map.empty, counter = 0, clock = 0, root_node = 0, evictable_size = 0,
          protected_size = 0, evictable_leaves = {}, req_to_token = [demo_row], kv_pool = ?al\<rparr>"
  have strat: "get_eviction_strategy ''lru'' = Inr LRU" by code_simp
  have r0: "reachable demo_env (\<lambda>_. 0, {#}, s0)"
    by (rule reach_new [of 2 ?al _ False False "''lru''" True "[demo_row]"]) (simp_all add: demo_pool new_radix_cache_def strat s0_def)
  have "case kv_alloc ?al 6 of Inr (Some out, p) \<Rightarrow> out = demo_row \<and> kv_avail p = {4, 5, 6, 7, 8} | _ \<Rightarrow> False" by code_simp
  then obtain p where p: "kv_alloc ?al 6 = Inr (Some demo_row, p)" "kv_avail p = {4, 5, 6, 7, 8}" by (auto split: sum.splits option.splits)
  have cap: "kv_capacity p = {1..8}" using kv_alloc_cases [OF demo_pool(1) p(1)] by (simp add: demo_pool)
  define s1 where "s1 = s0\<lparr>kv_pool := p\<rparr>"
  have s1: "cache_page_size s1 = 2" "kv_pool s1 = p" "req_to_token s1 = [demo_row]" "nodes s1 0 \<noteq> None" "shape s1 = shape s0" "\<not> is_eagle s1"
    by (simp_all add: s1_def s0_def reset_nodes) (simp add: reset_def Let_def new_tree_node_def read_clock_def set_node_def)
  have r1: "reachable demo_env (\<lambda>_. 0, {#}, s1)"
    unfolding s1_def by (rule reach_step [OF r0 step_alloc [of _ 6]]) (simp add: s0_def reset_nodes p(1))
  have so: "sound (\<lambda>_. 0, {#}, s1)" using reach_sound [OF r1] demo_laws by blast
  obtain s where i: "inc_lock_ref s1 (Some 0) = Inr (evictable_size s - evictable_size s1, s)"
    "sound ((\<lambda>_. 0)(0 := 0 + 1), {#}, s)" "relocked s1 s (path_of s1 0) 1" by (rule radix_inc [OF so s1(4)])
  note I = relocked_content [OF i(3)] and S = same_setupD [OF relocked_content(1) [OF i(3)]]
  have t: "tree_pages 2 (shape s1) = {#}" unfolding s1(5) s0_def reset_shape by (simp add: tree_pages_def fsum_def node_pages_def pages_seq_def)
  have r2: "serving demo_env ((\<lambda>_. 0)(0 := 0 + 1), {#}, s)"
    by (rule serve_reachable [OF reach_step [OF r1 step_inc [OF s1(4) i(1)]]])
  have pp: "private_pages 2 demo_row 0 5 = {1, 2, 3}" by code_simp
  have rp: "row_page 2 demo_row 0 = 1" "row_page 2 demo_row 1 = 2" "row_page 2 demo_row 2 = 3" by code_simp+
  have pr: "paged_row 2 (row_page 2 demo_row) 0 (drop 0 (take 5 demo_row))" "length demo_row = 6" by code_simp+
  have "{0 div 2..<ceil_div 5 2} = {0, 1, 2 :: nat}" by (auto simp: ceil_div_def)
  then have inj: "inj_on (row_page 2 demo_row) {0 div 2..<ceil_div 5 2}" by (simp add: inj_on_def rp [simplified])
  have "private_row s demo_row 0 5"
    unfolding private_row_def S s1(1) I(2) s1(2) pp using I(4) t cap p(2) inj pr by (simp add: s1(1))
  then have "request_ok ((\<lambda>_. 0)(0 := 0 + 1)) s demo_req [7, 8, 9, 10, 11] demo_row"
    using I(3) s1(3) by (simp add: eval_nat_numeral request_ok_def demo_req_def py_nth_def cached_def below_here)
  then show ?thesis using that [OF r2] S s1(1,2,6) I(2,4) p(2) t pp by simp
qed

section \<open>Properties\<close>





end
