(* ===== verification/AdmitFacts.thy ===== *)
theory AdmitFacts
  imports PrefillPass RadixRequest
begin

text \<open>
  What admission guarantees. The adder relies on the prefix cache only through its contract: a lock
  succeeds on a live node and releasing it gives back what it took; a lookup returns a live node and
  leaves the sizes as they were. From this contract the budget of the adder is shown to be sound
  for every cache that keeps it, and the radix cache and the chunk cache are shown to keep it.
\<close>

section \<open>The contract of the cache\<close>

text \<open>
  \<open>inv h s\<close> says that the state \<open>s\<close> is sound with the handles \<open>h\<close> held, and \<open>held h n\<close> adds one on
  node \<open>n\<close>.
\<close>

locale lock_contract =
  fixes ops :: "('c, 'l) cache_ops" and inv :: "'h \<Rightarrow> 'c \<Rightarrow> bool" and live :: "'c \<Rightarrow> nat option \<Rightarrow> bool"
    and held :: "'h \<Rightarrow> nat option \<Rightarrow> 'h"
  assumes inc: "inv h s \<Longrightarrow> live s n \<Longrightarrow>
      \<exists>l s1. op_inc_lock ops s n = Inr (l, s1) \<and> inv (held h n) s1 \<and> (\<forall>m. live s1 m = live s m)"
    and unlock: "inv h s \<Longrightarrow> live s n \<Longrightarrow> op_inc_lock ops s n = Inr (l, s1) \<Longrightarrow>
      \<exists>s2. op_dec_lock ops s1 n q = Inr s2 \<and> inv h s2 \<and> (\<forall>m. live s2 m = live s m) \<and>
        available_and_evictable ops s2 = available_and_evictable ops s"
    and single_pool: "\<not> op_is_hybrid_swa ops" "op_mamba_slot_cost ops = 0"

locale prefix_contract = lock_contract +
  assumes matched: "inv h s \<Longrightarrow>
      \<exists>m s1. op_match_prefix ops s (req_key r ids key_limit) = Inr (m, s1) \<and> inv h s1 \<and>
        available_and_evictable ops s1 = available_and_evictable ops s \<and> (\<forall>n. live s n \<longrightarrow> live s1 n) \<and>
        live s1 (fm_last_device_node m) \<and> fm_host_hit_length m = 0 \<and> fm_swa_host_hit_length m = 0 \<and>
        fm_mamba_host_hit_length m = 0 \<and>
        length (fm_device_indices m) \<le> length (case key_limit of None \<Rightarrow> ids | Some l \<Rightarrow> take l ids)"
    and root: "inv h s \<Longrightarrow> \<not> op_is_chunk_cache ops \<Longrightarrow> live s (op_root_handle ops s)"

section \<open>The caches keep the contract\<close>

type_synonym handles = "(nat \<Rightarrow> int) \<times> int multiset"

definition radix_inv :: "handles \<Rightarrow> radix_cache \<Rightarrow> bool" where
  "radix_inv h s \<longleftrightarrow> sound (fst h, snd h, s)"

definition radix_held :: "handles \<Rightarrow> nat option \<Rightarrow> handles" where
  "radix_held h n = (case n of None \<Rightarrow> h | Some m \<Rightarrow> ((fst h)(m := fst h m + 1), snd h))"

definition radix_live :: "radix_cache \<Rightarrow> nat option \<Rightarrow> bool" where
  "radix_live s n \<longleftrightarrow> (\<exists>m. n = Some m \<and> nodes s m \<noteq> None)"

lemma relocked_live: "relocked s s' L d \<Longrightarrow> radix_live s' m = radix_live s m"
  unfolding relocked_def radix_live_def by (metis (no_types, lifting) None_eq_map_option_iff)

text \<open>Locking and releasing cancel, so the sizes are back.\<close>

lemma relocked_cancel:
  assumes "sound (H, C, s)" "relocked s s1 L 1" "sound (H, C, s2)" "relocked s1 s2 L (- 1)"
  shows "evictable_size s2 = evictable_size s" "kv_pool s2 = kv_pool s"
proof -
  have R: "same_setup s s1" "kv_pool s1 = kv_pool s" "nodes s1 x = map_option (\<lambda>nd. nd\<lparr>lock_ref := lock_ref nd + (if x \<in> L then 1 else 0)\<rparr>) (nodes s x)" for x
    using assms(2) unfolding relocked_def by blast+
  have R2: "same_setup s1 s2" "kv_pool s2 = kv_pool s1" "nodes s2 x = map_option (\<lambda>nd. nd\<lparr>lock_ref := lock_ref nd + (if x \<in> L then - 1 else 0)\<rparr>) (nodes s1 x)" for x
    using assms(4) unfolding relocked_def by blast+
  have n: "nodes s2 = nodes s"
  proof
    fix x show "nodes s2 x = nodes s x" unfolding R2(3) R(3) by (cases "nodes s x") simp_all
  qed
  have r: "root_node s2 = root_node s" using same_setupD(6) [OF R(1)] same_setupD(6) [OF R2(1)] by simp
  show "evictable_size s2 = evictable_size s"
    using cache_okD(2) [OF soundD(1) [OF assms(1)]] cache_okD(2) [OF soundD(1) [OF assms(3)]] unfolding n r books_def by simp
  show "kv_pool s2 = kv_pool s" using R(2) R2(2) by simp
qed

lemma radix_available: "available_and_evictable (radix_ops E rel) s = int (kv_available_size (kv_pool s)) + evictable_size s"
  by (simp add: available_and_evictable_def radix_ops_def)

interpretation radix_locks: lock_contract "radix_ops E rel" radix_inv radix_live radix_held
proof
  fix h s n assume "radix_inv h s" "radix_live s n"
  then obtain H C m where h: "h = (H, C)" and s: "sound (H, C, s)" and m: "n = Some m" "nodes s m \<noteq> None"
    by (cases h) (auto simp: radix_inv_def radix_live_def)
  obtain s1 where i: "inc_lock_ref s (Some m) = Inr (evictable_size s1 - evictable_size s, s1)" "sound (H(m := H m + 1), C, s1)"
    "relocked s s1 (path_of s m) 1" "path_of s1 m = path_of s m" by (rule radix_inc [OF s m(2)])
  have l1: "radix_live s1 k = radix_live s k" for k by (rule relocked_live [OF i(3)])
  show "\<exists>l s1. op_inc_lock (radix_ops E rel) s n = Inr (l, s1) \<and> radix_inv (radix_held h n) s1 \<and> (\<forall>m. radix_live s1 m = radix_live s m)"
    using i(1,2) l1 by (simp add: m(1) h radix_ops_def radix_inv_def radix_held_def)
  fix l s0 q assume "op_inc_lock (radix_ops E rel) s n = Inr (l, s0)"
  then have s0: "s0 = s1" using i(1) by (simp add: m(1) radix_ops_def)
  have "1 \<le> (H(m := H m + 1)) m" using soundD(2) [OF s] by simp
  from radix_dec [OF i(2) this] obtain s2 where d: "dec_lock_ref s1 (Some m) = Inr (evictable_size s2 - evictable_size s1, s2)"
    "sound ((H(m := H m + 1))(m := (H(m := H m + 1)) m - 1), C, s2)" "relocked s1 s2 (path_of s1 m) (- 1)" .
  have "(H(m := H m + 1))(m := (H(m := H m + 1)) m - 1) = H" by auto
  then have s2: "sound (H, C, s2)" using d(2) by simp
  have "available_and_evictable (radix_ops E rel) s2 = available_and_evictable (radix_ops E rel) s"
    unfolding radix_available using relocked_cancel [OF s i(3) s2] d(3) i(4) by simp
  then show "\<exists>s2. op_dec_lock (radix_ops E rel) s0 n q = Inr s2 \<and> radix_inv h s2 \<and> (\<forall>m. radix_live s2 m = radix_live s m) \<and>
      available_and_evictable (radix_ops E rel) s2 = available_and_evictable (radix_ops E rel) s"
    using d(1) s2 relocked_live [OF d(3)] l1 by (intro exI [of _ s2]) (simp add: s0 m(1) h radix_ops_def radix_inv_def)
qed (simp_all add: radix_ops_def)

lemma req_key_units:
  "length (lookup_units s (req_key r ids key_limit)) \<le> length (case key_limit of None \<Rightarrow> ids | Some l \<Rightarrow> take l ids)"
proof -
  have "length (raw (req_key r ids key_limit)) \<le> length (case key_limit of None \<Rightarrow> ids | Some l \<Rightarrow> take l ids)"
    by (simp add: raw_def raw_len_def req_key_def new_radix_key_def Let_def split: option.splits)
  then show ?thesis by (auto simp: lookup_units_def length_units)
qed

interpretation radix_prefix: prefix_contract "radix_ops E rel" radix_inv radix_live radix_held
proof
  fix h s r ids key_limit assume "radix_inv h s"
  then obtain H C where h: "h = (H, C)" and s: "sound (H, C, s)" by (cases h) (auto simp: radix_inv_def)
  let ?k = "req_key r ids key_limit"
  have "key_fits s ?k" by (auto simp: key_fits_def key_ok_def req_key_def new_radix_key_def split: option.splits)
  then obtain m s1 where m: "match_prefix E s ?k = Inr (m, s1)" "reshaped H s s1" "length (device_indices m) \<le> length (lookup_units s ?k)"
    "nodes s1 (last_device_node m) \<noteq> None"
    by (rule match_content [OF s, of ?k E]) blast
  note R = reshapedD [OF m(2)]
  have "available_and_evictable (radix_ops E rel) s1 = available_and_evictable (radix_ops E rel) s" unfolding radix_available using R(4,7) by simp
  moreover have "radix_live s n \<longrightarrow> radix_live s1 n" for n using R(13) by (auto simp: radix_live_def dom_def)
  moreover have "length (device_indices m) \<le> length (case key_limit of None \<Rightarrow> ids | Some l \<Rightarrow> take l ids)"
    using m(3) req_key_units by (rule order_trans)
  ultimately show "\<exists>m s1. op_match_prefix (radix_ops E rel) s ?k = Inr (m, s1) \<and> radix_inv h s1 \<and>
        available_and_evictable (radix_ops E rel) s1 = available_and_evictable (radix_ops E rel) s \<and> (\<forall>n. radix_live s n \<longrightarrow> radix_live s1 n) \<and>
        radix_live s1 (fm_last_device_node m) \<and> fm_host_hit_length m = 0 \<and> fm_swa_host_hit_length m = 0 \<and>
        fm_mamba_host_hit_length m = 0 \<and> length (fm_device_indices m) \<le> length (case key_limit of None \<Rightarrow> ids | Some l \<Rightarrow> take l ids)"
    using m(1,4) sound_reshaped [OF s m(2)]
    by (intro exI [of _ "plain_match (device_indices m) (Some (last_device_node m))"] exI [of _ s1])
       (simp add: radix_ops_def plain_match_def radix_inv_def h radix_live_def)
  show "radix_live s (op_root_handle (radix_ops E rel) s)"
    using root_live [OF soundD(1) [OF s]] by (simp add: radix_ops_def radix_live_def)
qed

text \<open>The chunk cache has no tree: every handle is live and locking does nothing.\<close>

interpretation chunk_prefix: prefix_contract "chunk_ops rel" "\<lambda>_ _. True" "\<lambda>_ _. True" "\<lambda>h _. h"
  by unfold_locales (auto simp: chunk_ops_def available_and_evictable_def plain_match_def)

section \<open>What one admission does to the adder\<close>

text \<open>The tokens an admitted request takes from the budget of the pool.\<close>

definition whole_prefill :: "sched_req \<Rightarrow> bool" where
  "whole_prefill r \<longleftrightarrow> snd (extend_range r) = int (length (full_untruncated_fill_ids r))"

definition charge :: "sched_env \<Rightarrow> int \<Rightarrow> sched_req \<Rightarrow> int" where
  "charge X pg r =
     - ((- extend_len r) div pg) * pg + (if whole_prefill r then min (max_new_tokens r) (clip_max_new_tokens X) else 0) + pg"

text \<open>A rejected request changes nothing but the cache handle and the delayer; an admitted one is charged.\<close>

definition rejected :: "'c prefill_adder \<Rightarrow> 'c prefill_adder \<Rightarrow> bool" where
  "rejected a a' \<longleftrightarrow> a' = a\<lparr>ad_cache := ad_cache a', ad_delayer := ad_delayer a'\<rparr>"

definition admitted :: "sched_env \<Rightarrow> int option \<Rightarrow> 'c prefill_adder \<Rightarrow> 'c prefill_adder \<Rightarrow> sched_req \<Rightarrow> sched_req \<Rightarrow> bool" where
  "admitted X al a a' r r' \<longleftrightarrow>
     (\<exists>k. r' = set_extend_range r (prefix_length r) (prefix_length r + k) \<and> k \<le> cand_extend_input_len r \<and>
        (k < cand_extend_input_len r \<longrightarrow> 0 < k)) \<and>
     can_run_list a' = can_run_list a @ [r'] \<and>
     rem_total_token_offset a' = rem_total_token_offset a + of_int (charge X (ad_page_size a) r') \<and>
     rem_chunk_tokens a' = map_option (\<lambda>c. c - ceil_paged_tokens a (extend_len r')) (rem_chunk_tokens a) \<and>
     new_chunked_req a' = (if whole_prefill r' then new_chunked_req a else Some r') \<and>
     (\<not> whole_prefill r' \<and> al = None \<longrightarrow> chunk_budget_exhausted a') \<and>
     ad_page_size a' = ad_page_size a \<and> ad_running a' = ad_running a \<and> preempt_list a' = preempt_list a \<and>
     dllm_block_size a' = dllm_block_size a"

lemma ceil_paged_bounds:
  assumes "0 < ad_page_size a"
  shows "x \<le> ceil_paged_tokens a x" "ceil_paged_tokens a x < x + ad_page_size a" "ad_page_size a dvd ceil_paged_tokens a x"
    "ad_page_size a dvd y \<Longrightarrow> x \<le> y \<Longrightarrow> ceil_paged_tokens a x \<le> y"
proof -
  let ?p = "ad_page_size a"
  have m: "(- x) div ?p * ?p = - x - (- x) mod ?p" by (simp add: minus_mod_eq_div_mult)
  have b: "0 \<le> (- x) mod ?p" "(- x) mod ?p < ?p" using assms by simp_all
  show "x \<le> ceil_paged_tokens a x" "ceil_paged_tokens a x < x + ?p" unfolding ceil_paged_tokens_def using m b by simp_all
  show d: "?p dvd ceil_paged_tokens a x" by (simp add: ceil_paged_tokens_def)
  assume y: "?p dvd y" "x \<le> y"
  show "ceil_paged_tokens a x \<le> y"
  proof (rule ccontr)
    assume "\<not> ceil_paged_tokens a x \<le> y"
    then have "?p \<le> ceil_paged_tokens a x - y" using zdvd_imp_le [of ?p "ceil_paged_tokens a x - y"] d y(1) by simp
    then show False using y(2) \<open>ceil_paged_tokens a x < x + ?p\<close> by linarith
  qed
qed

lemma ceil_paged_aligned: "0 < ad_page_size a \<Longrightarrow> ad_page_size a dvd x \<Longrightarrow> ceil_paged_tokens a x = x"
  using ceil_paged_bounds(1) [of a x] ceil_paged_bounds(4) [of a x x] by simp

lemma charge_def2: "charge X (ad_page_size a) r = ceil_paged_tokens a (extend_len r)
    + (if whole_prefill r then min (max_new_tokens r) (clip_max_new_tokens X) else 0) + ad_page_size a"
  by (simp add: charge_def ceil_paged_tokens_def)

text \<open>The length of a chunk: positive, and below the limit it was given.\<close>

lemma chunk_length_bounds:
  assumes pg: "0 < ad_page_size a" and al: "\<And>x. al = Some x \<Longrightarrow> 0 < x" and p: "0 \<le> p"
    and c: "chunk_length a lm al p = Inr (Some k)"
  shows "0 < k" "k \<le> lm div ad_page_size a * ad_page_size a" "ad_page_size a dvd p + k"
    "al = None \<Longrightarrow> ceil_paged_tokens a k = lm div ad_page_size a * ad_page_size a"
proof -
  let ?pg = "ad_page_size a"
  let ?t = "lm div ?pg * ?pg"
  obtain t where t: "t \<le> ?t" "k = (t + p) div ?pg * ?pg - p" "0 < k" "al = None \<longrightarrow> t = ?t"
  proof (cases al)
    case None
    then show ?thesis using c that [of ?t] by (auto simp: chunk_length_def Let_def split: if_splits)
  next
    case (Some x)
    have "0 < x" by (rule al [OF Some])
    then have "x * (?t div x) \<le> ?t" using minus_mod_eq_mult_div [of ?t x] pos_mod_sign [of x ?t] by linarith
    then show ?thesis using c Some \<open>0 < x\<close> that [of "x * (?t div x)"] by (auto simp: chunk_length_def Let_def floor_div_def split: if_splits)
  qed
  have "(t + p) div ?pg * ?pg \<le> t + p" using pg minus_mod_eq_div_mult [of "t + p" ?pg] pos_mod_sign [of ?pg "t + p"] by linarith
  then show k: "0 < k" "k \<le> ?t" "?pg dvd p + k" using t by simp_all
  assume "al = None"
  then have tt: "t = ?t" using t(4) by simp
  have "t - ?pg < k" using t(2) pg minus_mod_eq_div_mult [of "t + p" ?pg] pos_mod_bound [of ?pg "t + p"] by linarith
  then have "?t - ?pg < k" unfolding tt .
  then have "\<not> ceil_paged_tokens a k + ?pg \<le> ?t" using ceil_paged_bounds(1) [OF pg, of k] by linarith
  moreover have "?pg dvd ?t - ceil_paged_tokens a k" using ceil_paged_bounds(3) [OF pg, of k] by simp
  ultimately have "\<not> 0 < ?t - ceil_paged_tokens a k" using zdvd_imp_le [of ?pg "?t - ceil_paged_tokens a k"] by linarith
  then show "ceil_paged_tokens a k = ?t" using ceil_paged_bounds(4) [OF pg _ k(2)] by simp
qed

lemma budget_single:
  assumes "\<not> op_is_hybrid_swa ops" "dllm_block_size a = None"
  shows "rem_total_token_offset (update_prefill_budget ops a p n new rs 0 h st) = rem_total_token_offset a + of_int (ceil_paged_tokens a n + new + ad_page_size a)"
    "can_run_list (update_prefill_budget ops a p n new rs 0 h st) = can_run_list a"
    "rem_chunk_tokens (update_prefill_budget ops a p n new rs 0 h st) = map_option (\<lambda>c. c - ceil_paged_tokens a n) (rem_chunk_tokens a)"
    "new_chunked_req (update_prefill_budget ops a p n new rs 0 h st) = new_chunked_req a"
    "ad_page_size (update_prefill_budget ops a p n new rs 0 h st) = ad_page_size a"
    "ad_running (update_prefill_budget ops a p n new rs 0 h st) = ad_running a"
    "preempt_list (update_prefill_budget ops a p n new rs 0 h st) = preempt_list a"
    "dllm_block_size (update_prefill_budget ops a p n new rs 0 h st) = dllm_block_size a"
    "ad_cache (update_prefill_budget ops a p n new rs 0 h st) = ad_cache a"
  using assms by (simp_all add: update_prefill_budget_def Let_def ceil_paged_tokens_def split_def)

lemma negotiate_rejected: "negotiate W a = Inr (ok, a1) \<Longrightarrow> rejected a a1 \<and> ad_cache a1 = ad_cache a"
  by (auto simp: negotiate_def rejected_def rbind_eq_Inr split: option.splits)

lemma tile_budget_stop: "check_prefill_tile_budget X a n = Inr (Some stop) \<Longrightarrow> stop = OTHER"
  by (auto simp: check_prefill_tile_budget_def rbind_eq_Inr Let_def split: if_splits)

lemma rejected_refl: "rejected a a"
  by (simp add: rejected_def)

lemma rejected_sel:
  assumes "rejected a a'"
  shows "can_run_list a' = can_run_list a" "rem_total_token_offset a' = rem_total_token_offset a" "rem_chunk_tokens a' = rem_chunk_tokens a"
    "new_chunked_req a' = new_chunked_req a" "ad_page_size a' = ad_page_size a" "ad_running a' = ad_running a"
    "preempt_list a' = preempt_list a" "dllm_block_size a' = dllm_block_size a"
  by (subst assms [unfolded rejected_def], simp)+

lemma rejected_admitted: "rejected a a1 \<Longrightarrow> admitted X al a1 a' r r' \<Longrightarrow> admitted X al a a' r r'"
  by (simp add: admitted_def rejected_sel ceil_paged_tokens_def)

lemma exhausted_cache [simp]: "chunk_budget_exhausted (a\<lparr>ad_cache := s\<rparr>) = chunk_budget_exhausted a"
  by (cases "rem_chunk_tokens a") (simp_all add: chunk_budget_exhausted_def)

lemma ceil_paged_cache [simp]: "ceil_paged_tokens (a\<lparr>ad_cache := s\<rparr>) n = ceil_paged_tokens a n"
  by (simp add: ceil_paged_tokens_def)

lemma admitted_cache: "admitted X al (a\<lparr>ad_cache := s1\<rparr>) a1 r r' \<Longrightarrow> admitted X al a (a1\<lparr>ad_cache := s2\<rparr>) r r'"
  by (simp add: admitted_def)

lemma rejected_trans:
  assumes "rejected a a1" "rejected a1 a2"
  shows "rejected a a2"
proof -
  have "a1\<lparr>ad_cache := ad_cache a2, ad_delayer := ad_delayer a2\<rparr> = a\<lparr>ad_cache := ad_cache a2, ad_delayer := ad_delayer a2\<rparr>"
    by (subst assms(1) [unfolded rejected_def]) simp
  then show ?thesis using assms(2) by (simp add: rejected_def)
qed

lemma rejected_cache: "rejected a b \<Longrightarrow> rejected a (b\<lparr>ad_cache := s\<rparr>)"
  by (rule rejected_trans [of _ b]) (simp_all add: rejected_def)

definition fresh_req :: "sched_req \<Rightarrow> bool" where
  "fresh_req r \<longleftrightarrow> output_ids r = [] \<and> 0 \<le> max_new_tokens r"

definition locked_out ::
  "sched_env \<Rightarrow> int option \<Rightarrow> ('c, 'l) cache_ops \<Rightarrow> 'c prefill_adder \<Rightarrow> sched_req \<Rightarrow> add_req_result option \<Rightarrow> sched_req \<Rightarrow> 'c prefill_adder \<Rightarrow> bool" where
  "locked_out X al ops a r ret r' a' \<longleftrightarrow>
     (ret \<noteq> None \<and> ret \<noteq> Some CONTINUE \<and> r' = r \<and> rejected a a' \<and> ad_cache a' = ad_cache a) \<or>
     (ret = None \<and> admitted X al a a' r r' \<and> (\<exists>l. op_inc_lock ops (ad_cache a) (last_node r) = Inr (l, ad_cache a')))"

lemma locked_out_rejected:
  assumes "rejected a a1" "ad_cache a1 = ad_cache a" "locked_out X al ops a1 r ret r' a'"
  shows "locked_out X al ops a r ret r' a'"
  using assms rejected_trans [of a a1 a'] rejected_admitted [of a a1 X al a' r r'] unfolding locked_out_def by auto

lemma cand_prefix: "prefix_length r + cand_extend_input_len r = int (length (full_untruncated_fill_ids r))"
  by (simp add: cand_extend_input_len_def)

lemma set_extend_sel [simp]:
  "extend_len (set_extend_range r a b) = b - a" "extend_range (set_extend_range r a b) = (a, b)"
  "last_node (set_extend_range r a b) = last_node r" "full_untruncated_fill_ids (set_extend_range r a b) = full_untruncated_fill_ids r"
  "max_new_tokens (set_extend_range r a b) = max_new_tokens r" "rid (set_extend_range r a b) = rid r"
  by (simp_all add: set_extend_range_def extend_len_def)

context lock_contract
begin

lemma no_gap: "mamba_gap_budget_for_req ops r = 0"
  using single_pool by (simp add: mamba_gap_budget_for_req_def)

lemma req_inc: "req_inc_lock_ref ops a r = rbind (op_inc_lock ops (ad_cache a) (last_node r)) (\<lambda>(l, s1). Inr (r, a\<lparr>ad_cache := s1\<rparr>))"
  using single_pool by (simp add: req_inc_lock_ref_def split_def)

lemma admit_whole_out:
  assumes "admit_whole X ops a r (ceil_paged_tokens a (cand_extend_input_len r)) = Inr (ret, r', a')"
    and "0 < ad_page_size a" "dllm_block_size a = None"
  shows "locked_out X al ops a r ret r' a'"
proof -
  let ?n = "ceil_paged_tokens a (cand_extend_input_len r)"
  have idem: "ceil_paged_tokens b ?n = ?n" if "ad_page_size b = ad_page_size a" for b :: "'c prefill_adder"
    using ceil_paged_aligned [of b ?n] ceil_paged_bounds(3) [of a] assms(2) that by simp
  let ?r = "set_extend_range r (prefix_length r) (prefix_length r + cand_extend_input_len r)"
  obtain stop where t: "check_prefill_tile_budget X a ?n = Inr stop" using assms(1) by (auto simp: admit_whole_def rbind_eq_Inr)
  consider "ret = Some OTHER" "r' = r" "a' = a"
    | l s1 where "op_inc_lock ops (ad_cache a) (last_node r) = Inr (l, s1)" "ret = None" "r' = ?r"
      "a' = update_prefill_budget ops (admit (a\<lparr>ad_cache := s1\<rparr>) ?r) (prefix_length r) ?n
         (min (max_new_tokens ?r) (clip_max_new_tokens X)) (retracted_stain ?r) 0 (host_hit_length ?r) (storage_hit_length ?r)"
  proof (cases stop)
    case None
    obtain l s1 where i: "op_inc_lock ops (ad_cache a) (last_node r) = Inr (l, s1)"
      using assms(1) t None by (auto simp: admit_whole_def rbind_eq_Inr req_inc Let_def)
    from assms(1) show ?thesis
      using that(2) [OF i] unfolding admit_whole_def t None by (clarsimp simp: req_inc i no_gap cand_prefix Let_def)
  next
    case (Some x)
    then show ?thesis using assms(1) t tile_budget_stop [of X a ?n x] that(1) by (simp add: admit_whole_def)
  qed
  then show ?thesis
  proof cases
    case 1
    then show ?thesis by (simp add: locked_out_def rejected_refl)
  next
    case 2
    have w: "whole_prefill r'" "extend_len r' = cand_extend_input_len r" using 2(3) by (simp_all add: whole_prefill_def cand_extend_input_len_def)
    have "admitted X al a a' r r'"
      unfolding admitted_def charge_def2
    proof (intro conjI)
      show "\<exists>k. r' = set_extend_range r (prefix_length r) (prefix_length r + k) \<and> k \<le> cand_extend_input_len r \<and> (k < cand_extend_input_len r \<longrightarrow> 0 < k)"
        using 2(3) by auto
    qed (use single_pool(1) assms(3) w idem 2(3,4) in \<open>simp_all add: budget_single admit_def\<close>)
    then show ?thesis using 2 single_pool(1) assms(3) by (simp add: locked_out_def budget_single admit_def)
  qed
qed

lemma admit_chunk_out:
  assumes "admit_chunk X ops a r c al = Inr (ret, r', a')"
    and pg: "0 < ad_page_size a" and dl: "dllm_block_size a = None" and al: "\<And>x. al = Some x \<Longrightarrow> 0 < x"
    and c: "c < ceil_paged_tokens a (cand_extend_input_len r)" "rem_chunk_tokens a = Some c"
  shows "locked_out X al ops a r ret r' a'"
proof -
  let ?p = "prefix_length r"
  obtain len where len: "chunk_length a c al ?p = Inr len" using assms(1) by (auto simp: admit_chunk_def rbind_eq_Inr)
  show ?thesis
  proof (cases len)
    case None
    then show ?thesis using assms(1) len by (auto simp: admit_chunk_def locked_out_def rejected_refl)
  next
    case (Some k)
    let ?r = "set_extend_range r ?p (?p + k)"
    have "0 \<le> ?p" by (simp add: prefix_length_def)
    note B = chunk_length_bounds [OF pg al this len [unfolded Some]]
    have "c div ad_page_size a * ad_page_size a \<le> c" using pg minus_mod_eq_div_mult [of c "ad_page_size a"] pos_mod_sign [of "ad_page_size a" c] by linarith
    then have "ad_page_size a \<le> ceil_paged_tokens a (cand_extend_input_len r) - c div ad_page_size a * ad_page_size a"
      using c(1) ceil_paged_bounds(3) [OF pg] by (intro zdvd_imp_le) simp_all
    then have k: "0 < k" "k < cand_extend_input_len r" using B(1,2) ceil_paged_bounds(2) [OF pg, of "cand_extend_input_len r"] by linarith+
    obtain stop where t: "check_prefill_tile_budget X a k = Inr stop" using assms(1) len Some by (auto simp: admit_chunk_def rbind_eq_Inr)
    show ?thesis
    proof (cases stop)
      case s: None
      obtain l s1 where i: "op_inc_lock ops (ad_cache a) (last_node r) = Inr (l, s1)"
        using assms(1) len Some t s by (auto simp: admit_chunk_def rbind_eq_Inr req_inc Let_def)
      have out: "ret = None" "r' = ?r"
        "a' = update_prefill_budget ops ((admit (a\<lparr>ad_cache := s1\<rparr>) ?r)\<lparr>new_chunked_req := Some ?r\<rparr>) ?p k 0 (retracted_stain ?r) 0
           (host_hit_length ?r) (storage_hit_length ?r)"
        using assms(1) unfolding admit_chunk_def len Some rbind_simps(2) option.case t s by (clarsimp simp: req_inc i no_gap Let_def)+
      have w: "\<not> whole_prefill ?r" using k(2) cand_prefix [of r] by (simp add: whole_prefill_def)
      have "admitted X al a a' r r'"
        unfolding admitted_def charge_def2
      proof (intro conjI)
        show "\<exists>k. r' = set_extend_range r ?p (?p + k) \<and> k \<le> cand_extend_input_len r \<and> (k < cand_extend_input_len r \<longrightarrow> 0 < k)"
          using out(2) k by (intro exI [of _ k]) simp
        have "c - c div ad_page_size a * ad_page_size a < ad_page_size a"
          using pg minus_mod_eq_div_mult [of c "ad_page_size a"] pos_mod_bound [of "ad_page_size a" c] by linarith
        then show "\<not> whole_prefill r' \<and> al = None \<longrightarrow> chunk_budget_exhausted a'"
          using B(4) c(2) single_pool(1) dl out by (auto simp: chunk_budget_exhausted_def budget_single admit_def ceil_paged_tokens_def)
      qed (use single_pool(1) dl w out in \<open>simp_all add: budget_single admit_def ceil_paged_tokens_def\<close>)
      then show ?thesis using out i single_pool(1) dl by (simp add: locked_out_def budget_single admit_def)
    next
      case s: (Some x)
      then show ?thesis using assms(1) len Some t tile_budget_stop [of X a k x] by (auto simp: admit_chunk_def locked_out_def rejected_refl)
    qed
  qed
qed

lemma locked_cases:
  assumes run: "add_one_req_locked X W ops a r tot real_input (rem_chunk_tokens a) al = Inr (ret, r', a')"
    and pg: "0 < ad_page_size a" and dl: "dllm_block_size a = None" and al: "\<And>x. al = Some x \<Longrightarrow> 0 < x" and host: "\<not> needs_host_load_back r"
  shows "locked_out X al ops a r ret r' a' \<and> (ret = None \<longrightarrow> of_int tot < rem_total_tokens ops a)"
proof (cases "rem_total_tokens ops a \<le> of_int tot")
  case True
  then show ?thesis using run by (auto simp: add_one_req_locked_def locked_out_def rejected_refl)
next
  case False
  have gate: "swa_gate X ops a r real_input (rem_chunk_tokens a) = Some (rem_chunk_tokens a)" using single_pool(1) by (simp add: swa_gate_def)
  obtain ok a1 where n: "negotiate W a = Inr (ok, a1)" using run False gate by (auto simp: add_one_req_locked_def rbind_eq_Inr)
  note N = negotiate_rejected [OF n]
  note S = rejected_sel [OF conjunct1 [OF N]]
  have lb: "load_back ops a1 r = Inr (r, a1)" using host by (simp add: load_back_def)
  let ?n = "ceil_paged_tokens a1 (cand_extend_input_len r)"
  note run1 = run [unfolded add_one_req_locked_def if_not_P [OF False] gate option.case n rbind_simps(2) prod.case lb Let_def S(8) dl]
  have "locked_out X al ops a1 r ret r' a'"
  proof (cases "ok \<and> \<not> (rem_chunk_tokens a1 = None \<and> can_run_list a1 \<noteq> [] \<and> ?n \<ge> rem_input_tokens a1)")
    case True
    have pg1: "0 < ad_page_size a1" "dllm_block_size a1 = None" using pg dl S by simp_all
    show ?thesis
    proof (cases "rem_chunk_tokens a")
      case None
      then show ?thesis using run1 True admit_whole_out [OF _ pg1] by auto
    next
      case (Some c)
      then show ?thesis
        using run1 True admit_whole_out [OF _ pg1] admit_chunk_out [OF _ pg1 al, of X r c] using S(3) by (cases "?n \<le> c") auto
    qed
  next
    case False
    then show ?thesis using run1 by (auto simp: locked_out_def rejected_refl split: if_splits)
  qed
  then show ?thesis using locked_out_rejected N False by auto
qed

lemma add_one_req_out:
  assumes inv: "inv h (ad_cache a)" and live: "live (ad_cache a) (last_node r)" and pg: "0 < ad_page_size a" and dl: "dllm_block_size a = None"
    and al: "\<And>x. al = Some x \<Longrightarrow> 0 < x" and host: "\<not> needs_host_load_back r" and eos: "\<not> (ignore_eos r \<and> op_disable ops (ad_cache a))"
    and run: "add_one_req X W ops a r al = Inr (res, r', a')"
  shows "(\<forall>m. live (ad_cache a') m = live (ad_cache a) m) \<and>
    (res \<noteq> CONTINUE \<and> r' = r \<and> rejected a a' \<and> inv h (ad_cache a') \<and>
        available_and_evictable ops (ad_cache a') = available_and_evictable ops (ad_cache a) \<or>
     admitted X al a a' r r' \<and> inv (held h (last_node r)) (ad_cache a') \<and>
        of_int (cand_extend_input_len r + remaining_new_tokens X r + ad_page_size a) < rem_total_tokens ops a \<and>
        of_int (cand_extend_input_len r + remaining_new_tokens X r + ad_page_size a) <
          of_int (available_and_evictable ops (ad_cache a')) - rem_total_token_offset a)"
proof -
  let ?tot = "cand_extend_input_len r + remaining_new_tokens X r + ad_page_size a + mamba_gap_budget_for_req ops r"
  let ?real = "ceil_paged_tokens a (cand_extend_input_len r - host_hit_length r)"
  have gate: "swa_gate X ops a r ?real (rem_chunk_tokens a) = Some (rem_chunk_tokens a)" using single_pool(1) by (simp add: swa_gate_def)
  obtain l s1 where i: "op_inc_lock ops (ad_cache a) (last_node r) = Inr (l, s1)" "inv (held h (last_node r)) s1"
    "\<And>m. live s1 m = live (ad_cache a) m" using inc [OF inv live] by blast
  let ?b = "a\<lparr>ad_cache := s1\<rparr>" and ?q = "if op_is_chunk_cache ops then None else Some l"
  consider "res \<noteq> CONTINUE" "r' = r" "a' = a"
    | ret a1 s2 where "of_int ?tot < rem_total_tokens ops a" "add_one_req_locked X W ops ?b r ?tot ?real (rem_chunk_tokens ?b) al = Inr (ret, r', a1)"
      "op_dec_lock ops (ad_cache a1) (last_node r) ?q = Inr s2" "a' = a1\<lparr>ad_cache := s2\<rparr>" "\<And>x. ret = Some x \<Longrightarrow> res = x"
    using run eos unfolding add_one_req_def Let_def gate option.case
    by (auto simp: i(1) rbind_eq_Inr split: if_splits)
  then show ?thesis
  proof cases
    case 1
    then show ?thesis using inv by (simp add: rejected_refl)
  next
    case 2
    note L = locked_cases [OF 2(2), simplified, OF pg dl al host]
    show ?thesis
    proof (cases ret)
      case None
      then have A: "admitted X al ?b a1 r r'" and i2: "\<exists>l2. op_inc_lock ops s1 (last_node r) = Inr (l2, ad_cache a1)"
        and lt: "of_int ?tot < rem_total_tokens ops ?b" using L by (auto simp: locked_out_def)
      obtain l2 where i2: "op_inc_lock ops s1 (last_node r) = Inr (l2, ad_cache a1)" using i2 by blast
      have live1: "live s1 (last_node r)" using live i(3) by simp
      from unlock [OF i(2) live1 i2, of ?q] 2(3) have u: "inv (held h (last_node r)) s2" "\<And>m. live s2 m = live s1 m"
        "available_and_evictable ops s2 = available_and_evictable ops s1" by auto
      have "admitted X al a a' r r'" using admitted_cache [OF A, of s2] by (simp add: 2(4))
      then show ?thesis using u i(3) lt no_gap 2(1) by (simp add: 2(4) rem_total_tokens_def)
    next
      case (Some x)
      then have R: "x \<noteq> CONTINUE" "r' = r" "rejected ?b a1" "ad_cache a1 = s1" "res = x" using L 2(5) by (auto simp: locked_out_def)
      from unlock [OF inv live i(1), of ?q] 2(3) R(4) have u: "inv h s2" "\<And>m. live s2 m = live (ad_cache a) m"
        "available_and_evictable ops s2 = available_and_evictable ops (ad_cache a)" by auto
      have "rejected a ?b" by (simp add: rejected_def)
      then have "rejected a a'" unfolding 2(4) by (intro rejected_cache rejected_trans [OF _ R(3)] rejected_refl)
      then show ?thesis using u R by (simp add: 2(4))
    qed
  qed
qed

end

text \<open>A request that starts afresh leaves less than one page of the budget overdrawn.\<close>

lemma admitted_charge:
  assumes ad: "admitted X al a a' r r'" and pg: "0 < ad_page_size a" and fresh: "fresh_req r" and clip: "0 \<le> clip_max_new_tokens X"
  shows "charge X (ad_page_size a) r' < cand_extend_input_len r + remaining_new_tokens X r + 2 * ad_page_size a"
proof -
  obtain k where k: "r' = set_extend_range r (prefix_length r) (prefix_length r + k)" "k \<le> cand_extend_input_len r"
    using ad unfolding admitted_def by blast
  have "remaining_new_tokens X r = min (max_new_tokens r) (clip_max_new_tokens X)" "0 \<le> remaining_new_tokens X r"
    using fresh clip by (simp_all add: remaining_new_tokens_def fresh_req_def)
  moreover have "max_new_tokens r' = max_new_tokens r" using k(1) by simp
  moreover have "ceil_paged_tokens a (extend_len r') < cand_extend_input_len r + ad_page_size a"
    using ceil_paged_bounds(2) [OF pg, of "extend_len r'"] k by simp
  ultimately show ?thesis unfolding charge_def2 by auto
qed

end
