(* ===== verification/PassFacts.thy ===== *)
theory PassFacts
  imports AdmitFacts "HOL-Library.Sublist"
begin

text \<open>
  The scheduling pass over a cache that keeps its contract: the requests it prepares, the loop of
  admissions, and what the pass leaves behind.
\<close>

section \<open>What stays of a request\<close>

definition same_core :: "sched_req \<Rightarrow> sched_req \<Rightarrow> bool" where
  "same_core r r' \<longleftrightarrow>
     rid r' = rid r \<and> origin_input_ids r' = origin_input_ids r \<and> output_ids r' = output_ids r \<and>
     max_new_tokens r' = max_new_tokens r \<and> ignore_eos r' = ignore_eos r \<and> req_dllm_config r' = req_dllm_config r \<and>
     holds_mamba r' = holds_mamba r \<and> req_beam_width r' = req_beam_width r \<and> req_priority r' = req_priority r"

definition plain_req :: "sched_req \<Rightarrow> bool" where
  "plain_req r \<longleftrightarrow> fresh_req r \<and> req_dllm_config r = None \<and> \<not> holds_mamba r"

lemma same_core_refl [simp]: "same_core r r"
  by (simp add: same_core_def)

lemma same_core_trans: "same_core r r1 \<Longrightarrow> same_core r1 r2 \<Longrightarrow> same_core r r2"
  by (simp add: same_core_def)

lemma same_core_plain: "same_core r r' \<Longrightarrow> plain_req r' = plain_req r"
  by (simp add: same_core_def plain_req_def fresh_req_def)

lemma same_core_upd [simp]:
  "same_core r (take_match m r)" "same_core r (set_extend_range r a b)" "same_core r (refresh_fill_ids r)"
  "same_core r (r\<lparr>mamba_cow_src_index := x, mamba_needs_clear := y\<rparr>)"
  by (simp_all add: same_core_def take_match_def set_extend_range_def refresh_fill_ids_def Let_def)

lemma next_round_ids_plain:
  assumes "req_dllm_config r = None"
  obtains r1 where "next_round_ids r = Inr r1" "same_core r r1" "full_untruncated_fill_ids r1 = full_untruncated_fill_ids (refresh_fill_ids r)"
  using assms by (auto simp: next_round_ids_def same_core_def refresh_fill_ids_def Let_def)

lemma admitted_core: "admitted X al a a' r r' \<Longrightarrow> same_core r r'"
  by (auto simp: admitted_def)

section \<open>One iteration of the loop\<close>

definition plain_cfg :: "'c pass_cfg \<Rightarrow> bool" where
  "plain_cfg F \<longleftrightarrow>
     \<not> cfg_priority_preemption F \<and> \<not> cfg_hicache_storage F \<and>
     (case cfg_truncation_align_size F of None \<Rightarrow> True | Some x \<Rightarrow> 0 < x)"

lemma make_room_plain:
  "plain_cfg F \<Longrightarrow> make_room X ops F a full r = Inr (go_on, full1, a1) \<Longrightarrow> a1 = a"
  by (auto simp: make_room_def plain_cfg_def rbind_eq_Inr Let_def split: if_splits)

lemma after_stop_plain:
  "\<not> holds_mamba r \<Longrightarrow> after_stop F res a full r = (r1, full1, a1) \<Longrightarrow>
   a1 = a \<and> same_core r r1 \<and> (can_run_list a \<noteq> [] \<and> last (can_run_list a) = r \<longrightarrow> r1 = r)"
  by (auto simp: after_stop_def Let_def split: if_splits)

lemma loop_iteration:
  assumes F: "plain_cfg F" and run: "admission_loop X W ops F (r # rs) a full loras = Inr (q', a', full')"
  obtains "q' = r # rs" "a' = a"
    | full1 loras1 rs1 where "admission_loop X W ops F rs a full1 loras1 = Inr (rs1, a', full')" "q' = r # rs1"
    | r2 s1 res r4 a4 where "\<not> chunk_budget_exhausted a" "init_next_round_input X ops (ad_cache a) r = Inr (r2, s1)"
      "add_one_req X W ops (a\<lparr>ad_cache := s1\<rparr>) r2 (cfg_truncation_align_size F) = Inr (res, r4, a4)"
      "(\<exists>full1 loras1 rs1. res = CONTINUE \<and> admission_loop X W ops F rs a4 full1 loras1 = Inr (rs1, a', full') \<and> q' = r4 # rs1) \<or>
       (\<exists>full1 r5 full2. res \<noteq> CONTINUE \<and> after_stop F res a4 full1 r4 = (r5, full2, a') \<and> q' = r5 # rs)"
proof -
  have P: "prefetched F b x = (Some x, b)" "staged_splice F b x = (x, b)" for b x
    using F by (simp_all add: prefetched_def staged_splice_def plain_cfg_def)
  consider "chunk_budget_exhausted a" | "\<not> chunk_budget_exhausted a" "cfg_enable_lora F \<and> \<not> can_schedule_lora_req F r loras"
    | "\<not> chunk_budget_exhausted a" "\<not> (cfg_enable_lora F \<and> \<not> can_schedule_lora_req F r loras)" by blast
  then show thesis
  proof cases
    case 1
    then show thesis using run that(1) by simp
  next
    case 2
    then show thesis using run that(2) by (auto simp: rbind_eq_Inr Let_def split: if_splits)
  next
    case 3
    obtain go_on full1 a1 where m: "make_room X ops F a full r = Inr (go_on, full1, a1)"
      using run 3 by (auto simp: rbind_eq_Inr Let_def)
    have a1: "a1 = a" by (rule make_room_plain [OF F m])
    note run1 = run [simplified admission_loop.simps Let_def, unfolded if_not_P [OF 3(1)] if_not_P [OF 3(2)] m a1 rbind_simps(2) prod.case P option.case]
    show thesis
    proof (cases go_on)
      case False
      then show thesis using run1 that(1) by simp
    next
      case True
      then obtain r2 s1 where i: "init_next_round_input X ops (ad_cache a) r = Inr (r2, s1)"
        using run1 by (auto simp: rbind_eq_Inr)
      obtain res r4 a4 where ad: "add_one_req X W ops (a\<lparr>ad_cache := s1\<rparr>) r2 (cfg_truncation_align_size F) = Inr (res, r4, a4)"
        using run1 True by (auto simp: rbind_eq_Inr i P)
      show thesis
      proof (rule that(3) [OF 3(1) i ad])
        show "(\<exists>full1 loras1 rs1. res = CONTINUE \<and> admission_loop X W ops F rs a4 full1 loras1 = Inr (rs1, a', full') \<and> q' = r4 # rs1) \<or>
          (\<exists>full1 r5 full2. res \<noteq> CONTINUE \<and> after_stop F res a4 full1 r4 = (r5, full2, a') \<and> q' = r5 # rs)"
          using run1 True by (cases "res = CONTINUE") (auto simp: rbind_eq_Inr i P ad split: prod.splits)
      qed
    qed
  qed
qed

section \<open>The loop\<close>

text \<open>What a run of the loop does to the adder when it admits the requests \<open>adm\<close>.\<close>

definition loop_out :: "sched_env \<Rightarrow> 'c prefill_adder \<Rightarrow> 'c prefill_adder \<Rightarrow> sched_req list \<Rightarrow> bool" where
  "loop_out X a a' adm \<longleftrightarrow>
     can_run_list a' = can_run_list a @ adm \<and>
     rem_total_token_offset a' = rem_total_token_offset a + of_int (sum_list (map (charge X (ad_page_size a)) adm)) \<and>
     ad_page_size a' = ad_page_size a \<and> ad_running a' = ad_running a \<and> preempt_list a' = preempt_list a \<and>
     dllm_block_size a' = dllm_block_size a"

lemma loop_out_refl: "loop_out X a a []"
  by (simp add: loop_out_def)

lemma loop_out_cache: "loop_out X (a\<lparr>ad_cache := s\<rparr>) a' adm = loop_out X a a' adm"
  by (simp add: loop_out_def)

lemma loop_out_admitted: "admitted X al a a1 r r' \<Longrightarrow> loop_out X a1 a' adm \<Longrightarrow> loop_out X a a' (r' # adm)"
  by (simp add: admitted_def loop_out_def)

lemma loop_out_rejected: "rejected a a1 \<Longrightarrow> loop_out X a1 a' adm \<Longrightarrow> loop_out X a a' adm"
  by (simp add: loop_out_def rejected_sel)

text \<open>The budget is never overdrawn by a page or more once a request was admitted.\<close>

definition within_budget :: "('c, 'l) cache_ops \<Rightarrow> 'c prefill_adder \<Rightarrow> 'c prefill_adder \<Rightarrow> sched_req list \<Rightarrow> bool" where
  "within_budget ops a a' adm \<longleftrightarrow>
     (if adm = [] then available_and_evictable ops (ad_cache a') = available_and_evictable ops (ad_cache a)
      else - of_int (ad_page_size a) < rem_total_tokens ops a')"

definition ok_req :: "('c, 'l) cache_ops \<Rightarrow> ('h \<Rightarrow> 'c \<Rightarrow> bool) \<Rightarrow> sched_req \<Rightarrow> bool" where
  "ok_req ops sinv r \<longleftrightarrow> plain_req r \<and> (ignore_eos r \<longrightarrow> (\<forall>h s. sinv h s \<longrightarrow> \<not> op_disable ops s))"

context prefix_contract
begin

text \<open>Preparing a request always succeeds; it then has a live handle and nothing on the host.\<close>

lemma round_input:
  assumes inv: "inv h s" and dl: "req_dllm_config r = None"
  obtains r2 s2 where "init_next_round_input X ops s r = Inr (r2, s2)" "same_core r r2" "inv h s2" "live s2 (last_node r2)"
    "available_and_evictable ops s2 = available_and_evictable ops s" "\<And>n. live s n \<Longrightarrow> live s2 n" "\<not> needs_host_load_back r2"
    "0 \<le> cand_extend_input_len r2"
proof -
  obtain r1 where r1: "next_round_ids r = Inr r1" "same_core r r1" by (rule next_round_ids_plain [OF dl])
  define ids where "ids = (if has_embed_overrides r1 then [] else full_untruncated_fill_ids r1)"
  obtain lm where k: "next_round_key ops r1 = req_key r1 ids lm" 
    by (cases "has_embed_overrides r1") (simp_all add: next_round_key_def Let_def ids_def)
  obtain m0 s1 where m: "op_match_prefix ops s (req_key r1 ids lm) = Inr (m0, s1)" "inv h s1"
    "available_and_evictable ops s1 = available_and_evictable ops s" "\<And>n. live s n \<Longrightarrow> live s1 n"
    "live s1 (fm_last_device_node m0)" "fm_host_hit_length m0 = 0" "fm_swa_host_hit_length m0 = 0" "fm_mamba_host_hit_length m0 = 0"
    "length (fm_device_indices m0) \<le> length (case lm of None \<Rightarrow> ids | Some l \<Rightarrow> take l ids)"
    using matched [OF inv, of r1 ids lm] by blast
  define m1 where "m1 = (if radix_force_miss X then zero_match_result ops s1 m0 else m0)"
  have m1: "live s1 (fm_last_device_node m1)" "fm_host_hit_length m1 = 0" "fm_swa_host_hit_length m1 = 0" "fm_mamba_host_hit_length m1 = 0"
    "length (fm_device_indices m1) \<le> length ids"
    using m(5-9) root [OF m(2)] by (auto simp: m1_def zero_match_result_def Let_def split: option.splits)
  have c: "same_core r (take_match m1 r1)" using same_core_trans [OF r1(2) same_core_upd(1)] .
  have n: "init_next_round_input X ops s r = Inr (take_match m1 r1, s1)"
    using dl c by (simp add: init_next_round_input_def r1(1) k m(1) m1_def [symmetric] Let_def same_core_def)
  have "length ids \<le> length (full_untruncated_fill_ids r1)" by (simp add: ids_def)
  then have "0 \<le> cand_extend_input_len (take_match m1 r1)"
    using m1(5) by (simp add: cand_extend_input_len_def prefix_length_def take_match_def)
  then show ?thesis
    using that [OF n c m(2) _ m(3,4)] m1 by (simp add: take_match_def needs_host_load_back_def)
qed

lemma admitted_within:
  assumes ad: "admitted X al a a' r r'" and pg: "0 < ad_page_size a" and fresh: "fresh_req r" and clip: "0 \<le> clip_max_new_tokens X"
    and lt: "of_int (cand_extend_input_len r + remaining_new_tokens X r + ad_page_size a) <
          of_int (available_and_evictable ops (ad_cache a')) - rem_total_token_offset a"
  shows "- of_int (ad_page_size a) < rem_total_tokens ops a'"
proof -
  have "of_int (charge X (ad_page_size a) r') < (of_int (cand_extend_input_len r + remaining_new_tokens X r + 2 * ad_page_size a) :: rat)"
    using admitted_charge [OF ad pg fresh clip] by (simp only: of_int_less_iff)
  moreover have "rem_total_token_offset a' = rem_total_token_offset a + of_int (charge X (ad_page_size a) r')" using ad by (simp add: admitted_def)
  ultimately show ?thesis using lt unfolding rem_total_tokens_def by simp
qed

text \<open>One iteration: the loop ends with nothing admitted, skips the request, or admits it.\<close>

lemma iteration:
  assumes F: "plain_cfg F" and clip: "0 \<le> clip_max_new_tokens X"
    and run: "admission_loop X W ops F (r # rs) a full loras = Inr (q', a', full')"
    and inv: "inv h (ad_cache a)" and pg: "0 < ad_page_size a" and dl: "dllm_block_size a = None" and ok: "ok_req ops inv r"
  obtains (stop) r5 where "q' = r5 # rs" "same_core r r5" "rejected a a'" "inv h (ad_cache a')"
      "available_and_evictable ops (ad_cache a') = available_and_evictable ops (ad_cache a)"
    | (skip) full1 loras1 rs1 where "admission_loop X W ops F rs a full1 loras1 = Inr (rs1, a', full')" "q' = r # rs1"
    | (admit) r2 r4 a4 where "admitted X (cfg_truncation_align_size F) a a4 r2 r4" "same_core r r4" "inv (held h (last_node r4)) (ad_cache a4)"
      "- of_int (ad_page_size a) < rem_total_tokens ops a4" "0 < rem_total_tokens ops a" "\<not> chunk_budget_exhausted a"
      "(\<exists>full1 loras1 rs1. admission_loop X W ops F rs a4 full1 loras1 = Inr (rs1, a', full') \<and> q' = r4 # rs1) \<or> a' = a4 \<and> q' = r4 # rs"
  using F run
proof (cases rule: loop_iteration)
  case 1
  then show thesis using inv stop [of r] by (simp add: rejected_refl)
next
  case (2 full1 loras1 rs1)
  then show thesis by (rule skip)
next
  case (3 r2 s1 res r4 a4)
  have al: "0 < x" if "cfg_truncation_align_size F = Some x" for x using F that by (simp add: plain_cfg_def)
  have cfg: "req_dllm_config r = None" "plain_req r" using ok by (simp_all add: ok_req_def plain_req_def)
  obtain r2' s1' where ri: "init_next_round_input X ops (ad_cache a) r = Inr (r2', s1')" "same_core r r2'" "inv h s1'" "live s1' (last_node r2')"
    "available_and_evictable ops s1' = available_and_evictable ops (ad_cache a)" "\<not> needs_host_load_back r2'" "0 \<le> cand_extend_input_len r2'"
    by (rule round_input [OF inv cfg(1), of X])
  have e: "r2' = r2" "s1' = s1" using ri(1) 3(2) by simp_all
  note ri = ri(2-) [unfolded e]
  have pr: "fresh_req r2" "\<not> holds_mamba r2" using same_core_plain [OF ri(1)] cfg(2) by (auto simp: plain_req_def)
  let ?a = "a\<lparr>ad_cache := s1\<rparr>"
  have b: "inv h (ad_cache ?a)" "live (ad_cache ?a) (last_node r2)" "0 < ad_page_size ?a" "dllm_block_size ?a = None"
    "\<not> (ignore_eos r2 \<and> op_disable ops (ad_cache ?a))"
    using ri(1-3) pg dl ok by (auto simp: ok_req_def same_core_def)
  from add_one_req_out [OF b(1-4) al ri(5) b(5) 3(3)] consider
    (rej) "res \<noteq> CONTINUE" "r4 = r2" "rejected ?a a4" "inv h (ad_cache a4)"
      "available_and_evictable ops (ad_cache a4) = available_and_evictable ops (ad_cache ?a)"
  | (adm) "admitted X (cfg_truncation_align_size F) ?a a4 r2 r4" "inv (held h (last_node r2)) (ad_cache a4)"
      "of_int (cand_extend_input_len r2 + remaining_new_tokens X r2 + ad_page_size ?a) < rem_total_tokens ops ?a"
      "of_int (cand_extend_input_len r2 + remaining_new_tokens X r2 + ad_page_size ?a) <
        of_int (available_and_evictable ops (ad_cache a4)) - rem_total_token_offset ?a" by blast
  then show thesis
  proof cases
    case o: rej
    obtain full1 r5 full2 where st: "after_stop F res a4 full1 r4 = (r5, full2, a')" "q' = r5 # rs" using 3(4) o(1) by blast
    have S: "a' = a4" "same_core r2 r5" using after_stop_plain [OF _ st(1), unfolded o(2), OF pr(2)] by simp_all
    have "rejected a ?a" by (simp add: rejected_def)
    then show thesis using stop [OF st(2) same_core_trans [OF ri(1) S(2)]] rejected_trans [OF _ o(3)] o(4,5) ri(4) S(1) by simp
  next
    case o: adm
    have w: "- of_int (ad_page_size a) < rem_total_tokens ops a4" using admitted_within [OF o(1) b(3) pr(1) clip o(4)] by simp
    have "0 \<le> remaining_new_tokens X r2" using clip by (simp add: remaining_new_tokens_def)
    then have "(0 :: rat) < of_int (cand_extend_input_len r2 + remaining_new_tokens X r2 + ad_page_size ?a)" using ri(6) pg by (simp only: of_int_0_less_iff) simp
    then have pos: "0 < rem_total_tokens ops a" using o(3) ri(4) by (simp add: rem_total_tokens_def)
    have ad: "admitted X (cfg_truncation_align_size F) a a4 r2 r4" using admitted_cache [OF o(1), of "ad_cache a4"] by simp
    have ln: "last_node r4 = last_node r2" "\<not> holds_mamba r4" "can_run_list a4 = can_run_list a @ [r4]"
      using ad pr(2) admitted_core [OF ad] by (auto simp: admitted_def same_core_def)
    have "(\<exists>full1 loras1 rs1. admission_loop X W ops F rs a4 full1 loras1 = Inr (rs1, a', full') \<and> q' = r4 # rs1) \<or> a' = a4 \<and> q' = r4 # rs"
      using 3(4) after_stop_plain [OF ln(2)] ln(3) by fastforce
    then show thesis using admit [OF ad same_core_trans [OF ri(1) admitted_core [OF ad]]] o(2) ln(1) w pos 3(1) by simp
  qed
qed

lemma loop_admits:
  assumes F: "plain_cfg F" and clip: "0 \<le> clip_max_new_tokens X"
  shows "admission_loop X W ops F q a full loras = Inr (q', a', full') \<Longrightarrow> inv h (ad_cache a) \<Longrightarrow> 0 < ad_page_size a \<Longrightarrow>
    dllm_block_size a = None \<Longrightarrow> \<forall>r \<in> set q. ok_req ops inv r \<Longrightarrow>
    \<exists>adm. loop_out X a a' adm \<and> inv (foldl held h (map last_node adm)) (ad_cache a') \<and> list_all2 same_core q q' \<and>
      subseq adm q' \<and> within_budget ops a a' adm"
proof (induction q arbitrary: a full loras h q')
  case Nil
  then show ?case by (intro exI [of _ "[]"]) (auto simp: loop_out_refl within_budget_def)
next
  case (Cons r rs)
  have r: "ok_req ops inv r" "\<forall>r \<in> set rs. ok_req ops inv r" using Cons.prems(5) by simp_all
  from F clip Cons.prems(1-4) r(1) show ?case
  proof (cases rule: iteration)
    case (stop r5)
    then show ?thesis using loop_out_rejected [OF stop(3) loop_out_refl]
      by (intro exI [of _ "[]"]) (simp add: within_budget_def list_all2_same)
  next
    case (skip full1 loras1 rs1)
    then show ?thesis using Cons.IH [OF skip(1) Cons.prems(2-4) r(2)] by (auto intro: list_emb.list_emb_Cons)
  next
    case (admit r2 r4 a4)
    have a4: "ad_page_size a4 = ad_page_size a" "dllm_block_size a4 = None" using admit(1) Cons.prems(4) by (simp_all add: admitted_def)
    from admit(7) show ?thesis
    proof (elim disjE exE conjE)
      fix full1 loras1 rs1 assume c: "admission_loop X W ops F rs a4 full1 loras1 = Inr (rs1, a', full')" "q' = r4 # rs1"
      obtain adm where IH: "loop_out X a4 a' adm" "inv (foldl held (held h (last_node r4)) (map last_node adm)) (ad_cache a')"
        "list_all2 same_core rs rs1" "subseq adm rs1" "within_budget ops a4 a' adm"
        using Cons.IH [OF c(1) admit(3) _ a4(2) r(2)] Cons.prems(3) a4(1) by auto
      have "- of_int (ad_page_size a) < rem_total_tokens ops a'"
        using IH(1,5) admit(4) a4(1) by (cases "adm = []") (simp_all add: within_budget_def rem_total_tokens_def loop_out_def)
      then show ?thesis
        using IH loop_out_admitted [OF admit(1) IH(1)] admit(2) c(2) by (intro exI [of _ "r4 # adm"]) (simp add: within_budget_def)
    next
      assume "a' = a4" "q' = r4 # rs"
      then show ?thesis
        using loop_out_admitted [OF admit(1) loop_out_refl] admit(2-4) by (intro exI [of _ "[r4]"]) (simp add: within_budget_def list_all2_same)
    qed
  qed
qed

text \<open>A request that is cut off ends the loop, so it is the only one and the last of the batch.\<close>

lemma loop_one_chunk:
  assumes F: "plain_cfg F" "cfg_truncation_align_size F = None" and clip: "0 \<le> clip_max_new_tokens X"
  shows "admission_loop X W ops F q a full loras = Inr (q', a', full') \<Longrightarrow> inv h (ad_cache a) \<Longrightarrow> 0 < ad_page_size a \<Longrightarrow>
    dllm_block_size a = None \<Longrightarrow> \<forall>r \<in> set q. ok_req ops inv r \<Longrightarrow>
    \<exists>adm cut. can_run_list a' = can_run_list a @ adm @ cut \<and> list_all whole_prefill adm \<and>
      (cut = [] \<and> new_chunked_req a' = new_chunked_req a \<or>
       (\<exists>c. cut = [c] \<and> \<not> whole_prefill c \<and> new_chunked_req a' = Some c \<and> 0 < rem_total_tokens ops a \<and> \<not> chunk_budget_exhausted a))"
proof (induction q arbitrary: a full loras h q')
  case Nil
  then show ?case by simp
next
  case (Cons r rs)
  have r: "ok_req ops inv r" "\<forall>r \<in> set rs. ok_req ops inv r" using Cons.prems(5) by simp_all
  from F(1) clip Cons.prems(1-4) r(1) show ?case
  proof (cases rule: iteration)
    case (stop r5)
    then show ?thesis using rejected_sel(1,4) [OF stop(3)] by auto
  next
    case (skip full1 loras1 rs1)
    then show ?thesis using Cons.IH [OF skip(1) Cons.prems(2-4) r(2)] by blast
  next
    case (admit r2 r4 a4)
    have a4: "ad_page_size a4 = ad_page_size a" "dllm_block_size a4 = None" "can_run_list a4 = can_run_list a @ [r4]"
      "new_chunked_req a4 = (if whole_prefill r4 then new_chunked_req a else Some r4)" "\<not> whole_prefill r4 \<Longrightarrow> chunk_budget_exhausted a4"
      using admit(1) F(2) Cons.prems(4) by (simp_all add: admitted_def)
    show ?thesis
    proof (cases "whole_prefill r4")
      case True
      from admit(7) show ?thesis
      proof (elim disjE exE conjE)
        fix full1 loras1 rs1 assume c: "admission_loop X W ops F rs a4 full1 loras1 = Inr (rs1, a', full')" "q' = r4 # rs1"
        have pg4: "0 < ad_page_size a4" using Cons.prems(3) a4(1) by simp
        from Cons.IH [OF c(1) admit(3) pg4 a4(2) r(2)] obtain adm cut where IH: "can_run_list a' = can_run_list a4 @ adm @ cut" "list_all whole_prefill adm"
          "cut = [] \<and> new_chunked_req a' = new_chunked_req a4 \<or> (\<exists>c. cut = [c] \<and> \<not> whole_prefill c \<and> new_chunked_req a' = Some c)"
          by blast
        then show ?thesis using True a4(3,4) admit(5,6) by (intro exI [of _ "r4 # adm"] exI [of _ cut]) auto
      next
        assume "a' = a4"
        then show ?thesis using True a4(3,4) by (intro exI [of _ "[r4]"] exI [of _ "[]"]) simp
      qed
    next
      case False
      have "a' = a4"
        using admit(7) a4(5) [OF False] by (cases rs) auto
      then show ?thesis using False a4(3,4) admit(5,6) by (intro exI [of _ "[]"] exI [of _ "[r4]"]) simp
    qed
  qed
qed

text \<open>The chunked request of the last pass. When it is cut off again, nothing else can be admitted.\<close>

lemma chunked_out:
  assumes run: "add_chunked_req X W ops a r = Inr (res, a1)" and dl: "dllm_block_size a = None" and pg: "0 < ad_page_size a"
  obtains r1 where "can_run_list a1 = can_run_list a @ [r1]" "same_core r r1" "ad_cache a1 = ad_cache a" "ad_page_size a1 = ad_page_size a"
    "new_chunked_req a1 = new_chunked_req a" "dllm_block_size a1 = None" "ad_running a1 = ad_running a" "preempt_list a1 = preempt_list a"
    "res \<noteq> None \<Longrightarrow> chunk_budget_exhausted a1 \<or> rem_total_tokens ops a1 \<le> 0"
proof -
  obtain chunk where ch: "rem_chunk_tokens a = Some chunk" using run dl by (auto simp: add_chunked_req_def rbind_eq_Inr of_option_def split: option.splits)
  define rem where "rem = (let rem0 = min chunk (py_int (rem_total_tokens ops a)) in if rem0 \<le> 0 then chunk else rem0)"
  have sp: "\<not> op_is_hybrid_swa ops" by (rule single_pool)
  obtain ok b where n: "negotiate W a = Inr (ok, b)"
    using run dl ch sp by (auto simp: add_chunked_req_def rbind_eq_Inr of_option_def Let_def split: if_splits)
  have N: "rejected a b" "ad_cache b = ad_cache a" using negotiate_rejected [OF n] by simp_all
  note S = rejected_sel [OF N(1)]
  let ?k = "min (cand_extend_input_len r) rem"
  let ?r = "set_extend_range r (prefix_length r) (prefix_length r + ?k)"
  let ?new = "if cand_extend_input_len r > rem then 0 else min (max_new_tokens r) (clip_max_new_tokens X)"
  have "(let rem0 = min chunk (py_int (rem_total_tokens ops a));
            rem = (if op_is_hybrid_swa ops then min rem0 (rem_swa_tokens ops a - ad_page_size a) else rem0)
        in Inr (if rem \<le> 0 then (if op_is_hybrid_swa ops then None else Some chunk) else Some rem)) = (Inr (Some rem) :: int option result)"
    using sp by (simp add: rem_def Let_def)
  note run1 = run [unfolded add_chunked_req_def dl option.case ch of_option_def rbind_simps(2) this n prod.case, unfolded Let_def sum.inject prod.inject]
  have a1: "a1 = update_prefill_budget ops (admit b ?r) 0 ?k ?new (retracted_stain r) 0 0 0"
    "res = (if cand_extend_input_len r > rem then Some ?r else None)"
    using run1 by (simp_all add: no_gap)
  have sel: "rem_total_token_offset a1 = rem_total_token_offset a + of_int (ceil_paged_tokens a ?k + ?new + ad_page_size a)"
    "can_run_list a1 = can_run_list a @ [?r]" "rem_chunk_tokens a1 = Some (chunk - ceil_paged_tokens a ?k)"
    "new_chunked_req a1 = new_chunked_req a" "ad_page_size a1 = ad_page_size a" "dllm_block_size a1 = None" "ad_cache a1 = ad_cache a"
    "ad_running a1 = ad_running a" "preempt_list a1 = preempt_list a"
    unfolding a1(1) using sp dl S N(2) ch by (simp_all add: budget_single admit_def ceil_paged_tokens_def)
  have "chunk_budget_exhausted a1 \<or> rem_total_tokens ops a1 \<le> 0" if "res \<noteq> None"
  proof -
    have k: "?k = rem" "?new = 0" using that a1(2) by (auto split: if_splits)
    note up = ceil_paged_bounds(1) [OF pg, of rem]
    have "rem = chunk \<or> rem = py_int (rem_total_tokens ops a)" by (simp add: rem_def Let_def min_def)
    then consider "rem = chunk" | "rem = py_int (rem_total_tokens ops a)" by blast
    then show ?thesis
    proof cases
      case 1
      then have "chunk - ceil_paged_tokens a ?k < ad_page_size a" unfolding k(1) using up pg by simp
      then show ?thesis by (simp add: chunk_budget_exhausted_def sel(3,5))
    next
      case 2
      have "rem_total_tokens ops a < of_int rem + 1" unfolding 2 by (rule py_int_less)
      moreover have "of_int (rem + 1) \<le> (of_int (ceil_paged_tokens a rem + ad_page_size a) :: rat)" using up pg by (simp only: of_int_le_iff)
      ultimately have "rem_total_tokens ops a1 \<le> 0" unfolding rem_total_tokens_def sel(1,7) k by simp
      then show ?thesis by blast
    qed
  qed
  then show ?thesis using that [OF sel(2) _ sel(7,5,4,6,8,9)] by simp
qed

end

end
