(* ===== verification/PolicyFacts.thy ===== *)
theory PolicyFacts
  imports PassFacts
begin

text \<open>
  The order of the waiting queue: sorting keeps every request and is stable, looking requests up
  keeps the contract of the cache, and a request is put off only for one in front of it that
  computes the same prefix.
\<close>

section \<open>Sorting with a key that can raise\<close>

definition key_of :: "('a \<Rightarrow> 'b result) \<Rightarrow> 'a \<Rightarrow> 'b" where
  "key_of f x = projr (f x)"

lemma insort_zip: "insort_key fst (f x, x) (map (\<lambda>y. (f y, y)) ys) = map (\<lambda>y. (f y, y)) (insort_key f x ys)"
  by (induction ys) auto

lemma sort_zip: "sort_key fst (map (\<lambda>y. (f y, y)) xs) = map (\<lambda>y. (f y, y)) (sort_key f xs)"
  by (induction xs) (simp_all add: insort_zip)

lemma map_result_Inr: "map_result f xs = Inr ks \<longleftrightarrow> (\<forall>x \<in> set xs. f x = Inr (key_of f x)) \<and> ks = map (key_of f) xs"
proof (induction xs arbitrary: ks)
  case (Cons x xs)
  then show ?case by (auto simp: rbind_eq_Inr key_of_def)
qed auto

lemma sort_by_Inr: "sort_by f xs = Inr ys \<longleftrightarrow> (\<forall>x \<in> set xs. f x = Inr (key_of f x)) \<and> ys = sort_key (key_of f) xs"
proof -
  have "zip (map (key_of f) xs) xs = map (\<lambda>y. (key_of f y, y)) xs" by (induction xs) simp_all
  then have "map snd (sort_key fst (zip (map (key_of f) xs) xs)) = sort_key (key_of f) xs" by (simp add: sort_zip comp_def)
  then show ?thesis by (auto simp: sort_by_def rbind_eq_Inr map_result_Inr)
qed

section \<open>Lookups of the queue\<close>

lemma same_core_opt [simp]:
  "same_core r (case x of None \<Rightarrow> r' | Some b \<Rightarrow> r'\<lparr>mamba_branching_seqlen := Some b\<rparr>) = same_core r r'"
  "same_core r (case y of None \<Rightarrow> r' | Some n \<Rightarrow> r'\<lparr>cache_protected_len := n\<rparr>) = same_core r r'"
  "same_core r (r'\<lparr>num_matched_prefix_tokens := t\<rparr>) = same_core r r'"
  "same_core r (r\<lparr>prefix_indices := a1, last_node := a2, last_host_node := a3, best_match_node := a4, host_hit_length := a5,
     swa_host_hit_length := a6, mamba_host_hit_length := a7\<rparr>)"
  by (cases x, simp_all add: same_core_def) (cases y, simp_all add: same_core_def)

lemma match_req_core:
  assumes "match_prefix_for_req X ops s r given = Inr (m, r1, s1)"
  shows "same_core r r1" "\<exists>ids lm m0. op_match_prefix ops s (req_key r ids lm) = Inr (m0, s1)"
proof -
  define ids where "ids = (case given of Some t \<Rightarrow> t | None \<Rightarrow> origin_input_ids r @ output_ids r)"
  define lm where "lm = (if op_swa_reprefill_tail ops \<noteq> 0 then Some (length ids - op_swa_reprefill_tail ops) else None)"
  note run = assms [unfolded match_prefix_for_req_def Let_def, folded ids_def, folded lm_def]
  obtain m0 s2 where m: "op_match_prefix ops s (req_key r ids lm) = Inr (m0, s2)" using run by (auto simp: rbind_eq_Inr)
  have "s1 = s2" and r1: "r1 = snd (m, r1)" using run unfolding m rbind_simps(2) prod.case by simp_all
  then show "\<exists>ids lm m0. op_match_prefix ops s (req_key r ids lm) = Inr (m0, s1)" using m by blast
  from run [unfolded m rbind_simps(2) prod.case sum.inject prod.inject] show "same_core r r1" by (elim conjE) (hypsubst, simp)
qed

definition kept :: "('c, 'l) cache_ops \<Rightarrow> ('h \<Rightarrow> 'c \<Rightarrow> bool) \<Rightarrow> 'h \<Rightarrow> 'c \<Rightarrow> 'c \<Rightarrow> bool" where
  "kept ops sinv h s s' \<longleftrightarrow> sinv h s' \<and> available_and_evictable ops s' = available_and_evictable ops s"

definition reordered :: "sched_req list \<Rightarrow> sched_req list \<Rightarrow> bool" where
  "reordered q q' \<longleftrightarrow> (\<exists>p. list_all2 same_core q p \<and> mset q' = mset p)"

lemma reordered_refl: "reordered q q"
  unfolding reordered_def by (intro exI [of _ q]) (simp add: list_all2_same)

lemma reordered_perm: "list_all2 same_core q p \<Longrightarrow> mset q' = mset p \<Longrightarrow> reordered q q'"
  by (auto simp: reordered_def)

lemma same_core_rids: "list_all2 same_core q p \<Longrightarrow> map rid p = map rid q"
  by (induction rule: list_all2_induct) (simp_all add: same_core_def)

lemma reordered_rids: "reordered q q' \<Longrightarrow> mset (map rid q') = mset (map rid q)"
  by (auto simp: reordered_def dest!: same_core_rids) (metis mset_map)

lemma reordered_ok:
  assumes "reordered q q'" "\<forall>r \<in> set q. ok_req ops sinv r"
  shows "\<forall>r \<in> set q'. ok_req ops sinv r"
proof
  fix r assume "r \<in> set q'"
  then obtain p where p: "list_all2 same_core q p" "r \<in> set p" using assms(1) by (auto simp: reordered_def dest: mset_eq_setD)
  then obtain i where i: "i < length p" "r = p ! i" by (auto simp: in_set_conv_nth)
  then have c: "same_core (q ! i) r" "q ! i \<in> set q" using p(1) by (auto simp: list_all2_conv_all_nth)
  have "ok_req ops sinv (q ! i)" using assms(2) c(2) by blast
  moreover have "ignore_eos r = ignore_eos (q ! i)" using c(1) by (simp add: same_core_def)
  ultimately show "ok_req ops sinv r" using same_core_plain [OF c(1)] by (simp add: ok_req_def)
qed

context prefix_contract
begin

lemma match_req:
  assumes "inv h s" "match_prefix_for_req X ops s r given = Inr (m, r1, s1)"
  shows "kept ops inv h s s1 \<and> same_core r r1"
proof -
  obtain ids lm m0 where "op_match_prefix ops s (req_key r ids lm) = Inr (m0, s1)" using match_req_core(2) [OF assms(2)] by blast
  then show ?thesis using matched [OF assms(1), of r ids lm] match_req_core(1) [OF assms(2)] by (auto simp: kept_def)
qed

lemma match_all_kept: "inv h s \<Longrightarrow> match_all X ops s q = Inr (q1, s1) \<Longrightarrow> kept ops inv h s s1 \<and> list_all2 same_core q q1"
proof (induction q arbitrary: s q1)
  case (Cons r rs)
  from Cons.prems(2) obtain m r1 s2 rs1 where s: "match_prefix_for_req X ops s r None = Inr (m, r1, s2)" "match_all X ops s2 rs = Inr (rs1, s1)" "q1 = r1 # rs1"
    by (auto simp: rbind_eq_Inr)
  have k: "kept ops inv h s s2" "same_core r r1" using match_req [OF Cons.prems(1) s(1)] by simp_all
  then show ?case using Cons.IH [OF _ s(2)] s(3) by (auto simp: kept_def)
qed (simp add: kept_def)

lemma matches_loop_kept:
  "inv h s \<Longrightarrow> prefix_matches_loop E X ops s tree q = Inr (D, q1, s1, tree1) \<Longrightarrow> kept ops inv h s s1 \<and> list_all2 same_core q q1"
proof (induction q arbitrary: s q1 D tree)
  case (Cons r rs)
  from Cons.prems(2) obtain m r1 s2 tree2 D1 rs1 where s: "match_prefix_for_req X ops s r (Some (origin_input_ids r @ output_ids r)) = Inr (m, r1, s2)"
    "prefix_matches_loop E X ops s2 tree2 rs = Inr (D1, rs1, s1, tree1)" "q1 = r1 # rs1"
    by (auto simp: rbind_eq_Inr Let_def split: prod.splits)
  have k: "kept ops inv h s s2" "same_core r r1" using match_req [OF Cons.prems(1) s(1)] by simp_all
  then show ?case using Cons.IH [OF _ s(2)] s(3) by (auto simp: kept_def)
qed (simp add: kept_def)

text \<open>The order of the depth-first policy comes from the tree; the others permute the queue.\<close>

lemma calc_priority_kept:
  assumes inv: "inv h s" and sh: "\<And>q. mset (shuffle q) = mset q" and p: "sp_policy sp \<noteq> DFS_WEIGHT"
    and run: "calc_priority E X shuffle ops sp s q running = Inr (q', s', sp')"
  shows "kept ops inv h s s' \<and> reordered q q'"
proof -
  let ?p = "determine_active_policy sp q"
  have pol: "?p = LPM \<or> \<not> is_cache_aware ?p" using p by (auto simp: determine_active_policy_def is_cache_aware_def)
  obtain q1 s1 where m: "(if \<not> is_cache_aware ?p \<and> op_supports_fast_match ops \<and> \<not> is_decode_server X then match_all X ops s q else Inr (q, s)) = Inr (q1, s1)"
    using run unfolding calc_priority_def Let_def by (auto simp: rbind_eq_Inr)
  have k: "kept ops inv h s s1" "list_all2 same_core q q1"
    using m match_all_kept [OF inv] inv by (auto simp: kept_def list_all2_same split: if_splits)
  note run1 = run [unfolded calc_priority_def Let_def m rbind_simps(2) prod.case]
  show ?thesis
  proof (cases "sp_policy sp \<noteq> FCFS \<and> ?p = LPM")
    case True
    then obtain D q2 sp1 where c: "prefix_matches_loop E X ops s1 (reset E (waiting_queue_radix_tree sp)) q1 = Inr (D, q2, s', sp1)"
      "q' = sort_by_longest_prefix q2 D"
      using run1 by (auto simp: is_cache_aware_def compute_prefix_matches_def rbind_eq_Inr split: if_splits)
    have "kept ops inv h s s'" "list_all2 same_core q1 q2" using matches_loop_kept [OF _ c(1)] k(1) by (auto simp: kept_def)
    moreover have "list_all2 same_core q q2" using list_all2_trans [OF same_core_trans k(2) \<open>list_all2 same_core q1 q2\<close>] .
    ultimately show ?thesis using c(2) by (auto simp: sort_by_longest_prefix_def intro: reordered_perm)
  next
    case False
    then have "s' = s1 \<and> mset q' = mset q1"
      using run1 pol sh
      by (auto simp: rbind_eq_Inr sort_by_priority_and_fcfs_def sort_by_longest_output_def sort_by_Inr sort_by_routing_key_def is_cache_aware_def
          split: if_splits policy.splits option.splits)
    then show ?thesis using k reordered_perm by blast
  qed
qed

end

section \<open>The pass\<close>

definition pass_adder :: "sched_env \<Rightarrow> ('c, 'l) cache_ops \<Rightarrow> 'c pass_cfg \<Rightarrow> adder_args \<Rightarrow> 'c pass_state \<Rightarrow> 'c \<Rightarrow> sched_req list \<Rightarrow> 'c prefill_adder" where
  "pass_adder X ops F g st s q =
     new_prefill_adder X ops (cfg_page_size F) s (Some (ps_running st)) (cfg_new_token_ratio F)
       (g\<lparr>arg_rem_chunk_tokens := pass_chunk_size F (ps_chunked_req st),
          arg_num_mixed_decode_tokens := (if cfg_is_mixed_chunk F then int (length (ps_running st)) else 0),
          arg_waiting_len := int (length q)\<rparr>)"

text \<open>What the running requests may still take from the pool, and the tokens of a mixed batch.\<close>

definition running_reserve :: "sched_env \<Rightarrow> 'c pass_cfg \<Rightarrow> 'c pass_state \<Rightarrow> rat" where
  "running_reserve X F st =
     of_int (if cfg_is_mixed_chunk F then int (length (ps_running st)) else 0) +
     sum_list (map (running_token_offset X (cfg_new_token_ratio F)) (ps_running st))"

lemma pass_adder_sel:
  "ad_cache (pass_adder X ops F g st s q) = s" "ad_page_size (pass_adder X ops F g st s q) = cfg_page_size F"
  "can_run_list (pass_adder X ops F g st s q) = []" "new_chunked_req (pass_adder X ops F g st s q) = None"
  "preempt_list (pass_adder X ops F g st s q) = []" "ad_running (pass_adder X ops F g st s q) = Some (ps_running st)"
  "dllm_block_size (pass_adder X ops F g st s q) = map_option fst (arg_dllm_config g)"
  "rem_total_token_offset (pass_adder X ops F g st s q) = running_reserve X F st"
  by (simp_all add: pass_adder_def new_prefill_adder_def running_reserve_def Let_def)

text \<open>The pass either stops without touching the queue's requests, or runs the loop on the ordered queue.\<close>

lemma pass_cases:
  assumes "get_new_batch_prefill_raw E X W shuffle ops F g st = Inr (batch, st')"
  obtains (early) "batch = None" "ps_waiting st' = ps_waiting st" "ps_cache st' = ps_cache st" "ps_running st' = ps_running st" "ps_chunked_req st' = ps_chunked_req st"
    | (retract) q s1 sp1 where "calc_priority E X shuffle ops (ps_policy st) (ps_cache st) (ps_waiting st) (Some (ps_running st)) = Inr (q, s1, sp1)"
      "batch = None" "ps_waiting st' = q" "ps_cache st' = s1" "ps_running st' = ps_running st" "ps_chunked_req st' = ps_chunked_req st"
    | (loop) q s1 sp1 chunked a1 full0 loras q1 a2 full1 st1 where
      "calc_priority E X shuffle ops (ps_policy st) (ps_cache st) (ps_waiting st) (Some (ps_running st)) = Inr (q, s1, sp1)"
      "pass_chunked_req X W ops (pass_adder X ops F g st s1 q) (ps_chunked_req st) = Inr (chunked, a1)"
      "admission_loop X W ops F q a1 full0 loras = Inr (q1, a2, full1)" "pass_finish F st1 q1 a2 full1 chunked = Inr (batch, st')"
proof -
  obtain stop full0 where e: "pass_stops_early F st = Inr (stop, full0)" using assms by (auto simp: get_new_batch_prefill_raw_def rbind_eq_Inr)
  show thesis
  proof (cases stop)
    case True
    then show thesis using assms e early by (auto simp: get_new_batch_prefill_raw_def)
  next
    case False
    obtain q s1 sp1 where c: "calc_priority E X shuffle ops (ps_policy st) (ps_cache st) (ps_waiting st) (Some (ps_running st)) = Inr (q, s1, sp1)"
      using assms e False by (auto simp: get_new_batch_prefill_raw_def rbind_eq_Inr)
    note run = assms [unfolded get_new_batch_prefill_raw_def e rbind_simps(2) prod.case if_not_P [OF False] c Let_def, folded pass_adder_def]
    show thesis
    proof (cases "case cfg_test_retract_no_prefill_bs F of None \<Rightarrow> False | Some b \<Rightarrow> b < int (length (ps_running st))")
      case True
      then show thesis using run retract [OF c] by auto
    next
      case False
      then show thesis using run loop [OF c] by (auto simp: rbind_eq_Inr)
    qed
  qed
qed

end
