(* ===== verification/PassProps.thy ===== *)
theory PassProps
  imports PolicyFacts
begin

text \<open>
  Properties of a whole scheduling pass over a prefix cache that keeps its contract: what it admits
  fits in the pool, every request is either in the batch or still in the queue, and at most one
  request of a batch is cut off.
\<close>

section \<open>The pass over a cache that keeps its contract\<close>

lemma subseq_set: "subseq xs ys \<Longrightarrow> set xs \<subseteq> set ys"
  by (induction rule: list_emb.induct) auto

lemma subseq_filter: "subseq adm q \<Longrightarrow> distinct (map rid q) \<Longrightarrow> mset adm + mset (filter (\<lambda>x. rid x \<notin> rid ` set adm) q) = mset q"
proof (induction rule: list_emb.induct)
  case (list_emb_Nil ys)
  then show ?case by simp
next
  case (list_emb_Cons xs ys y)
  have "rid ` set xs \<subseteq> rid ` set ys" using subseq_set [OF list_emb_Cons.hyps] by (rule image_mono)
  then have "rid y \<notin> rid ` set xs" using list_emb_Cons.prems by auto
  then show ?case using list_emb_Cons.IH list_emb_Cons.prems by simp
next
  case (list_emb_Cons2 x y xs ys)
  have "filter (\<lambda>z. rid z \<notin> rid ` set (x # xs)) ys = filter (\<lambda>z. rid z \<notin> rid ` set xs) ys"
    using list_emb_Cons2.prems list_emb_Cons2.hyps(1) by (intro filter_cong) (auto simp: image_iff)
  then show ?case using list_emb_Cons2.IH list_emb_Cons2.prems list_emb_Cons2.hyps(1) by simp
qed

lemma reordered_core:
  assumes "reordered q q1" "list_all2 same_core q1 q2"
  shows "reordered q q2"
proof -
  obtain p where p: "list_all2 same_core q p" "mset q1 = mset p" using assms(1) by (auto simp: reordered_def)
  obtain p2 where p2: "list_all2 same_core p p2" "mset p2 = mset q2"
    using list_all2_reorder_left_invariance [OF assms(2) p(2) [symmetric]] by blast
  have "list_all2 same_core q p2" by (rule list_all2_trans [OF same_core_trans p(1) p2(1)])
  then show ?thesis using p2(2) by (simp add: reordered_perm)
qed

context prefix_contract
begin

lemma pass_chunked_out:
  assumes run: "pass_chunked_req X W ops a c0 = Inr (chunked, a1)" and dl: "dllm_block_size a = None" and pg: "0 < ad_page_size a"
    and c0: "\<And>c. c0 = Some c \<Longrightarrow> req_dllm_config c = None"
  obtains cs where "can_run_list a1 = can_run_list a @ cs" "map rid cs = (case c0 of None \<Rightarrow> [] | Some c \<Rightarrow> [rid c])"
    "ad_cache a1 = ad_cache a" "ad_page_size a1 = ad_page_size a"
    "new_chunked_req a1 = new_chunked_req a" "dllm_block_size a1 = None" "ad_running a1 = ad_running a" "preempt_list a1 = preempt_list a"
    "chunked \<noteq> None \<Longrightarrow> chunk_budget_exhausted a1 \<or> rem_total_tokens ops a1 \<le> 0" "c0 = None \<Longrightarrow> chunked = None \<and> a1 = a"
proof (cases c0)
  case None
  then have e: "chunked = None" "a1 = a" using run by (simp_all add: pass_chunked_req_def)
  show ?thesis by (rule that [of "[]"]) (simp_all add: e None dl)
next
  case (Some c)
  obtain r1 where r1: "next_round_ids c = Inr r1" "same_core c r1" by (rule next_round_ids_plain [OF c0 [OF Some]])
  have "add_chunked_req X W ops a r1 = Inr (chunked, a1)" using run Some r1(1) by (simp add: pass_chunked_req_def)
  from chunked_out [OF this dl pg] obtain r2 where C: "can_run_list a1 = can_run_list a @ [r2]" "same_core r1 r2" "ad_cache a1 = ad_cache a"
    "ad_page_size a1 = ad_page_size a" "new_chunked_req a1 = new_chunked_req a" "dllm_block_size a1 = None" "ad_running a1 = ad_running a"
    "preempt_list a1 = preempt_list a" "chunked \<noteq> None \<Longrightarrow> chunk_budget_exhausted a1 \<or> rem_total_tokens ops a1 \<le> 0" by metis
  have "rid r2 = rid c" using r1(2) C(2) by (simp add: same_core_def)
  then have m: "map rid [r2] = (case c0 of None \<Rightarrow> [] | Some c \<Rightarrow> [rid c])" using Some by simp
  show ?thesis by (rule that [OF C(1) m C(3-9)]) (simp_all add: Some)
qed

lemma pass_admits:
  assumes F: "plain_cfg F" "0 < cfg_page_size F" and clip: "0 \<le> clip_max_new_tokens X" and g: "arg_dllm_config g = None"
    and inv: "inv h (ps_cache st)" and ok: "\<forall>r \<in> set (ps_waiting st). ok_req ops inv r"
    and ch: "\<forall>c. ps_chunked_req st = Some c \<longrightarrow> req_dllm_config c = None"
    and sh: "\<And>q. mset (shuffle q) = mset q" and p: "sp_policy (ps_policy st) \<noteq> DFS_WEIGHT"
    and run: "get_new_batch_prefill_raw E X W shuffle ops F g st = Inr (batch, st')"
  shows "\<exists>cs adm q. batch = (if cs @ adm = [] then None else Some (cs @ adm)) \<and> reordered (ps_waiting st) q \<and> subseq adm q \<and>
    ps_waiting st' = filter (\<lambda>x. rid x \<notin> rid ` set (cs @ adm)) q \<and> (cs = [] \<or> (\<exists>c. ps_chunked_req st = Some c \<and> map rid cs = [rid c])) \<and>
    inv (foldl held h (map last_node adm)) (ps_cache st') \<and>
    (adm \<noteq> [] \<and> ps_chunked_req st = None \<longrightarrow>
      running_reserve X F st + of_int (sum_list (map (charge X (cfg_page_size F)) adm)) <
        of_int (available_and_evictable ops (ps_cache st') + cfg_page_size F))"
  using run
proof (cases rule: pass_cases)
  case early
  then show ?thesis using inv by (intro exI [of _ "[]"] exI [of _ "ps_waiting st"]) (simp add: reordered_refl)
next
  case (retract q s1 sp1)
  have "kept ops inv h (ps_cache st) s1 \<and> reordered (ps_waiting st) q" by (rule calc_priority_kept [OF inv sh p retract(1)])
  then show ?thesis using retract by (intro exI [of _ "[]"] exI [of _ q]) (simp add: kept_def)
next
  case (loop q s1 sp1 chunked a1 full0 loras q1 a2 full1 st1)
  let ?a = "pass_adder X ops F g st s1 q"
  have K: "inv h s1" "reordered (ps_waiting st) q" using calc_priority_kept [OF inv sh p loop(1)] by (simp_all add: kept_def)
  have a: "dllm_block_size ?a = None" "0 < ad_page_size ?a" using g F(2) by (simp_all add: pass_adder_sel)
  from pass_chunked_out [OF loop(2) a ch [rule_format]] obtain cs where C: "can_run_list a1 = can_run_list ?a @ cs" "map rid cs = (case ps_chunked_req st of None \<Rightarrow> [] | Some c \<Rightarrow> [rid c])"
    "ad_cache a1 = ad_cache ?a" "ad_page_size a1 = ad_page_size ?a" "dllm_block_size a1 = None" "preempt_list a1 = preempt_list ?a"
    "ps_chunked_req st = None \<Longrightarrow> chunked = None \<and> a1 = ?a" by metis
  have c: "can_run_list a1 = cs" "ad_cache a1 = s1" "ad_page_size a1 = cfg_page_size F" "preempt_list a1 = []"
    using C(1,3,4,6) by (simp_all add: pass_adder_sel)
  obtain adm where L: "loop_out X a1 a2 adm" "inv (foldl held h (map last_node adm)) (ad_cache a2)" "list_all2 same_core q q1" "subseq adm q1"
    "within_budget ops a1 a2 adm"
    using loop_admits [OF F(1) clip loop(3), of h] K(1) c(2,3) C(5) F(2) reordered_ok [OF K(2) ok] by auto
  have can: "can_run_list a2 = cs @ adm" "preempt_list a2 = []" using L(1) c(1,4) by (simp_all add: loop_out_def)
  have re: "reordered (ps_waiting st) q1" by (rule reordered_core [OF K(2) L(3)])
  have fin: "batch = (if cs @ adm = [] then None else Some (cs @ adm))" "ps_cache st' = ad_cache a2"
    "ps_waiting st' = filter (\<lambda>x. rid x \<notin> rid ` set (cs @ adm)) q1"
    using loop(4) can by (auto simp: pass_finish_def Let_def rbind_eq_Inr image_Un split: if_splits)
  have "running_reserve X F st + of_int (sum_list (map (charge X (cfg_page_size F)) adm)) <
        of_int (available_and_evictable ops (ps_cache st') + cfg_page_size F)" if t: "adm \<noteq> []" "ps_chunked_req st = None"
    using L(1,5) t C(7) c(3) fin(2) by (simp add: within_budget_def loop_out_def rem_total_tokens_def pass_adder_sel)
  moreover have "cs = [] \<or> (\<exists>c. ps_chunked_req st = Some c \<and> map rid cs = [rid c])" using C(2) by (cases "ps_chunked_req st") simp_all
  ultimately show ?thesis using fin re L(2,4) by (intro exI [of _ cs] exI [of _ adm] exI [of _ q1]) simp
qed

text \<open>When the chunked request of the last pass is cut off again, the loop cuts off no other.\<close>

lemma pass_one_chunk:
  assumes F: "plain_cfg F" "cfg_truncation_align_size F = None" and clip: "0 \<le> clip_max_new_tokens X"
    and a: "dllm_block_size a = None" "0 < ad_page_size a" "new_chunked_req a = None" and inv: "inv h (ad_cache a)"
    and ok: "\<forall>r \<in> set q. ok_req ops inv r" and ch: "\<forall>c. c0 = Some c \<longrightarrow> req_dllm_config c = None"
    and chunk: "pass_chunked_req X W ops a c0 = Inr (chunked, a1)" and loop: "admission_loop X W ops F q a1 full loras = Inr (q1, a2, full1)"
  shows "\<exists>adm cut batch st'. can_run_list a2 = can_run_list a1 @ adm @ cut \<and> list_all whole_prefill adm \<and> list_all (\<lambda>c. \<not> whole_prefill c) cut \<and>
    length cut \<le> 1 \<and> (chunked \<noteq> None \<longrightarrow> cut = []) \<and> pass_finish F st q1 a2 full1 chunked = Inr (batch, st') \<and>
    map_option rid (ps_chunked_req st') = (if cut = [] then map_option rid chunked else Some (rid (hd cut)))"
proof -
  from pass_chunked_out [OF chunk a(1,2) ch [rule_format]] have C: "ad_cache a1 = ad_cache a" "ad_page_size a1 = ad_page_size a" "new_chunked_req a1 = new_chunked_req a"
    "dllm_block_size a1 = None" "chunked \<noteq> None \<Longrightarrow> chunk_budget_exhausted a1 \<or> rem_total_tokens ops a1 \<le> 0" by metis+
  have "inv h (ad_cache a1)" "0 < ad_page_size a1" using C(1,2) inv a(2) by simp_all
  from loop_one_chunk [OF F clip loop this C(4) ok] obtain adm cut where L: "can_run_list a2 = can_run_list a1 @ adm @ cut" "list_all whole_prefill adm"
    "cut = [] \<and> new_chunked_req a2 = None \<or>
       (\<exists>c. cut = [c] \<and> \<not> whole_prefill c \<and> new_chunked_req a2 = Some c \<and> 0 < rem_total_tokens ops a1 \<and> \<not> chunk_budget_exhausted a1)"
    using C(3) a(3) by metis
  from L(3) show ?thesis
  proof (elim disjE exE conjE)
    assume c: "cut = []" "new_chunked_req a2 = None"
    obtain batch st' where f: "pass_finish F st q1 a2 full1 chunked = Inr (batch, st')" "map_option rid (ps_chunked_req st') = map_option rid chunked"
      using c(2) by (cases "can_run_list a2 = []") (simp_all add: pass_finish_def Let_def option.map_comp comp_def)
    then show ?thesis using L(1,2) c(1) by (intro exI [of _ adm] exI [of _ cut] exI [of _ batch] exI [of _ st']) simp
  next
    fix c assume c: "cut = [c]" "\<not> whole_prefill c" "new_chunked_req a2 = Some c" "0 < rem_total_tokens ops a1" "\<not> chunk_budget_exhausted a1"
    have n: "chunked = None" using C(5) c(4,5) by (cases chunked) auto
    obtain batch st' where f: "pass_finish F st q1 a2 full1 chunked = Inr (batch, st')" "map_option rid (ps_chunked_req st') = Some (rid c)"
      using c(1,3) L(1) n by (auto simp: pass_finish_def Let_def assert_that_def)
    then show ?thesis using L(1,2) c(1,2) n by (intro exI [of _ adm] exI [of _ cut] exI [of _ batch] exI [of _ st']) simp
  qed
qed

end

section \<open>Properties of the pass over the radix cache\<close>

lemma radix_held_all: "foldl radix_held h ns = (\<lambda>n. fst h n + int (count_list ns (Some n)), snd h)"
proof (induction ns arbitrary: h)
  case (Cons n ns)
  then show ?case by (cases n) (auto simp: radix_held_def)
qed simp

lemma radix_ok_req: "plain_req r \<Longrightarrow> ok_req (radix_ops E rel) radix_inv r"
  by (auto simp: ok_req_def radix_inv_def radix_ops_def dest: soundD(5))

section \<open>A concrete pass\<close>

definition demo_cache :: radix_cache where
  "demo_cache = reset demo_env
     \<lparr>disable = False, cache_page_size = 2, is_eagle = False, disable_finished_insert = False, eviction_strategy = LRU,
      kv_events = \<lparr>enabled = True, ev_page_size = 2, queue = []\<rparr>, nodes = Map.empty, counter = 0, clock = 0, root_node = 0,
      evictable_size = 0, protected_size = 0, evictable_leaves = {}, req_to_token = [], kv_pool = PagedAlloc (paged_init 16 2 False False)\<rparr>"

definition demo_sched_req :: "string \<Rightarrow> int list \<Rightarrow> sched_req" where
  "demo_sched_req name ids =
     \<lparr>origin_input_ids = ids, output_ids = [], fill_ids = [], req_extra_key = None, req_cache_salt = None, req_priority = Some 1, last_node = None, req_pool_idx = 0,
      cache_protected_len = 0, prefix_indices = [],
      rid = name, full_untruncated_fill_ids = [], last_host_node = None, best_match_node = None, host_hit_length = 0, swa_host_hit_length = 0,
      mamba_host_hit_length = 0, storage_hit_length = 0, num_matched_prefix_tokens = 0, mamba_branching_seqlen = None, max_new_tokens = 2,
      ignore_eos = False, return_logprob = False, logprob_start_len = - 1, retracted_stain = False, holds_mamba = False, wait_queue_entry_time = 0,
      routing_key = None, extend_range = (0, 0), req_finished = False, swa_uuid_for_lock = None, fill_ids_alias_origin = False, lora_id = None,
      req_beam_width = None, has_embed_overrides = False, has_session = False, session_streaming = False, mamba_cow_src_index = None,
      mamba_needs_clear = False, req_dllm_config = None, req_dllm_phase = None, dllm_incomplete_ids = [], dllm_block_offset = 0,
      dllm_initialized = False, inflight_middle_chunks = 0\<rparr>"

definition demo_cfg :: "'c pass_cfg" where
  "demo_cfg =
     \<lparr>cfg_enable_lora = False, cfg_lora_drainer = None, cfg_lora_overlap_loading = False, cfg_try_overlap_load_lora = (\<lambda>_ _. True),
      cfg_validate_lora_batch = (\<lambda>_. True), cfg_pp_max_micro_batch_size = 4, cfg_rows_available = (\<lambda>_. 4), cfg_pending_member_rows = (\<lambda>_. 0),
      cfg_disagg_prefill = False, cfg_priority_preemption = False, cfg_hicache_storage = False, cfg_buffer_only = False,
      cfg_check_prefetch_progress = (\<lambda>s _. (True, s)), cfg_pop_prefetch_loaded_tokens = (\<lambda>s _. (0, s)), cfg_plan_staged_splice = (\<lambda>s _ _. ((0, 0), s)),
      cfg_hierarchical_cache = False, cfg_truncation_align_size = None, cfg_free_mamba = (\<lambda>s _. s), cfg_is_hybrid_swa = False, cfg_min_free_slots = None,
      cfg_test_retract_no_prefill_bs = None, cfg_chunked_prefill_size = Some 4, cfg_predict_next_chunk_size = None, cfg_page_size = 2,
      cfg_new_token_ratio = 1, cfg_is_mixed_chunk = False, cfg_add_request_to_queue = (\<lambda>q r. q @ [r])\<rparr>"

definition demo_sched_env :: sched_env where
  "demo_sched_env =
     \<lparr>clip_max_new_tokens = 4, in_batch_check_threshold = 32, in_batch_deprioritize_threshold = 32, is_hip = False, prefill_tile_budget = 0,
      prefill_tile_budget_mode = LegacyTiles, radix_force_miss = False, low_priority_values_first = False, is_decode_server = False\<rparr>"

definition demo_args :: adder_args where
  "demo_args =
     \<lparr>arg_rem_input_tokens = 64, arg_rem_chunk_tokens = None, arg_num_mixed_decode_tokens = 0, arg_preemption_threshold = 0,
      arg_adder_max_prefill_bs = 4, arg_adder_max_running = 4, arg_prefill_max_requests = None, arg_delayer = None, arg_dllm_config = None,
      arg_waiting_len = 0, arg_tile_block_m = 64, arg_dsa_prefill_cp = False\<rparr>"

definition demo_queue :: "sched_req list" where
  "demo_queue = [demo_sched_req ''a'' [7, 8], demo_sched_req ''b'' [7, 8, 9, 10], demo_sched_req ''c'' [1]]"

definition demo_pass_state :: "radix_cache pass_state" where
  "demo_pass_state =
     \<lparr>ps_waiting = demo_queue, ps_chunked_req = None, ps_running = [], ps_batch_is_full = False, ps_cache = demo_cache,
      ps_policy = \<lparr>sp_policy = FCFS, sp_enable_priority = False, sp_priority_sign = 1, waiting_queue_radix_tree = demo_cache\<rparr>\<rparr>"

abbreviation demo_ops :: "(radix_cache, int) cache_ops" where
  "demo_ops \<equiv> radix_ops demo_env (\<lambda>s _ _. Inr s)"

lemma demo_serving: "serving demo_env (\<lambda>_. 0, {#}, demo_cache)"
proof -
  have strat: "get_eviction_strategy ''lru'' = Inr LRU" by code_simp
  show ?thesis
    by (rule serve_reachable, rule reach_new [of 2 "PagedAlloc (paged_init 16 2 False False)" _ False False "''lru''" True "[]"])
       (simp_all add: demo_pool new_radix_cache_def strat demo_cache_def)
qed

lemma demo_plain:
  "plain_cfg demo_cfg" "0 < cfg_page_size demo_cfg" "0 \<le> clip_max_new_tokens demo_sched_env" "arg_dllm_config demo_args = None"
  "\<forall>r \<in> set (ps_waiting demo_pass_state). plain_req r" "sp_policy (ps_policy demo_pass_state) \<noteq> DFS_WEIGHT"
  "ps_chunked_req demo_pass_state = None" "ps_cache demo_pass_state = demo_cache" "cfg_truncation_align_size demo_cfg = None"
  by (simp_all add: demo_cfg_def plain_cfg_def demo_sched_env_def demo_args_def demo_pass_state_def demo_queue_def demo_sched_req_def plain_req_def fresh_req_def)

lemma demo_run:
  obtains batch st' where "get_new_batch_prefill_raw demo_env demo_sched_env (fst demo_pass) id demo_ops demo_cfg demo_args demo_pass_state = Inr (Some batch, st')"
    "map (\<lambda>r. (rid r, extend_range r)) batch = [(''a'', (0, 2)), (''b'', (0, 2))]" "map rid (ps_waiting st') = [''c'']"
    "map_option rid (ps_chunked_req st') = Some ''b''"
proof -
  have "case get_new_batch_prefill_raw demo_env demo_sched_env (fst demo_pass) id demo_ops demo_cfg demo_args demo_pass_state of
     Inl _ \<Rightarrow> False
   | Inr (batch, st') \<Rightarrow> map_option (map (\<lambda>r. (rid r, extend_range r))) batch = Some [(''a'', (0, 2)), (''b'', (0, 2))] \<and>
       map rid (ps_waiting st') = [''c''] \<and> map_option rid (ps_chunked_req st') = Some ''b''" by code_simp
  then show ?thesis using that by (auto split: sum.splits)
qed

definition demo_adder :: "radix_cache prefill_adder" where
  "demo_adder = pass_adder demo_sched_env demo_ops demo_cfg demo_args demo_pass_state demo_cache demo_queue"

definition demo_candidate :: sched_req where
  "demo_candidate = (demo_sched_req ''a'' [7, 8])\<lparr>last_node := Some 0, full_untruncated_fill_ids := [7, 8]\<rparr>"

section \<open>Properties\<close>

text \<open>
  C11: admission of one request is all or nothing. A request that is rejected, at whichever of the checks, leaves every budget, the list of admitted requests, the locks and the evictable size as they were, although the node was locked for the second half of the checks; an admitted request is appended with a prefill range that starts behind its cached prefix and is not empty when it is cut off, exactly one lock on its node is left, and its tokens fitted in the budget both before and after that node was locked.
\<close>

theorem admission_is_atomic:
  assumes "serving E (H, C, ad_cache a)" "hash_laws E" "order_laws E" "last_node r = Some n" "nodes (ad_cache a) n \<noteq> None"
    and "0 < ad_page_size a" "dllm_block_size a = None" "\<forall>x. al = Some x \<longrightarrow> 0 < x" "\<not> needs_host_load_back r"
    and "add_one_req X W (radix_ops E rel) a r al = Inr (res, r', a')"
  shows "res \<noteq> CONTINUE \<and> r' = r \<and> rejected a a' \<and> cache_inv H (ad_cache a') \<and> pool_ok (ad_cache a') \<and>
      int (kv_available_size (kv_pool (ad_cache a'))) + evictable_size (ad_cache a') =
        int (kv_available_size (kv_pool (ad_cache a))) + evictable_size (ad_cache a) \<or>
    admitted X al a a' r r' \<and> cache_inv (H(n := H n + 1)) (ad_cache a') \<and> pool_ok (ad_cache a') \<and>
      of_int (cand_extend_input_len r + remaining_new_tokens X r + ad_page_size a) < rem_total_tokens (radix_ops E rel) a \<and>
      of_int (cand_extend_input_len r + remaining_new_tokens X r + ad_page_size a) <
        of_int (int (kv_available_size (kv_pool (ad_cache a'))) + evictable_size (ad_cache a')) - rem_total_token_offset a"
proof -
  have so: "sound (H, C, ad_cache a)" by (rule serving_sound [OF assms(1-3)])
  then have inv: "radix_inv (H, C) (ad_cache a)" by (simp add: radix_inv_def)
  have live: "radix_live (ad_cache a) (last_node r)" using assms(4,5) by (simp add: radix_live_def)
  have eos: "\<not> (ignore_eos r \<and> op_disable (radix_ops E rel) (ad_cache a))" using soundD(5) [OF so] by (simp add: radix_ops_def)
  have al: "0 < x" if "al = Some x" for x using assms(8) that by blast
  have held: "radix_held (H, C) (last_node r) = (H(n := H n + 1), C)" by (simp add: radix_held_def assms(4))
  have ok: "cache_inv (fst h) t \<and> pool_ok t" if "radix_inv h t" for h t
    using soundD [OF that [unfolded radix_inv_def]] unfolding cache_inv_def by blast
  from radix_locks.add_one_req_out [OF inv live assms(6,7) al assms(9) eos assms(10)] show ?thesis
    unfolding radix_available held using ok by fastforce
qed

theorem admission_is_atomic_witness:
  "\<exists>r' a'. add_one_req demo_sched_env (fst demo_pass) demo_ops demo_adder demo_candidate None = Inr (CONTINUE, r', a') \<and>
     admitted demo_sched_env None demo_adder a' demo_candidate r' \<and> cache_inv ((\<lambda>_. 0)(0 := 0 + 1)) (ad_cache a')"
proof -
  have "case add_one_req demo_sched_env (fst demo_pass) demo_ops demo_adder demo_candidate None of Inl _ \<Rightarrow> False | Inr (res, r', a') \<Rightarrow> res = CONTINUE" by code_simp
  then obtain r' a' where r: "add_one_req demo_sched_env (fst demo_pass) demo_ops demo_adder demo_candidate None = Inr (CONTINUE, r', a')"
    by (auto split: sum.splits)
  have a: "ad_cache demo_adder = demo_cache" "dllm_block_size demo_adder = None" "0 < ad_page_size demo_adder"
    by (simp_all add: demo_adder_def pass_adder_sel demo_plain(2,4))
  have s: "serving demo_env (\<lambda>_. 0, {#}, ad_cache demo_adder)" unfolding a(1) by (rule demo_serving)
  have c: "last_node demo_candidate = Some 0" "nodes (ad_cache demo_adder) 0 \<noteq> None" "\<not> needs_host_load_back demo_candidate"
    by (simp_all add: demo_candidate_def demo_sched_req_def needs_host_load_back_def a(1) demo_cache_def reset_nodes)
  have "\<forall>x. None = Some x \<longrightarrow> 0 < (x :: int)" by simp
  from admission_is_atomic [OF s conjunct1 [OF demo_laws] conjunct2 [OF demo_laws] c(1,2) a(3,2) this c(3) r] show ?thesis using r by auto
qed





text \<open>
  C12: at most one request of a batch is left unfinished. Without an alignment of chunks, every request the loop of a pass admits is prefilled to its end except possibly the last one; when the chunked request of the last pass is cut off again there is none, so the assertion at the end of the pass holds, and the request that was cut off is the one the next pass continues.
\<close>

theorem one_chunk_per_batch:
  assumes "serving E (H, C, ad_cache a)" "hash_laws E" "order_laws E"
    and "plain_cfg F" "cfg_truncation_align_size F = None" "0 \<le> clip_max_new_tokens X"
    and "dllm_block_size a = None" "0 < ad_page_size a" "new_chunked_req a = None"
    and "\<forall>r \<in> set q. plain_req r" "\<forall>c. c0 = Some c \<longrightarrow> req_dllm_config c = None"
    and "pass_chunked_req X W (radix_ops E rel) a c0 = Inr (chunked, a1)"
    and "admission_loop X W (radix_ops E rel) F q a1 full loras = Inr (q1, a2, full1)"
  shows "\<exists>adm cut batch st'. can_run_list a2 = can_run_list a1 @ adm @ cut \<and> list_all whole_prefill adm \<and> list_all (\<lambda>c. \<not> whole_prefill c) cut \<and>
    length cut \<le> 1 \<and> (chunked \<noteq> None \<longrightarrow> cut = []) \<and> pass_finish F st q1 a2 full1 chunked = Inr (batch, st') \<and>
    map_option rid (ps_chunked_req st') = (if cut = [] then map_option rid chunked else Some (rid (hd cut)))"
proof -
  have inv: "radix_inv (H, C) (ad_cache a)" using serving_sound [OF assms(1-3)] by (simp add: radix_inv_def)
  have ok: "\<forall>r \<in> set q. ok_req (radix_ops E rel) radix_inv r" using assms(10) radix_ok_req by blast
  show ?thesis by (rule radix_prefix.pass_one_chunk [OF assms(4-9) inv ok assms(11-13)])
qed

theorem one_chunk_per_batch_witness:
  "\<exists>q1 a2 full1 adm cut batch st'.
     admission_loop demo_sched_env (fst demo_pass) demo_ops demo_cfg demo_queue demo_adder False {} = Inr (q1, a2, full1) \<and>
     map rid (can_run_list a2) = [''a'', ''b''] \<and> can_run_list a2 = adm @ cut \<and> list_all whole_prefill adm \<and> list_all (\<lambda>c. \<not> whole_prefill c) cut \<and>
     length cut \<le> 1 \<and> pass_finish demo_cfg demo_pass_state q1 a2 full1 None = Inr (batch, st')"
proof -
  have "case admission_loop demo_sched_env (fst demo_pass) demo_ops demo_cfg demo_queue demo_adder False {} of
      Inl _ \<Rightarrow> False | Inr (q1, a2, full1) \<Rightarrow> map rid (can_run_list a2) = [''a'', ''b'']" by code_simp
  then obtain q1 a2 full1 where l: "admission_loop demo_sched_env (fst demo_pass) demo_ops demo_cfg demo_queue demo_adder False {} = Inr (q1, a2, full1)"
    "map rid (can_run_list a2) = [''a'', ''b'']" by (auto split: sum.splits)
  have a: "ad_cache demo_adder = demo_cache" "dllm_block_size demo_adder = None" "0 < ad_page_size demo_adder" "new_chunked_req demo_adder = None"
    "can_run_list demo_adder = []" by (simp_all add: demo_adder_def pass_adder_sel demo_plain(2,4))
  have s: "serving demo_env (\<lambda>_. 0, {#}, ad_cache demo_adder)" unfolding a(1) by (rule demo_serving)
  have q: "\<forall>r \<in> set demo_queue. plain_req r" using demo_plain(5) by (simp add: demo_pass_state_def)
  have c: "pass_chunked_req demo_sched_env (fst demo_pass) demo_ops demo_adder None = Inr (None, demo_adder)" by (simp add: pass_chunked_req_def)
  have n: "\<forall>c. None = Some c \<longrightarrow> req_dllm_config c = None" by simp
  from one_chunk_per_batch [OF s conjunct1 [OF demo_laws] conjunct2 [OF demo_laws] demo_plain(1,9,3) a(2-4) q n c l(1), of demo_pass_state]
  show ?thesis unfolding a(5) append_Nil using l by (elim exE conjE) (intro exI conjI)
qed

end
