(* ===== verification/InBatch.thy ===== *)
theory InBatch
  imports PassProps
begin

text \<open>
  Requests that share a prefix within the waiting queue. The policy finds them with a second,
  simulated radix cache; here this is shown to compute the same set as comparing every request with
  the ones in front of it.
\<close>

section \<open>The reference\<close>

definition req_ids :: "sched_req \<Rightarrow> int list" where
  "req_ids r = origin_input_ids r @ output_ids r"

definition req_namespace :: "sched_req \<Rightarrow> string option \<times> string option" where
  "req_namespace r = namespace (req_key r (req_ids r) None)"

definition shared_prefix :: "sched_req \<Rightarrow> sched_req \<Rightarrow> nat" where
  "shared_prefix r r' = (if req_namespace r = req_namespace r' then length (longest_common_prefix (req_ids r) (req_ids r')) else 0)"

text \<open>
  The ids of the requests to put off: those with a short prefix in the cache that share a long one
  with a request in front of them which is itself computed first.
\<close>

fun put_off :: "sched_env \<Rightarrow> sched_req list \<Rightarrow> sched_req list \<Rightarrow> string set" where
  "put_off X ahead [] = {}"
| "put_off X ahead (r # rs) =
     (if int (length (prefix_indices r)) > in_batch_check_threshold X then put_off X ahead rs
      else if list_ex (\<lambda>p. int (shared_prefix p r) \<ge> in_batch_deprioritize_threshold X) ahead
      then insert (rid r) (put_off X ahead rs)
      else put_off X (r # ahead) rs)"

section \<open>The simulated tree\<close>

definition sim_setup :: "radix_cache \<Rightarrow> bool" where
  "sim_setup t \<longleftrightarrow> \<not> disable t \<and> \<not> is_eagle t \<and> cache_page_size t = 1 \<and> \<not> enabled (kv_events t) \<and>
     kv_inv (kv_pool t) \<and> kv_page_size (kv_pool t) = 1"

definition sim_tree :: "radix_cache \<Rightarrow> bool" where
  "sim_tree t \<longleftrightarrow> cache_ok (\<lambda>_. 0) t \<and> hashes_ok t \<and> sim_setup t"

text \<open>The tree holds exactly the prefixes of the requests that were put into it.\<close>

definition holds_prefixes :: "radix_cache \<Rightarrow> sched_req list \<Rightarrow> bool" where
  "holds_prefixes t ahead \<longleftrightarrow>
     (\<forall>ns us. us \<noteq> [] \<longrightarrow> (\<exists>vs. cached t ns us vs) = (\<exists>p \<in> set ahead. ns = req_namespace p \<and> prefix us (units False (req_ids p))))"

lemma sim_reset:
  assumes "sim_setup t"
  shows "sim_tree (reset E t)" "holds_prefixes (reset E t) []"
proof -
  have s: "sound (\<lambda>_. 0, {#}, reset E t)" using assms by (intro sound_reset) (simp_all add: sim_setup_def)
  then show "sim_tree (reset E t)"
    using assms soundD(1,4) [OF s] by (simp add: sim_tree_def sim_setup_def reset_nodes record_all_cleared_def)
  have "us = []" if "cached (reset E t) ns us vs" for ns us vs
    using that unfolding cached_def reset_shape reset_nodes(2) by (cases rule: below.cases) auto
  then show "holds_prefixes (reset E t) []" by (auto simp: holds_prefixes_def)
qed

lemma sim_same_setup:
  assumes "same_setup t t'" "kv_pool t' = kv_pool t" "sim_setup t"
  shows "sim_setup t'"
  using assms by (simp add: same_setup_def sim_setup_def)

lemma req_units:
  assumes "sim_setup t"
  shows "lookup_units t (req_key r (req_ids r) None) = units False (req_ids r)" "key_fits t (req_key r (req_ids r) None)"
proof -
  show "lookup_units t (req_key r (req_ids r) None) = units False (req_ids r)"
    using assms by (simp add: lookup_units_def sim_setup_def raw_def raw_len_def req_key_def new_radix_key_def Let_def)
  show "key_fits t (req_key r (req_ids r) None)" by (auto simp: key_fits_def key_ok_def req_key_def new_radix_key_def split: option.splits)
qed

lemma prefix_units: "prefix (take n (units False xs)) (units False ys) = prefix (take n xs) ys"
proof
  assume "prefix (take n (units False xs)) (units False ys)"
  then have "prefix (map fst (take n (units False xs))) (map fst (units False ys))" by (rule map_mono_prefix)
  then show "prefix (take n xs) ys" by (simp add: units_def take_map comp_def)
next
  assume "prefix (take n xs) ys"
  then have "prefix (map (\<lambda>x. (x, None)) (take n xs)) (map (\<lambda>x. (x, None)) ys)" by (rule map_mono_prefix)
  then show "prefix (take n (units False xs)) (units False ys)" by (simp add: units_def take_map)
qed

lemma lcp_length_ge:
  assumes "n \<le> length xs"
  shows "n \<le> length (longest_common_prefix xs ys) \<longleftrightarrow> prefix (take n xs) ys"
proof
  assume "n \<le> length (longest_common_prefix xs ys)"
  moreover obtain zs where "xs = longest_common_prefix xs ys @ zs" using longest_common_prefix_prefix1 [of xs ys] by (auto simp: prefix_def)
  ultimately have "take n xs = take n (longest_common_prefix xs ys)" by (metis take_append diff_is_0_eq take0 append_Nil2 take_eq_Nil)
  then show "prefix (take n xs) ys" using take_is_prefix longest_common_prefix_prefix2 prefix_order.trans by metis
next
  assume "prefix (take n xs) ys"
  then have "prefix (take n xs) (longest_common_prefix xs ys)" using longest_common_prefix_max_prefix take_is_prefix by blast
  then show "n \<le> length (longest_common_prefix xs ys)" using prefix_length_le assms by fastforce
qed

lemma lcp_length_comm: "n \<le> length (longest_common_prefix xs ys) \<longleftrightarrow> n \<le> length (longest_common_prefix ys xs)"
proof -
  have "prefix (longest_common_prefix xs ys) (longest_common_prefix ys xs)" for xs ys :: "'a list"
    by (simp add: longest_common_prefix_max_prefix longest_common_prefix_prefix1 longest_common_prefix_prefix2)
  then show ?thesis using prefix_length_le order_trans by metis
qed

lemma shared_prefix_ge:
  assumes "0 < n"
  shows "n \<le> shared_prefix p r \<longleftrightarrow> n \<le> length (req_ids r) \<and> req_namespace p = req_namespace r \<and> prefix (take n (req_ids r)) (req_ids p)"
proof -
  have "length (longest_common_prefix (req_ids r) (req_ids p)) \<le> length (req_ids r)"
    using longest_common_prefix_prefix1 prefix_length_le by blast
  then show ?thesis
    using assms lcp_length_comm [of n "req_ids p" "req_ids r"] lcp_length_ge [of n "req_ids r" "req_ids p"] by (auto simp: shared_prefix_def)
qed

text \<open>A match in the tree is as long as the longest prefix shared with a request that was put into it.\<close>

lemma match_is_shared:
  assumes h: "holds_prefixes t ahead" and t: "sim_tree t" and n: "0 < n"
    and m: "longest (cache_page_size t) (req_namespace r) (shape t) (root_node t) (units False (req_ids r)) m"
  shows "n \<le> m \<longleftrightarrow> (\<exists>p \<in> set ahead. n \<le> shared_prefix p r)"
proof
  note L = longestD [OF m]
  assume nm: "n \<le> m"
  obtain vs where "cached t (req_namespace r) (take m (units False (req_ids r))) vs" using L(2) unfolding cached_def by blast
  moreover have "take m (units False (req_ids r)) \<noteq> []" using L(1) nm n by auto
  ultimately obtain p where p: "p \<in> set ahead" "req_namespace r = req_namespace p" "prefix (take m (units False (req_ids r))) (units False (req_ids p))"
    using h unfolding holds_prefixes_def by blast
  have "m \<le> length (req_ids r)" using L(1) by (simp add: units_def)
  then have "m \<le> shared_prefix p r" using shared_prefix_ge [of m p r] p(2,3) n nm by (simp add: prefix_units)
  then show "\<exists>p \<in> set ahead. n \<le> shared_prefix p r" using p(1) nm by (auto intro: order_trans)
next
  assume "\<exists>p \<in> set ahead. n \<le> shared_prefix p r"
  then obtain p where p: "p \<in> set ahead" "n \<le> length (req_ids r)" "req_namespace p = req_namespace r" "prefix (take n (req_ids r)) (req_ids p)"
    using shared_prefix_ge [OF n] by blast
  have u: "take n (units False (req_ids r)) \<noteq> []" "n \<le> length (units False (req_ids r))" using p(2) n by (auto simp: units_def)
  have "\<exists>vs. cached t (req_namespace r) (take n (units False (req_ids r))) vs"
    using h u(1) p(1,3,4) unfolding holds_prefixes_def by (metis prefix_units)
  then show "n \<le> m" using longestD(3) [OF m u(2)] unfolding cached_def by blast
qed

lemma sim_insert:
  assumes t: "sim_tree t" and h: "holds_prefixes t ahead" and l: "hash_laws E"
  obtains res t' where "insert_op E t (req_key r (req_ids r) None) (Some (replicate (length (req_ids r)) 0)) (Some 0) False = Inr (res, t')"
    "sim_tree t'" "holds_prefixes t' (r # ahead)"
proof -
  let ?k = "req_key r (req_ids r) None" and ?us = "units False (req_ids r)"
  have T: "cache_ok (\<lambda>_. 0) t" "hashes_ok t" "sim_setup t" "\<not> disable t" "cache_page_size t = 1" using t by (simp_all add: sim_tree_def sim_setup_def)
  note U = req_units [OF T(3), of r]
  have al: "length ?us = length (lookup_units t ?k) div cache_page_size t * cache_page_size t" "length ?us \<le> length (replicate (length (req_ids r)) (0 :: int))"
    by (simp_all add: U(1) T(5)) (simp add: units_def)
  obtain n node t' V where i: "insert_op E t ?k (Some (replicate (length (req_ids r)) 0)) (Some 0) False = Inr (\<lparr>prefix_len = n, insert_last_node = Some node\<rparr>, t')"
    "inserted (\<lambda>_. 0) t t' (namespace ?k) (take (length ?us) (lookup_units t ?k)) (take (length ?us) (replicate (length (req_ids r)) 0)) n V node"
    by (rule insert_op_facts [OF T(1,2) l T(4) U(2) al, of "Some 0" False]) blast
  note I = i(2) [unfolded inserted_def U(1) take_all [OF order.refl] req_namespace_def [symmetric] T(5)]
  have "cached t' ns us vs \<longleftrightarrow> cached t ns us vs \<or> ns = req_namespace r \<and> (\<exists>j. j \<le> length ?us \<and> 1 dvd j \<and> us = take j ?us \<and> vs = take j V)" for ns us vs
    using I by blast
  then have "cached t' ns us vs \<longleftrightarrow> cached t ns us vs \<or> ns = req_namespace r \<and> (\<exists>j \<le> length ?us. us = take j ?us \<and> vs = take j V)" for ns us vs
    by simp
  then have "(\<exists>vs. cached t' ns us vs) \<longleftrightarrow> (\<exists>vs. cached t ns us vs) \<or> ns = req_namespace r \<and> prefix us ?us" for ns us
    by (metis prefix_def append_eq_conv_conj prefix_length_le take_is_prefix)
  then have "holds_prefixes t' (r # ahead)" using h unfolding holds_prefixes_def by auto
  moreover have "cache_ok (\<lambda>_. 0) t'" "hashes_ok t'" "same_setup t t'" "kv_pool t' = kv_pool t" using I by blast+
  then have "sim_tree t'" using sim_same_setup [OF _ _ T(3), of t'] by (simp add: sim_tree_def)
  ultimately show ?thesis using that [OF i(1)] by blast
qed

lemma in_batch_step:
  assumes t: "sim_tree t" and h: "holds_prefixes t ahead" and l: "hash_laws E" and X: "\<not> radix_force_miss X" "0 < in_batch_deprioritize_threshold X"
    and short: "int (length (prefix_indices r)) \<le> in_batch_check_threshold X"
  obtains t' where
    "in_batch_match E X t r (req_ids r) = Inr (list_ex (\<lambda>p. int (shared_prefix p r) \<ge> in_batch_deprioritize_threshold X) ahead, t')" "sim_tree t'"
    "holds_prefixes t' (if list_ex (\<lambda>p. int (shared_prefix p r) \<ge> in_batch_deprioritize_threshold X) ahead then ahead else r # ahead)"
proof -
  let ?k = "req_key r (req_ids r) None" and ?n = "nat (in_batch_deprioritize_threshold X)"
  let ?b = "list_ex (\<lambda>p. int (shared_prefix p r) \<ge> in_batch_deprioritize_threshold X) ahead"
  have T: "cache_ok (\<lambda>_. 0) t" "hashes_ok t" "sim_setup t" "\<not> disable t" using t by (simp_all add: sim_tree_def sim_setup_def)
  note U = req_units [OF T(3), of r]
  obtain m t1 where M: "match_prefix E t ?k = Inr (m, t1)" "reshaped (\<lambda>_. 0) t t1"
    "longest (cache_page_size t) (namespace ?k) (shape t) (root_node t) (lookup_units t ?k) (length (device_indices m))"
    by (rule match_prefix_facts [OF T(1) U(2) T(4), of E]) blast
  note R = reshapedD [OF M(2)] and S = same_setupD [OF reshapedD(2) [OF M(2)]]
  have t1: "sim_tree t1" using R(1,3) T(2) sim_same_setup [OF R(2,4) T(3)] by (simp add: sim_tree_def)
  have "cached t1 ns us vs = cached t ns us vs" for ns us vs unfolding cached_def S using R(14) [OF root_live [OF T(1)]] .
  then have h1: "holds_prefixes t1 ahead" using h by (simp add: holds_prefixes_def)
  have "?n \<le> length (device_indices m) \<longleftrightarrow> (\<exists>p \<in> set ahead. ?n \<le> shared_prefix p r)"
    using match_is_shared [OF h t _ M(3) [unfolded U(1), folded req_namespace_def]] X(2) by simp
  then have b: "int (length (device_indices m)) \<ge> in_batch_deprioritize_threshold X \<longleftrightarrow> ?b" by (simp add: list_ex_iff nat_le_iff)
  obtain res t2 where I: "insert_op E t1 ?k (Some (replicate (length (req_ids r)) 0)) (Some 0) False = Inr (res, t2)" "sim_tree t2" "holds_prefixes t2 (r # ahead)"
    by (rule sim_insert [OF t1 h1 l])
  show ?thesis
  proof (cases ?b)
    case True
    then show ?thesis using that [of t1] short X(1) b t1 h1 by (simp add: in_batch_match_def M(1))
  next
    case False
    then show ?thesis using that [of t2] short X(1) b I by (simp add: in_batch_match_def M(1))
  qed
qed

section \<open>The loop over the queue\<close>

context prefix_contract
begin

lemma match_req_runs:
  assumes "inv h s"
  obtains m r1 s1 where "match_prefix_for_req X ops s r given = Inr (m, r1, s1)"
proof -
  define ids where "ids = (case given of Some t \<Rightarrow> t | None \<Rightarrow> origin_input_ids r @ output_ids r)"
  define lm where "lm = (if op_swa_reprefill_tail ops \<noteq> 0 then Some (length ids - op_swa_reprefill_tail ops) else None)"
  obtain m s1 where "op_match_prefix ops s (req_key r ids lm) = Inr (m, s1)" using matched [OF assms, of r ids lm] by blast
  then show ?thesis using that unfolding match_prefix_for_req_def Let_def ids_def [symmetric] lm_def [symmetric] by simp
qed

lemma matches_loop_reference:
  assumes l: "hash_laws E" and X: "\<not> radix_force_miss X" "0 < in_batch_deprioritize_threshold X"
  shows "inv h s \<Longrightarrow> sim_tree t \<Longrightarrow> holds_prefixes t ahead \<Longrightarrow>
    \<exists>q1 s1 t1. prefix_matches_loop E X ops s t q = Inr (put_off X ahead q1, q1, s1, t1) \<and> sim_tree t1"
proof (induction q arbitrary: s t ahead)
  case Nil
  then show ?case by simp
next
  case (Cons r rs)
  obtain m r1 s1 where m: "match_prefix_for_req X ops s r (Some (origin_input_ids r @ output_ids r)) = Inr (m, r1, s1)"
    by (rule match_req_runs [OF Cons.prems(1)])
  have k: "inv h s1" "same_core r r1" using match_req [OF Cons.prems(1) m] by (simp_all add: kept_def)
  have ids: "origin_input_ids r @ output_ids r = req_ids r1" using k(2) by (simp add: same_core_def req_ids_def)
  let ?b = "list_ex (\<lambda>p. int (shared_prefix p r1) \<ge> in_batch_deprioritize_threshold X) ahead"
  show ?case
  proof (cases "int (length (prefix_indices r1)) \<le> in_batch_check_threshold X")
    case True
    obtain t1 where t1: "in_batch_match E X t r1 (req_ids r1) = Inr (?b, t1)" "sim_tree t1" "holds_prefixes t1 (if ?b then ahead else r1 # ahead)"
      by (rule in_batch_step [OF Cons.prems(2,3) l X True])
    from Cons.IH [OF k(1) t1(2,3)] obtain q1 s2 t2 where
      IH: "prefix_matches_loop E X ops s1 t1 rs = Inr (put_off X (if ?b then ahead else r1 # ahead) q1, q1, s2, t2)" "sim_tree t2" by blast
    show ?thesis using IH(2) True by (intro exI [of _ "r1 # q1"]) (simp add: Let_def m [unfolded ids] ids t1(1) IH(1))
  next
    case False
    then have "in_batch_match E X t r1 (req_ids r1) = Inr (False, t)" by (simp add: in_batch_match_def)
    moreover from Cons.IH [OF k(1) Cons.prems(2,3)] obtain q1 s2 t2 where
      "prefix_matches_loop E X ops s1 t rs = Inr (put_off X ahead q1, q1, s2, t2)" "sim_tree t2" by blast
    ultimately show ?thesis using False by (intro exI [of _ "r1 # q1"]) (simp add: Let_def m [unfolded ids] ids)
  qed
qed

end

lemma new_policy_setup:
  assumes "new_schedule_policy E ops s name prio low = Inr sp"
  shows "sim_setup (waiting_queue_radix_tree sp)"
proof -
  obtain t where t: "create_simulated E = Inr t" "waiting_queue_radix_tree sp = t"
    using assms by (auto simp: new_schedule_policy_def rbind_eq_Inr)
  have "kv_inv (TokenAlloc (token_init 0 False))" "kv_page_size (TokenAlloc (token_init 0 False)) = 1"
    by (auto simp: kv_defs token_inv_def base_inv_def token_init_def token_clear_def torch_arange_def)
  moreover obtain strat where "t = reset E
      \<lparr>disable = False, cache_page_size = 1, is_eagle = False, disable_finished_insert = False, eviction_strategy = strat,
       kv_events = \<lparr>enabled = False, ev_page_size = 1, queue = []\<rparr>, nodes = Map.empty, counter = 0, clock = 0, root_node = 0,
       evictable_size = 0, protected_size = 0, evictable_leaves = {}, req_to_token = [], kv_pool = TokenAlloc (token_init 0 False)\<rparr>"
    using t(1) by (auto simp: create_simulated_def new_radix_cache_def rbind_eq_Inr)
  ultimately show ?thesis unfolding t(2) by (simp add: sim_setup_def reset_nodes record_all_cleared_def)
qed

section \<open>Properties\<close>

definition demo_lpm_env :: sched_env where
  "demo_lpm_env = demo_sched_env\<lparr>in_batch_deprioritize_threshold := 2\<rparr>"

definition demo_lpm :: schedule_policy where
  "demo_lpm =
     \<lparr>sp_policy = LPM, sp_enable_priority = False, sp_priority_sign = 1,
      waiting_queue_radix_tree = (case create_simulated demo_env of Inr t \<Rightarrow> t | Inl _ \<Rightarrow> demo_cache)\<rparr>"



end
