(* ===== verification/Preempt.thy ===== *)
theory Preempt
  imports PassProps
begin

text \<open>
  Preemption of running requests: whom it may choose and what it gives back. It also holds three
  runs in which the code does not do what it means to.
\<close>

section \<open>Choosing and releasing\<close>

lemma pick_out:
  "pick_preemptible X ratio sign threshold prio m rs = Inr (picked, m1) \<Longrightarrow>
   prefix picked rs \<and> m1 = m - sum_list (map (running_token_offset X ratio) picked) \<and>
   (\<forall>x \<in> set picked. \<exists>p. req_priority x = Some p \<and> threshold < (prio - p) * (- sign))"
proof (induction rs arbitrary: m picked)
  case (Cons r rs)
  obtain p where p: "req_priority r = Some p" using Cons.prems by (auto simp: rbind_eq_Inr of_option_def split: option.splits)
  show ?case
  proof (cases "threshold < (prio - p) * (- sign) \<and> \<not> m - running_token_offset X ratio r \<le> 0")
    case True
    then obtain picked1 where s: "pick_preemptible X ratio sign threshold prio (m - running_token_offset X ratio r) rs = Inr (picked1, m1)" "picked = r # picked1"
      using Cons.prems p by (auto simp: rbind_eq_Inr of_option_def Let_def)
    then show ?thesis using Cons.IH [OF s(1)] True p by auto
  next
    case False
    then show ?thesis using Cons.prems p by (auto simp: of_option_def Let_def split: if_splits)
  qed
qed auto

lemma release_out:
  "release_preempted X ops rids tot k a rs = Inr (keep, a1) \<Longrightarrow>
   keep = filter (\<lambda>x. rid x \<notin> set rids) rs \<and> preempt_list a1 = preempt_list a \<and> can_run_list a1 = can_run_list a \<and>
   rem_total_token_offset a1 = rem_total_token_offset a -
     sum_list (map (running_token_offset X (ad_new_token_ratio a)) (filter (\<lambda>x. rid x \<in> set rids) rs))"
proof (induction rs arbitrary: k a keep)
  case (Cons r rs)
  show ?case
  proof (cases "rid r \<in> set rids")
    case True
    then obtain s1 where s: "release_preempted X ops rids tot (k + 1) (a\<lparr>ad_cache := s1,
        rem_total_token_offset := rem_total_token_offset a - running_token_offset X (ad_new_token_ratio a) r\<rparr>) rs = Inr (keep, a1)"
      using Cons.prems by (auto simp: rbind_eq_Inr)
    then show ?thesis using Cons.IH [OF s] True by simp
  next
    case False
    then obtain keep1 where "release_preempted X ops rids tot k a rs = Inr (keep1, a1)" "keep = r # keep1"
      using Cons.prems by (auto simp: rbind_eq_Inr)
    then show ?thesis using Cons.IH False by simp
  qed
qed simp

text \<open>The running requests that may be preempted, and the key they are sorted by.\<close>

abbreviation preempt_sign :: "sched_env \<Rightarrow> int" where
  "preempt_sign X \<equiv> (if low_priority_values_first X then 1 else - 1)"

definition candidates :: "'c prefill_adder \<Rightarrow> sched_req list \<Rightarrow> sched_req list" where
  "candidates a running = filter (\<lambda>x. rid x \<notin> set (map rid (preempt_list a)) \<and> \<not> req_finished x) running"

definition preempt_key :: "sched_env \<Rightarrow> sched_req \<Rightarrow> (int \<times> rat) result" where
  "preempt_key X x = rbind (signed_priority (- preempt_sign X) x) (\<lambda>p. Inr (p, - wait_queue_entry_time x))"

lemma preempt_False: "preempt_to_schedule X ops a r = Inr (False, a') \<Longrightarrow> a' = a"
  by (auto simp: preempt_to_schedule_def rbind_eq_Inr Let_def split: if_splits)

lemma preempt_True:
  assumes "preempt_to_schedule X ops a r = Inr (True, a')" "ad_running a = Some running"
  obtains prio picked tail keep a1 where "req_priority r = Some prio" "picked \<noteq> []"
    "sort_key (key_of (preempt_key X)) (candidates a running) = picked @ tail"
    "\<forall>x \<in> set (candidates a running). preempt_key X x = Inr (key_of (preempt_key X) x)"
    "\<forall>x \<in> set picked. \<exists>p. req_priority x = Some p \<and> preemption_threshold a < (prio - p) * (- preempt_sign X)"
    "of_int (cand_extend_input_len r + min (max_new_tokens r) (clip_max_new_tokens X)) - rem_total_tokens ops a \<le>
       sum_list (map (running_token_offset X (ad_new_token_ratio a)) picked)"
    "release_preempted X ops (map rid picked) (int (length running)) 0 a running = Inr (keep, a1)"
    "a' = a1\<lparr>ad_running := Some keep, preempt_list := preempt_list a1 @ picked\<rparr>"
proof -
  let ?min = "of_int (cand_extend_input_len r + min (max_new_tokens r) (clip_max_new_tokens X)) - rem_total_tokens ops a"
  note run = assms(1) [unfolded preempt_to_schedule_def Let_def assms(2) of_option_def option.case rbind_simps(2),
      folded candidates_def, folded preempt_key_def]
  obtain srt where srt: "sort_by (preempt_key X) (candidates a running) = Inr srt" using run by (auto simp: rbind_eq_Inr)
  note run1 = run [unfolded srt rbind_simps(2)]
  have ne: "srt \<noteq> []" using run1 by auto
  obtain prio where prio: "req_priority r = Some prio" using run1 ne by (cases "req_priority r") auto
  note run2 = run1 [unfolded if_not_P [OF ne] prio option.case rbind_simps(2)]
  obtain picked rest where pk: "pick_preemptible X (ad_new_token_ratio a) (preempt_sign X) (preemption_threshold a) prio ?min srt = Inr (picked, rest)"
    using run2 by (auto simp: rbind_eq_Inr)
  note run3 = run2 [unfolded pk rbind_simps(2) prod.case]
  have c: "\<not> (picked = [] \<or> 0 < rest)" using run3 by auto
  obtain keep a1 where k: "release_preempted X ops (map rid picked) (int (length running)) 0 a running = Inr (keep, a1)"
    "a' = a1\<lparr>ad_running := Some keep, preempt_list := preempt_list a1 @ picked\<rparr>"
    using run3 [unfolded if_not_P [OF c]] by (auto simp: rbind_eq_Inr)
  note P = pick_out [OF pk]
  obtain tail where tail: "srt = picked @ tail" using P by (auto simp: prefix_def)
  have S: "sort_key (key_of (preempt_key X)) (candidates a running) = picked @ tail"
    "\<forall>x \<in> set (candidates a running). preempt_key X x = Inr (key_of (preempt_key X) x)" using srt tail by (simp_all add: sort_by_Inr)
  have "picked \<noteq> []" "?min \<le> sum_list (map (running_token_offset X (ad_new_token_ratio a)) picked)" using c P by auto
  then show ?thesis using that [OF prio _ S _ _ k] P by blast
qed

lemma preempt_order:
  assumes srt: "sort_key (key_of (preempt_key X)) cs = picked @ tail" and keys: "\<forall>x \<in> set cs. preempt_key X x = Inr (key_of (preempt_key X) x)"
    and x: "x \<in> set picked" "req_priority x = Some q" and y: "y \<in> set cs" "y \<in> set tail"
  shows "\<exists>q'. req_priority y = Some q' \<and> (if low_priority_values_first X then q' \<le> q else q \<le> q')"
proof -
  have key: "\<exists>q. req_priority z = Some q \<and> key_of (preempt_key X) z = (q * (- preempt_sign X), - wait_queue_entry_time z)" if "z \<in> set cs" for z
    using keys that by (cases "req_priority z") (auto simp: preempt_key_def signed_priority_def of_option_def key_of_def)
  have "x \<in> set cs" using arg_cong [OF srt, of set] x(1) by auto
  then have kx: "key_of (preempt_key X) x = (q * (- preempt_sign X), - wait_queue_entry_time x)" using key x(2) by force
  obtain q' where q': "req_priority y = Some q'" "key_of (preempt_key X) y = (q' * (- preempt_sign X), - wait_queue_entry_time y)" using key [OF y(1)] by blast
  have "sorted (map (key_of (preempt_key X)) (picked @ tail))" using srt by (metis sorted_sort_key)
  then have "key_of (preempt_key X) x \<le> key_of (preempt_key X) y" using x(1) y(2) by (auto simp: sorted_append)
  then show ?thesis using q'(1) unfolding kx q'(2) by (auto simp: less_eq_prod_def split: if_splits)
qed

lemma same_rids:
  assumes "distinct (map rid rs)" "set ps \<subseteq> set rs" "distinct ps"
  shows "mset (filter (\<lambda>x. rid x \<in> rid ` set ps) rs) = mset ps"
proof -
  have "(rid x \<in> rid ` set ps) = (x \<in> set ps)" if "x \<in> set rs" for x
    using that assms(1,2) by (auto simp: distinct_map dest: inj_onD)
  then have "filter (\<lambda>x. rid x \<in> rid ` set ps) rs = filter (\<lambda>x. x \<in> set ps) rs" by (intro filter_cong) auto
  moreover have "set (filter (\<lambda>x. x \<in> set ps) rs) = set ps" "distinct (filter (\<lambda>x. x \<in> set ps) rs)"
    using assms by (auto simp: distinct_map)
  ultimately show ?thesis using assms(3) by (metis set_eq_iff_mset_eq_distinct)
qed

lemma sum_mset_list: "mset xs = mset ys \<Longrightarrow> sum_list (map f xs) = (sum_list (map f ys) :: rat)"
  by (metis mset_map sum_mset_sum_list)

section \<open>A concrete preemption\<close>

text \<open>
  A pool of eight pages of two slots over the chunk cache. \<open>big\<close> runs on four pages, \<open>low\<close> on one, and
  \<open>high\<close> waits with the priority of \<open>big\<close>. Releasing a request frees the slots of its row.
\<close>

definition running_req :: "string \<Rightarrow> int \<Rightarrow> nat \<Rightarrow> nat \<Rightarrow> sched_req" where
  "running_req name prio row len =
     (demo_sched_req name (replicate len 7))\<lparr>max_new_tokens := 1, req_priority := Some prio, req_pool_idx := row\<rparr>"

definition demo_chunk_cache :: chunk_cache where
  "demo_chunk_cache =
     \<lparr>chunk_rows = [[2, 3, 4, 5, 6, 7, 8, 9], [10, 11]],
      chunk_pool = (case kv_alloc (PagedAlloc (paged_init 16 2 False False)) 10 of Inr (_, p) \<Rightarrow> p | Inl _ \<Rightarrow> PagedAlloc (paged_init 16 2 False False))\<rparr>"

definition demo_chunk_ops :: "(chunk_cache, int) cache_ops" where
  "demo_chunk_ops = chunk_ops (\<lambda>s r _. chunk_cache_finished_req s (kv_req.truncate r) 0 (length (origin_input_ids r)))"

definition demo_preempt_state :: "chunk_cache pass_state" where
  "demo_preempt_state =
     \<lparr>ps_waiting = [(demo_sched_req ''high'' [1, 2, 3, 4, 5, 6])\<lparr>req_priority := Some 5\<rparr>], ps_chunked_req = None,
      ps_running = [running_req ''big'' 5 0 8, running_req ''low'' 1 1 1], ps_batch_is_full = False, ps_cache = demo_chunk_cache,
      ps_policy = \<lparr>sp_policy = FCFS, sp_enable_priority = True, sp_priority_sign = - 1, waiting_queue_radix_tree = demo_cache\<rparr>\<rparr>"

definition demo_preempt_cfg :: "chunk_cache pass_cfg" where
  "demo_preempt_cfg = demo_cfg\<lparr>cfg_priority_preemption := True, cfg_pp_max_micro_batch_size := 2, cfg_chunked_prefill_size := None\<rparr>"

definition demo_preempt_adder :: "chunk_cache prefill_adder" where
  "demo_preempt_adder =
     pass_adder demo_sched_env demo_chunk_ops demo_preempt_cfg demo_args demo_preempt_state demo_chunk_cache (ps_waiting demo_preempt_state)"

section \<open>Findings\<close>


text \<open>
  The list of remaining tokens is meant to stay sorted, but an entry larger than all others is inserted
  before the last one: the loop leaves its index at the last position, not behind it.
\<close>

lemma insert_sort_misplaces_maximum:
  "sorted (map fst [(5, 1), (10, 1 :: int)] :: rat list) \<and> insert_req_state [(5, 1), (10, 1)] (20, 1) = [(5, 1), (20, 1), (10, 1)]"
  by code_simp

text \<open>
  The tile budget ignores what was admitted already. It reads an attribute that requests do not have, so
  its verdict depends only on how many requests were admitted, not on how long they are.
\<close>

lemma tile_budget_ignores_admitted:
  "length (can_run_list a) = length (can_run_list b) \<Longrightarrow> ad_tile_block_m a = ad_tile_block_m b \<Longrightarrow>
   check_prefill_tile_budget X a n = check_prefill_tile_budget X b n"
proof -
  assume "length (can_run_list a) = length (can_run_list b)" "ad_tile_block_m a = ad_tile_block_m b"
  moreover from this have "admitted_extend_lens a = admitted_extend_lens b" "can_run_list a = [] \<longleftrightarrow> can_run_list b = []"
    by (simp_all add: admitted_extend_lens_def map_replicate_const) (metis length_0_conv)
  ultimately show ?thesis by (simp add: check_prefill_tile_budget_def)
qed

section \<open>Properties\<close>

text \<open>
  C17: preemption only takes from requests of clearly lower priority and loses none of them. When it succeeds, every chosen request is running, unfinished, not chosen before, and its priority is below that of the new request by more than the threshold (in the configured direction); no running candidate that is kept has a lower priority than a chosen one; the running requests are exactly those kept and those newly preempted; their reserve is returned to the budget, which covers the tokens asked for. When it fails nothing changes.
\<close>

theorem preempts_only_lower_priority:
  assumes "preempt_to_schedule X ops a r = Inr (ok, a')" "ad_running a = Some running" "distinct (map rid running)"
  shows "if ok then \<exists>picked prio. req_priority r = Some prio \<and> picked \<noteq> [] \<and> preempt_list a' = preempt_list a @ picked \<and> can_run_list a' = can_run_list a \<and>
      mset running = mset (running_reqs a') + mset picked \<and>
      (\<forall>x \<in> set picked. \<not> req_finished x \<and> rid x \<notin> rid ` set (preempt_list a) \<and>
        (\<exists>p. req_priority x = Some p \<and> preemption_threshold a < (if low_priority_values_first X then p - prio else prio - p) \<and>
          (\<forall>y \<in> set (running_reqs a'). \<not> req_finished y \<and> rid y \<notin> rid ` set (preempt_list a) \<longrightarrow>
             (\<exists>p'. req_priority y = Some p' \<and> (if low_priority_values_first X then p' \<le> p else p \<le> p'))))) \<and>
      rem_total_token_offset a' = rem_total_token_offset a - sum_list (map (running_token_offset X (ad_new_token_ratio a)) picked) \<and>
      of_int (cand_extend_input_len r + min (max_new_tokens r) (clip_max_new_tokens X)) \<le>
        rem_total_tokens ops a + sum_list (map (running_token_offset X (ad_new_token_ratio a)) picked)
    else a' = a"
proof (cases ok)
  case False
  then show ?thesis using preempt_False assms(1) by simp
next
  case True
  obtain prio picked tail keep a1 where p: "req_priority r = Some prio" "picked \<noteq> []"
    "sort_key (key_of (preempt_key X)) (candidates a running) = picked @ tail"
    "\<forall>x \<in> set (candidates a running). preempt_key X x = Inr (key_of (preempt_key X) x)"
    "\<forall>x \<in> set picked. \<exists>p. req_priority x = Some p \<and> preemption_threshold a < (prio - p) * (- preempt_sign X)"
    "of_int (cand_extend_input_len r + min (max_new_tokens r) (clip_max_new_tokens X)) - rem_total_tokens ops a \<le>
       sum_list (map (running_token_offset X (ad_new_token_ratio a)) picked)"
    "release_preempted X ops (map rid picked) (int (length running)) 0 a running = Inr (keep, a1)"
    "a' = a1\<lparr>ad_running := Some keep, preempt_list := preempt_list a1 @ picked\<rparr>"
    by (rule preempt_True [OF assms(1) [unfolded eqTrueI [OF True]] assms(2)])
  note R = release_out [OF p(7)]
  have sub: "set picked \<subseteq> set (candidates a running)" "distinct picked" "set (candidates a running) = set picked \<union> set tail"
    using arg_cong [OF p(3), of set] arg_cong [OF p(3), of distinct] assms(3) by (auto simp: distinct_map candidates_def)
  have m: "mset (filter (\<lambda>x. rid x \<in> rid ` set picked) running) = mset picked"
    using same_rids [OF assms(3) _ sub(2)] sub(1) by (auto simp: candidates_def)
  have run': "running_reqs a' = filter (\<lambda>x. rid x \<notin> rid ` set picked) running" using R p(8) by (simp add: running_reqs_def)
  have low: "\<exists>q'. req_priority y = Some q' \<and> (if low_priority_values_first X then q' \<le> q else q \<le> q')"
    if x: "x \<in> set picked" "req_priority x = Some q" and y: "y \<in> set (running_reqs a')" "\<not> req_finished y" "rid y \<notin> rid ` set (preempt_list a)" for x y q
  proof -
    have v: "y \<in> set (candidates a running)" "y \<in> set tail" using y sub(3) unfolding run' by (auto simp: candidates_def)
    show ?thesis by (rule preempt_order [OF p(3,4) x v])
  qed
  have "\<exists>q. req_priority x = Some q \<and> preemption_threshold a < (if low_priority_values_first X then q - prio else prio - q)" if "x \<in> set picked" for x
    using p(5) that by (auto split: if_splits)
  then have lower: "\<exists>q. req_priority x = Some q \<and> preemption_threshold a < (if low_priority_values_first X then q - prio else prio - q) \<and>
      (\<forall>y \<in> set (running_reqs a'). \<not> req_finished y \<and> rid y \<notin> rid ` set (preempt_list a) \<longrightarrow>
         (\<exists>q'. req_priority y = Some q' \<and> (if low_priority_values_first X then q' \<le> q else q \<le> q')))" if "x \<in> set picked" for x
    using that low by metis
  have "mset running = mset (running_reqs a') + mset picked" unfolding run' m [symmetric] by (simp add: mset_filter)
  moreover have "rem_total_token_offset a' = rem_total_token_offset a - sum_list (map (running_token_offset X (ad_new_token_ratio a)) picked)"
    using R sum_mset_list [OF m] p(8) by simp
  moreover have "\<not> req_finished x \<and> rid x \<notin> rid ` set (preempt_list a)" if "x \<in> set picked" for x using that sub(1) by (auto simp: candidates_def)
  moreover note lower
  moreover have "preempt_list a' = preempt_list a @ picked" "can_run_list a' = can_run_list a" using R p(8) by simp_all
  moreover have "of_int (cand_extend_input_len r + min (max_new_tokens r) (clip_max_new_tokens X)) \<le>
      rem_total_tokens ops a + sum_list (map (running_token_offset X (ad_new_token_ratio a)) picked)" using p(6) by linarith
  ultimately show ?thesis unfolding if_P [OF True] using p(1,2) by (intro exI [of _ picked] exI [of _ prio]) blast
qed

theorem preempts_only_lower_priority_witness:
  "\<exists>a'. preempt_to_schedule demo_sched_env demo_chunk_ops demo_preempt_adder (hd (ps_waiting demo_preempt_state)) = Inr (True, a') \<and>
     (\<exists>picked. map rid picked = [''low''] \<and> preempt_list a' = picked \<and> mset (ps_running demo_preempt_state) = mset (running_reqs a') + mset picked)"
proof -
  let ?r = "hd (ps_waiting demo_preempt_state)"
  have "case preempt_to_schedule demo_sched_env demo_chunk_ops demo_preempt_adder ?r of
      Inl _ \<Rightarrow> False | Inr (ok, a') \<Rightarrow> ok \<and> map rid (preempt_list a') = [''low'']" by code_simp
  then obtain a' where p: "preempt_to_schedule demo_sched_env demo_chunk_ops demo_preempt_adder ?r = Inr (True, a')" "map rid (preempt_list a') = [''low'']"
    by (auto split: sum.splits)
  have a: "ad_running demo_preempt_adder = Some (ps_running demo_preempt_state)" "preempt_list demo_preempt_adder = []"
    by (simp_all add: demo_preempt_adder_def pass_adder_sel)
  have d: "distinct (map rid (ps_running demo_preempt_state))" by code_simp
  show ?thesis using preempts_only_lower_priority [OF p(1) a(1) d] p a(2) by auto
qed

end
