(* ===== verification/LoraDrainer.thy ===== *)
theory LoraDrainer
  imports PassProps "HOL-Library.AList" "HOL-Library.Option_ord"
begin

text \<open>
  \<open>LoRADrainer\<close> of \<open>lora/lora_drainer.py\<close> and \<open>validate_lora_batch\<close> of \<open>lora/lora_manager.py\<close>: which
  adapters a batch may use, and how adapters that run are drained to make room for adapters that
  starve. An adapter is \<open>lora_id\<close>, with \<open>None\<close> for requests to the base model. Python iterates over a
  set in an order it does not specify, which is the argument \<open>order\<close>; \<open>now_at\<close> is \<open>time.monotonic\<close>, read
  once per waiting request. The dictionary is an association list in the order of insertion.
\<close>

type_synonym adapter = "string option"

section \<open>Statistics\<close>

record adapter_stats =
  num_waiting_reqs :: int
  max_wait_time_secs :: rat
  max_remaining_tokens :: int
  is_draining_for :: adapter

definition new_adapter_stats :: adapter_stats where
  "new_adapter_stats = \<lparr>num_waiting_reqs = 0, max_wait_time_secs = 0, max_remaining_tokens = 0, is_draining_for = None\<rparr>"

definition reset_stats :: "adapter_stats \<Rightarrow> adapter_stats" where
  "reset_stats st = st\<lparr>num_waiting_reqs := 0, max_wait_time_secs := 0, max_remaining_tokens := 0\<rparr>"

definition is_starving :: "rat \<Rightarrow> adapter_stats \<Rightarrow> bool" where
  "is_starving drain_wait_threshold st \<longleftrightarrow> max_wait_time_secs st > drain_wait_threshold \<and> num_waiting_reqs st > 0"

record lora_drainer =
  max_loras_per_batch :: nat
  drain_wait_secs :: rat
  adapter_to_stats :: "(adapter \<times> adapter_stats) list"

text \<open>Reading a \<open>defaultdict\<close>, and changing an entry in place.\<close>

definition stats_of :: "(adapter \<times> adapter_stats) list \<Rightarrow> adapter \<Rightarrow> adapter_stats" where
  "stats_of d x = (case map_of d x of Some st \<Rightarrow> st | None \<Rightarrow> new_adapter_stats)"

definition change_stats :: "adapter \<Rightarrow> (adapter_stats \<Rightarrow> adapter_stats) \<Rightarrow> (adapter \<times> adapter_stats) list \<Rightarrow> (adapter \<times> adapter_stats) list" where
  "change_stats x f d = AList.update x (f (stats_of d x)) d"

definition count_waiting :: "rat \<Rightarrow> sched_req \<Rightarrow> adapter_stats \<Rightarrow> adapter_stats" where
  "count_waiting now r st =
     st\<lparr>num_waiting_reqs := num_waiting_reqs st + 1,
        max_wait_time_secs := max (max_wait_time_secs st) (now - wait_queue_entry_time r)\<rparr>"

definition count_running :: "sched_req \<Rightarrow> adapter_stats \<Rightarrow> adapter_stats" where
  "count_running r st =
     st\<lparr>max_remaining_tokens := max (max_remaining_tokens st) (max_new_tokens r - int (length (output_ids r)))\<rparr>"

definition update_adapter_stats ::
  "(nat \<Rightarrow> rat) \<Rightarrow> sched_req list \<Rightarrow> sched_req list \<Rightarrow> (adapter \<times> adapter_stats) list \<Rightarrow> (adapter \<times> adapter_stats) list" where
  "update_adapter_stats now_at waiting running d =
     (let d1 = map (\<lambda>(x, st). (x, reset_stats st)) d;
          d2 = fold (\<lambda>(i, r). change_stats (lora_id r) (count_waiting (now_at i) r)) (enumerate 0 waiting) d1
      in fold (\<lambda>r. change_stats (lora_id r) (count_running r)) running d2)"

section \<open>Draining\<close>

text \<open>\<open>min(xs, key=f)\<close>: the first of the smallest.\<close>

fun min_by :: "('a \<Rightarrow> int) \<Rightarrow> 'a \<Rightarrow> 'a list \<Rightarrow> 'a" where
  "min_by f x [] = x"
| "min_by f x (y # ys) = min_by f (if f y < f x then y else x) ys"

text \<open>Every starving adapter gets the eligible adapter with the least work left, while there are any.\<close>

fun mark_draining :: "adapter list \<Rightarrow> adapter list \<Rightarrow> (adapter \<times> adapter_stats) list \<Rightarrow> (adapter \<times> adapter_stats) list" where
  "mark_draining [] eligible d = d"
| "mark_draining (starving # rest) [] d = d"
| "mark_draining (starving # rest) (x # xs) d =
     (let m = min_by (\<lambda>y. max_remaining_tokens (stats_of d y)) x xs
      in mark_draining rest (remove1 m (x # xs)) (change_stats m (\<lambda>st. st\<lparr>is_draining_for := starving\<rparr>) d))"

definition update_draining_loras ::
  "(adapter set \<Rightarrow> adapter list) \<Rightarrow> lora_drainer \<Rightarrow> sched_req list \<Rightarrow> (adapter \<times> adapter_stats) list \<Rightarrow> (adapter \<times> adapter_stats) list" where
  "update_draining_loras order D running d =
     (let running_ids = lora_id ` set running
      in if card running_ids < max_loras_per_batch D then d
         else
           let starving = fst ` set (filter (\<lambda>(x, st). is_starving (drain_wait_secs D) st) d);
               draining_for = (\<lambda>(x, st). is_draining_for st) ` set (filter (\<lambda>(x, st). is_draining_for st \<noteq> None) d);
               new_starving = starving - draining_for
           in if new_starving = {} then d
              else mark_draining (sort_key (\<lambda>x. - max_wait_time_secs (stats_of d x)) (order new_starving))
                     (order (Set.filter (\<lambda>x. is_draining_for (stats_of d x) = None) running_ids)) d)"

definition update_fully_drained_loras :: "sched_req list \<Rightarrow> (adapter \<times> adapter_stats) list \<Rightarrow> (adapter \<times> adapter_stats) list" where
  "update_fully_drained_loras running d =
     map (\<lambda>(x, st). (x, if is_draining_for st \<noteq> None \<and> x \<notin> lora_id ` set running then st\<lparr>is_draining_for := None\<rparr> else st)) d"

definition update_draining_state ::
  "(adapter set \<Rightarrow> adapter list) \<Rightarrow> (nat \<Rightarrow> rat) \<Rightarrow> sched_req list \<Rightarrow> sched_req list \<Rightarrow> lora_drainer \<Rightarrow> lora_drainer" where
  "update_draining_state order now_at waiting running D =
     D\<lparr>adapter_to_stats := update_fully_drained_loras running
         (update_draining_loras order D running (update_adapter_stats now_at waiting running (adapter_to_stats D)))\<rparr>"

text \<open>The tolerance of 1.2; an empty name counts as not draining. Reading enters the adapter into the dictionary.\<close>

definition can_schedule :: "lora_drainer \<Rightarrow> sched_req \<Rightarrow> bool \<times> lora_drainer" where
  "can_schedule D r =
     (let st = stats_of (adapter_to_stats D) (lora_id r);
          D1 = D\<lparr>adapter_to_stats := change_stats (lora_id r) id (adapter_to_stats D)\<rparr>
      in if is_draining_for st = None \<or> is_draining_for st = Some [] then (True, D1)
         else (of_int (max_new_tokens r) \<le> of_int (max_remaining_tokens st) * (6 / 5 :: rat), D1))"

section \<open>Adapters of a batch\<close>

definition validate_lora_batch :: "nat \<Rightarrow> nat \<Rightarrow> nat \<Rightarrow> (string \<Rightarrow> bool option) \<Rightarrow> adapter set \<Rightarrow> bool result" where
  "validate_lora_batch max_loras pool_max_loras num_pinned_loras pinned lora_ids =
     (if card lora_ids > max_loras then Inr False
      else if num_pinned_loras = 0 then Inr True
      else if \<exists>x \<in> lora_ids. x \<noteq> None \<and> pinned (the x) = None then Inl AssertionError
      else
        let pinned_in_batch = card (Set.filter (\<lambda>x. x \<noteq> None \<and> pinned (the x) = Some True) lora_ids)
        in rbind (assert_that (pinned_in_batch \<le> num_pinned_loras)) (\<lambda>_.
             Inr (int (card lora_ids) - int pinned_in_batch \<le> int pool_max_loras - int num_pinned_loras)))"

section \<open>Marks stay one to one\<close>

definition draining :: "(adapter \<times> adapter_stats) list \<Rightarrow> adapter \<Rightarrow> adapter" where
  "draining d x = is_draining_for (stats_of d x)"

definition one_to_one :: "(adapter \<times> adapter_stats) list \<Rightarrow> bool" where
  "one_to_one d \<longleftrightarrow> (\<forall>x y. draining d x \<noteq> None \<longrightarrow> draining d x = draining d y \<longrightarrow> x = y)"

lemma stats_of_change: "stats_of (change_stats x f d) y = (if y = x then f (stats_of d x) else stats_of d y)"
  by (simp add: stats_of_def change_stats_def update_conv')

lemma draining_change: "draining (change_stats x (\<lambda>st. st\<lparr>is_draining_for := v\<rparr>) d) = (draining d)(x := v)"
  by (rule ext) (simp add: draining_def stats_of_change)

lemma draining_keep: "(\<And>st. is_draining_for (f st) = is_draining_for st) \<Longrightarrow> draining (change_stats x f d) = draining d"
  by (rule ext) (simp add: draining_def stats_of_change)

lemma stats_of_map: "(\<And>x. f x new_adapter_stats = new_adapter_stats) \<Longrightarrow> stats_of (map (\<lambda>(x, st). (x, f x st)) d) y = f y (stats_of d y)"
  by (induction d) (auto simp: stats_of_def)

lemma draining_fold: "(\<And>r st. is_draining_for (f r st) = is_draining_for st) \<Longrightarrow> draining (fold (\<lambda>r. change_stats (g r) (f r)) rs d) = draining d"
  by (induction rs arbitrary: d) (simp_all add: draining_keep)

lemma stats_of_reset: "stats_of (map (\<lambda>(x, st). (x, reset_stats st)) d) y = reset_stats (stats_of d y)"
  by (rule stats_of_map [where f = "\<lambda>_. reset_stats"]) (simp add: reset_stats_def new_adapter_stats_def)

lemma draining_stats: "draining (update_adapter_stats now_at waiting running d) = draining d"
proof -
  have "draining (map (\<lambda>(x, st). (x, reset_stats st)) d) = draining d"
    by (rule ext) (simp add: draining_def stats_of_reset, simp add: reset_stats_def)
  then show ?thesis
    using draining_fold [where f = count_running and g = lora_id and rs = running]
      draining_fold [where f = "\<lambda>ir. count_waiting (now_at (fst ir)) (snd ir)" and g = "\<lambda>ir. lora_id (snd ir)" and rs = "enumerate 0 waiting"]
    by (simp add: update_adapter_stats_def Let_def case_prod_beta' count_running_def count_waiting_def)
qed

lemma min_by_in: "min_by f x xs \<in> set (x # xs)"
  by (induction xs arbitrary: x) (auto split: if_splits)

lemma update_one_to_one:
  assumes "\<forall>x y. f x \<noteq> None \<longrightarrow> f x = f y \<longrightarrow> x = y" "\<forall>x. f x \<noteq> None \<longrightarrow> f x \<noteq> s"
  shows "\<forall>x y. (f(m := s)) x \<noteq> None \<longrightarrow> (f(m := s)) x = (f(m := s)) y \<longrightarrow> x = y"
proof (intro allI impI)
  fix x y assume a: "(f(m := s)) x \<noteq> None" "(f(m := s)) x = (f(m := s)) y"
  show "x = y" using a assms by (cases "x = m"; cases "y = m") (simp_all, metis)
qed

text \<open>Marking gives each starving adapter at most one draining adapter and touches only eligible ones.\<close>

lemma mark_facts:
  assumes "distinct starving" "distinct eligible" "\<forall>x \<in> set eligible. draining d x = None"
    and "\<forall>x. draining d x \<noteq> None \<longrightarrow> draining d x \<notin> set starving" "one_to_one d"
  shows "one_to_one (mark_draining starving eligible d) \<and>
    (\<forall>x. draining (mark_draining starving eligible d) x \<noteq> draining d x \<longrightarrow> x \<in> set eligible \<and> draining (mark_draining starving eligible d) x \<in> set starving)"
  using assms
proof (induction starving eligible d rule: mark_draining.induct)
  case (3 s rest x xs d)
  let ?m = "min_by (\<lambda>y. max_remaining_tokens (stats_of d y)) x xs"
  let ?d = "change_stats ?m (\<lambda>st. st\<lparr>is_draining_for := s\<rparr>) d"
  have m: "?m \<in> set (x # xs)" by (rule min_by_in)
  have dr: "draining ?d = (draining d)(?m := s)" by (rule draining_change)
  have "distinct (remove1 ?m (x # xs))" using 3(3) by (rule distinct_remove1)
  moreover have "\<forall>y \<in> set (remove1 ?m (x # xs)). draining ?d y = None"
  proof
    fix y assume "y \<in> set (remove1 ?m (x # xs))"
    then have "y \<in> set (x # xs)" "y \<noteq> ?m" unfolding set_remove1_eq [OF 3(3)] by simp_all
    then show "draining ?d y = None" unfolding dr fun_upd_apply using 3(4) by (simp only: if_False)
  qed
  moreover have "\<forall>y. draining ?d y \<noteq> None \<longrightarrow> draining ?d y \<notin> set rest" unfolding dr using 3(2,5) by simp
  moreover have "one_to_one ?d" unfolding one_to_one_def dr by (rule update_one_to_one) (use 3(5,6) in \<open>simp_all add: one_to_one_def\<close>)
  ultimately have IH: "one_to_one (mark_draining rest (remove1 ?m (x # xs)) ?d)"
    "\<And>y. draining (mark_draining rest (remove1 ?m (x # xs)) ?d) y \<noteq> draining ?d y \<Longrightarrow>
        y \<in> set (remove1 ?m (x # xs)) \<and> draining (mark_draining rest (remove1 ?m (x # xs)) ?d) y \<in> set rest"
    using 3(1) [OF refl] 3(2) by (auto simp: Let_def)
  have "y \<in> set (x # xs) \<and> draining (mark_draining rest (remove1 ?m (x # xs)) ?d) y \<in> set (s # rest)"
    if "draining (mark_draining rest (remove1 ?m (x # xs)) ?d) y \<noteq> draining d y" for y
  proof (cases "draining (mark_draining rest (remove1 ?m (x # xs)) ?d) y = draining ?d y")
    case True
    then have "y = ?m" using that unfolding dr by (auto split: if_splits)
    then show ?thesis using True m unfolding dr by simp
  next
    case False
    note I = IH(2) [OF False]
    have "y \<in> set (x # xs)" using I set_remove1_subset [THEN subsetD] by fast
    then show ?thesis using I by simp
  qed
  then show ?case using IH(1) by (simp add: Let_def)
qed auto

text \<open>An adapter starves only if one of its requests has waited too long.\<close>

lemma waited_too_long:
  assumes "0 \<le> secs" "secs < max_wait_time_secs (stats_of (fold (\<lambda>(i, r). change_stats (lora_id r) (count_waiting (now_at i) r)) rs d) x)"
    and "max_wait_time_secs (stats_of d x) \<le> 0"
  shows "\<exists>(i, r) \<in> set rs. lora_id r = x \<and> secs < now_at i - wait_queue_entry_time r"
  using assms(2)
proof (induction rs rule: rev_induct)
  case Nil
  then show ?case using assms(1,3) by simp
next
  case (snoc ir rs)
  obtain i r where ir: "ir = (i, r)" by (cases ir)
  from snoc show ?case by (auto simp: ir stats_of_change count_waiting_def less_max_iff_disj split: if_splits)
qed

lemma fold_running_wait: "max_wait_time_secs (stats_of (fold (\<lambda>r. change_stats (lora_id r) (count_running r)) rs d) x) = max_wait_time_secs (stats_of d x)"
  by (induction rs arbitrary: d) (auto simp: stats_of_change count_running_def)

lemma starving_waits:
  assumes "0 \<le> secs" "is_starving secs (stats_of (update_adapter_stats now_at waiting running d) x)"
  shows "\<exists>i < length waiting. lora_id (waiting ! i) = x \<and> secs < now_at i - wait_queue_entry_time (waiting ! i)"
proof -
  let ?d = "map (\<lambda>(x, st). (x, reset_stats st)) d"
  have "secs < max_wait_time_secs (stats_of (fold (\<lambda>(i, r). change_stats (lora_id r) (count_waiting (now_at i) r)) (enumerate 0 waiting) ?d) x)"
    using assms(2) by (simp add: is_starving_def update_adapter_stats_def Let_def fold_running_wait)
  from waited_too_long [OF assms(1) this] have "\<exists>(i, r) \<in> set (enumerate 0 waiting). lora_id r = x \<and> secs < now_at i - wait_queue_entry_time r"
    by (simp add: stats_of_reset, simp add: reset_stats_def)
  then show ?thesis by (auto simp: in_set_enumerate_eq)
qed

lemma dict_fold: "distinct (map fst d) \<Longrightarrow> distinct (map fst (fold (\<lambda>z. change_stats (g z) (f z)) zs d))"
  by (induction zs arbitrary: d) (simp_all add: change_stats_def distinct_update)

lemma dict_stats: "distinct (map fst d) \<Longrightarrow> distinct (map fst (update_adapter_stats now_at waiting running d))"
  unfolding update_adapter_stats_def Let_def case_prod_beta' by (intro dict_fold) (simp add: comp_def case_prod_beta')

lemma dict_mark: "distinct (map fst d) \<Longrightarrow> distinct (map fst (mark_draining starving eligible d))"
  by (induction starving eligible d rule: mark_draining.induct) (simp_all add: Let_def change_stats_def distinct_update)

lemma stats_of_entry: "distinct (map fst d) \<Longrightarrow> (x, st) \<in> set d \<Longrightarrow> stats_of d x = st"
  by (simp add: stats_of_def)

lemma draining_entry: "draining d x \<noteq> None \<Longrightarrow> (x, stats_of d x) \<in> set d"
  by (auto simp: draining_def stats_of_def new_adapter_stats_def split: option.splits dest: map_of_SomeD)

definition set_order :: "(adapter set \<Rightarrow> adapter list) \<Rightarrow> bool" where
  "set_order order \<longleftrightarrow> (\<forall>S. finite S \<longrightarrow> set (order S) = S \<and> distinct (order S))"

lemma draining_loras_facts:
  assumes ord: "set_order order" and d: "distinct (map fst d)" "one_to_one d" and d': "d' = update_draining_loras order D running d"
  shows "distinct (map fst d') \<and> one_to_one d' \<and>
    (\<forall>x. draining d' x \<noteq> draining d x \<longrightarrow> draining d x = None \<and> x \<in> lora_id ` set running \<and>
      max_loras_per_batch D \<le> card (lora_id ` set running) \<and> is_starving (drain_wait_secs D) (stats_of d (draining d' x)))"
proof -
  let ?run = "lora_id ` set running"
  let ?st = "fst ` set (filter (\<lambda>(x, st). is_starving (drain_wait_secs D) st) d)"
  let ?for = "(\<lambda>(x, st). is_draining_for st) ` set (filter (\<lambda>(x, st). is_draining_for st \<noteq> None) d)"
  let ?el = "Set.filter (\<lambda>x. is_draining_for (stats_of d x) = None) ?run"
  let ?s = "sort_key (\<lambda>x. - max_wait_time_secs (stats_of d x)) (order (?st - ?for))"
  show ?thesis
  proof (cases "card ?run < max_loras_per_batch D \<or> ?st - ?for = {}")
    case True
    then have "d' = d" unfolding d' update_draining_loras_def Let_def by meson
    then show ?thesis using d by simp
  next
    case False
    then have e: "d' = mark_draining ?s (order ?el) d" unfolding d' update_draining_loras_def Let_def by meson
    have "finite (?st - ?for)" "finite ?el" by simp_all
    then have s: "set ?s = ?st - ?for" "distinct ?s" "set (order ?el) = ?el" "distinct (order ?el)" using ord by (simp_all add: set_order_def)
    have "\<forall>x \<in> set (order ?el). draining d x = None" unfolding s(3) by (simp add: draining_def)
    moreover have "\<forall>x. draining d x \<noteq> None \<longrightarrow> draining d x \<notin> set ?s"
    proof (intro allI impI)
      fix x assume n: "draining d x \<noteq> None"
      have "draining d x \<in> ?for"
        using draining_entry [OF n] n by (intro image_eqI [of _ _ "(x, stats_of d x)"]) (simp_all add: draining_def)
      then show "draining d x \<notin> set ?s" unfolding s(1) by blast
    qed
    ultimately have M: "one_to_one d'" "\<And>x. draining d' x \<noteq> draining d x \<Longrightarrow> x \<in> ?el \<and> draining d' x \<in> ?st - ?for"
      using mark_facts [OF s(2,4) _ _ d(2)] unfolding e [symmetric] s(1,3) by blast+
    have st: "is_starving (drain_wait_secs D) (stats_of d y)" if "y \<in> ?st" for y using that stats_of_entry [OF d(1)] by auto
    show ?thesis
    proof (intro conjI allI impI)
      show "distinct (map fst d')" unfolding e by (rule dict_mark [OF d(1)])
      show "one_to_one d'" by (rule M(1))
      show "max_loras_per_batch D \<le> card ?run" using False by (meson not_less)
      fix x assume n: "draining d' x \<noteq> draining d x"
      note m = M(2) [OF n]
      show "draining d x = None" "x \<in> ?run" using conjunct1 [OF m] by (simp_all add: draining_def)
      show "is_starving (drain_wait_secs D) (stats_of d (draining d' x))" using st m by blast
    qed
  qed
qed

lemma draining_drained: "draining (update_fully_drained_loras running d) x = (if x \<in> lora_id ` set running then draining d x else None)"
proof -
  let ?f = "\<lambda>x st. if is_draining_for st \<noteq> None \<and> x \<notin> lora_id ` set running then st\<lparr>is_draining_for := None\<rparr> else st"
  have "stats_of (map (\<lambda>(x, st). (x, ?f x st)) d) x = ?f x (stats_of d x)" by (rule stats_of_map) (simp add: new_adapter_stats_def)
  then show ?thesis by (simp add: draining_def update_fully_drained_loras_def)
qed

section \<open>A concrete drainer\<close>

definition demo_drainer :: lora_drainer where
  "demo_drainer = \<lparr>max_loras_per_batch = 1, drain_wait_secs = 5, adapter_to_stats = []\<rparr>"

definition demo_lora_req :: "adapter \<Rightarrow> sched_req" where
  "demo_lora_req x = (demo_sched_req ''a'' [7, 8])\<lparr>lora_id := x\<rparr>"

text \<open>
  A finding: requests to the base model (\<open>lora_id\<close> is \<open>None\<close>) take an adapter slot and can starve, but
  an adapter that is marked as draining for \<open>None\<close> is not marked at all. Here a base-model request has
  waited 100 seconds with a limit of 5 and the only slot taken, yet the running adapter goes on
  accepting requests of any length.
\<close>

lemma base_model_is_never_drained_for:
  "let D = update_draining_state sorted_list_of_set (\<lambda>_. 100) [demo_lora_req None] [demo_lora_req (Some ''x'')] demo_drainer
   in is_starving 5 (stats_of (adapter_to_stats D) None) \<and> validate_lora_batch 1 1 0 (\<lambda>_. None) {None, Some ''x''} = Inr False \<and>
      draining (adapter_to_stats D) (Some ''x'') = None \<and> fst (can_schedule D ((demo_lora_req (Some ''x''))\<lparr>max_new_tokens := 1000\<rparr>))"
  by code_simp

section \<open>Properties\<close>

text \<open>
  C18: the drainer marks adapters soundly. After every update, whatever the order in which sets are traversed: only adapters with running requests are marked, two marked adapters never drain for the same one, and an adapter that is newly marked was not draining before, the batch had no adapter slot left, and it drains for an adapter one of whose waiting requests has waited longer than the limit.
\<close>

theorem draining_is_justified:
  assumes "set_order order" "distinct (map fst (adapter_to_stats D))" "one_to_one (adapter_to_stats D)" "0 \<le> drain_wait_secs D"
    and "D' = update_draining_state order now_at waiting running D"
  shows "distinct (map fst (adapter_to_stats D')) \<and> one_to_one (adapter_to_stats D') \<and>
    (\<forall>x t. draining (adapter_to_stats D') x = Some t \<longrightarrow> x \<in> lora_id ` set running \<and>
      (draining (adapter_to_stats D) x = Some t \<or>
       draining (adapter_to_stats D) x = None \<and> max_loras_per_batch D \<le> card (lora_id ` set running) \<and>
       (\<exists>i < length waiting. lora_id (waiting ! i) = Some t \<and> drain_wait_secs D < now_at i - wait_queue_entry_time (waiting ! i))))"
proof -
  let ?d = "adapter_to_stats D" and ?d1 = "update_adapter_stats now_at waiting running (adapter_to_stats D)"
  let ?d2 = "update_draining_loras order D running ?d1"
  have e: "adapter_to_stats D' = update_fully_drained_loras running ?d2" using assms(5) by (simp add: update_draining_state_def)
  have one: "one_to_one ?d1" using assms(3) by (simp add: one_to_one_def draining_stats)
  note F = draining_loras_facts [OF assms(1) dict_stats [OF assms(2)] one refl, of D running]
  have "map fst (adapter_to_stats D') = map fst ?d2" by (simp add: e update_fully_drained_loras_def comp_def case_prod_beta')
  moreover have "one_to_one (adapter_to_stats D')" using F unfolding e one_to_one_def draining_drained by (metis (no_types, lifting))
  moreover have "x \<in> lora_id ` set running \<and> (draining ?d x = Some t \<or> draining ?d x = None \<and> max_loras_per_batch D \<le> card (lora_id ` set running) \<and>
       (\<exists>i < length waiting. lora_id (waiting ! i) = Some t \<and> drain_wait_secs D < now_at i - wait_queue_entry_time (waiting ! i)))"
    if t: "draining (adapter_to_stats D') x = Some t" for x t
  proof -
    have x: "x \<in> lora_id ` set running" "draining ?d2 x = Some t" using t unfolding e draining_drained by (auto split: if_splits)
    show ?thesis
    proof (cases "draining ?d2 x = draining ?d1 x")
      case True
      then show ?thesis using x by (simp add: draining_stats)
    next
      case False
      then have "draining ?d1 x = None" "max_loras_per_batch D \<le> card (lora_id ` set running)" "is_starving (drain_wait_secs D) (stats_of ?d1 (Some t))"
        using F x(2) by metis+
      then show ?thesis using x(1) starving_waits [OF assms(4)] by (simp add: draining_stats)
    qed
  qed
  ultimately show ?thesis using F by simp
qed

theorem draining_is_justified_witness:
  "\<exists>D'. D' = update_draining_state sorted_list_of_set (\<lambda>_. 100) [demo_lora_req (Some ''y'')] [demo_lora_req (Some ''x'')] demo_drainer \<and>
     draining (adapter_to_stats D') (Some ''x'') = Some ''y'' \<and> one_to_one (adapter_to_stats D')"
proof -
  let ?D = "update_draining_state sorted_list_of_set (\<lambda>_. 100) [demo_lora_req (Some ''y'')] [demo_lora_req (Some ''x'')] demo_drainer"
  have "draining (adapter_to_stats ?D) (Some ''x'') = Some ''y''" by code_simp
  moreover have "set_order sorted_list_of_set" "distinct (map fst (adapter_to_stats demo_drainer))" "one_to_one (adapter_to_stats demo_drainer)" "0 \<le> drain_wait_secs demo_drainer"
    by (simp_all add: set_order_def demo_drainer_def one_to_one_def draining_def stats_of_def new_adapter_stats_def)
  from draining_is_justified [OF this refl] have "one_to_one (adapter_to_stats ?D)" by blast
  ultimately show ?thesis by blast
qed

end
