(* ===== verification/RowPool.thy ===== *)
theory RowPool
  imports Prelude "HOL-Library.Multiset"
begin

text \<open>
  \<open>ReqToTokenPool\<close> of \<open>mem_cache/memory_pool.py\<close>: the rows of the table that maps a request to its
  slots. Row 0 is padding and never handed out. The optional auxiliary cache, which is told of freed
  rows, and the tensor of the table itself are left out.
\<close>

section \<open>The pool\<close>

text \<open>The part of a request the pool reads and writes: its row and the number of its slots.\<close>

record row_req =
  row_idx :: "nat option"
  row_allocated_len :: nat

record row_pool =
  row_pool_size :: nat
  free_slots :: "nat list"
  req_generation :: "nat list"

definition holds_kv :: "row_req \<Rightarrow> bool" where
  "holds_kv r \<longleftrightarrow> row_idx r \<noteq> None"

definition new_row_pool :: "nat \<Rightarrow> row_pool" where
  "new_row_pool n = \<lparr>row_pool_size = n, free_slots = [1..<n + 1], req_generation = replicate (n + 1) 0\<rparr>"

definition row_available_size :: "row_pool \<Rightarrow> nat" where
  "row_available_size p = length (free_slots p)"

definition bump_generation :: "nat list \<Rightarrow> nat list \<Rightarrow> nat list result" where
  "bump_generation gen rows =
     (if list_ex (\<lambda>i. i \<ge> length gen) rows then Inl IndexError
      else Inr (map (\<lambda>i. if i \<in> set rows then gen ! i + 1 else gen ! i) [0..<length gen]))"

definition alloc_rows :: "row_pool \<Rightarrow> nat \<Rightarrow> (nat list option \<times> row_pool) result" where
  "alloc_rows p need_size =
     (if need_size > length (free_slots p) then Inr (None, p)
      else if need_size = 0 then Inr (Some [], p)
      else
        let keep = length (free_slots p) - need_size;
            select_index = drop keep (free_slots p)
        in rbind (bump_generation (req_generation p) select_index) (\<lambda>gen.
             Inr (Some select_index, p\<lparr>free_slots := take keep (free_slots p), req_generation := gen\<rparr>)))"

fun bind_rows :: "nat list \<Rightarrow> row_req list \<Rightarrow> row_req list result" where
  "bind_rows rows [] = Inr []"
| "bind_rows rows (r # rs) =
     (if holds_kv r then rbind (bind_rows rows rs) (\<lambda>rs1. Inr (r # rs1))
      else case rows of
             [] \<Rightarrow> Inl IndexError
           | i # is \<Rightarrow> rbind (bind_rows is rs) (\<lambda>rs1. Inr (r\<lparr>row_idx := Some i\<rparr> # rs1)))"

definition row_alloc :: "row_pool \<Rightarrow> row_req list \<Rightarrow> (nat option list option \<times> row_req list \<times> row_pool) result" where
  "row_alloc p reqs =
     (let reusing = filter holds_kv reqs
      in rbind (assert_that (list_all (\<lambda>r. row_allocated_len r > 0) reusing)) (\<lambda>_.
         rbind (alloc_rows p (length reqs - length reusing)) (\<lambda>(select_index, p1).
           case select_index of
             None \<Rightarrow> Inr (None, reqs, p1)
           | Some rows \<Rightarrow> rbind (bind_rows rows reqs) (\<lambda>reqs1. Inr (Some (map row_idx reqs1), reqs1, p1)))))"

definition free_rows :: "row_pool \<Rightarrow> nat list \<Rightarrow> row_pool" where
  "free_rows p indices = p\<lparr>free_slots := free_slots p @ indices\<rparr>"

definition row_free :: "row_pool \<Rightarrow> row_req \<Rightarrow> (row_req \<times> row_pool) result" where
  "row_free p r =
     (case row_idx r of
        None \<Rightarrow> Inl AssertionError
      | Some i \<Rightarrow> Inr (r\<lparr>row_idx := None\<rparr>, free_rows p [i]))"

definition row_clear :: "row_pool \<Rightarrow> row_pool" where
  "row_clear p = p\<lparr>free_slots := [1..<row_pool_size p + 1], req_generation := replicate (length (req_generation p)) 0\<rparr>"

section \<open>Rows are never shared\<close>

definition rows_of :: "row_req list \<Rightarrow> nat list" where
  "rows_of reqs = List.map_filter row_idx reqs"

text \<open>
  The owners are the requests the scheduler knows. A step allocates rows for some of them (the
  others are \<open>rest\<close>), lets new requests arrive, drops or frees one, or clears the pool.
\<close>

inductive row_reachable :: "row_pool \<times> row_req list \<Rightarrow> bool" where
  rows_new: "row_reachable (new_row_pool n, [])"
| rows_arrive: "row_reachable (p, owners) \<Longrightarrow> \<not> holds_kv r \<Longrightarrow> row_reachable (p, r # owners)"
| rows_alloc: "row_reachable (p, owners) \<Longrightarrow> mset owners = mset (reqs @ rest) \<Longrightarrow>
    row_alloc p reqs = Inr (res, reqs', p') \<Longrightarrow> row_reachable (p', reqs' @ rest)"
| rows_grow: "row_reachable (p, owners) \<Longrightarrow> mset owners = mset (r # rest) \<Longrightarrow>
    row_reachable (p, r\<lparr>row_allocated_len := n\<rparr> # rest)"
| rows_free: "row_reachable (p, owners) \<Longrightarrow> mset owners = mset (r # rest) \<Longrightarrow>
    row_free p r = Inr (r', p') \<Longrightarrow> row_reachable (p', rest)"
| rows_clear: "row_reachable (p, owners) \<Longrightarrow> row_reachable (row_clear p, [])"

definition rows_ok :: "row_pool \<Rightarrow> row_req list \<Rightarrow> bool" where
  "rows_ok p owners \<longleftrightarrow>
     mset (free_slots p) + mset (rows_of owners) = mset [1..<row_pool_size p + 1] \<and> length (req_generation p) = row_pool_size p + 1"

lemma rows_of_simps [simp]:
  "rows_of [] = []" "rows_of (r # rs) = (case row_idx r of None \<Rightarrow> rows_of rs | Some i \<Rightarrow> i # rows_of rs)"
  "rows_of (xs @ ys) = rows_of xs @ rows_of ys"
  by (simp_all add: rows_of_def List.map_filter_def split: option.splits)

lemma rows_of_mset: "mset xs = mset ys \<Longrightarrow> mset (rows_of xs) = mset (rows_of ys)"
proof -
  have "mset (rows_of xs) = image_mset (\<lambda>r. the (row_idx r)) (filter_mset (\<lambda>r. row_idx r \<noteq> None) (mset xs))" for xs
    by (simp add: rows_of_def List.map_filter_def mset_filter comp_def)
  then show "mset xs = mset ys \<Longrightarrow> mset (rows_of xs) = mset (rows_of ys)" by simp
qed

lemma rows_ok_bounds:
  assumes "rows_ok p owners"
  shows "distinct (free_slots p @ rows_of owners)" "set (free_slots p) \<subseteq> {1..row_pool_size p}" "set (rows_of owners) \<subseteq> {1..row_pool_size p}"
proof -
  have m: "mset (free_slots p @ rows_of owners) = mset [1..<row_pool_size p + 1]" using assms by (simp add: rows_ok_def)
  show "distinct (free_slots p @ rows_of owners)" using mset_eq_imp_distinct_iff [OF m] by simp
  have "set (free_slots p @ rows_of owners) = set [1..<row_pool_size p + 1]" by (rule mset_eq_setD [OF m])
  moreover have "set [1..<row_pool_size p + 1] = {1..row_pool_size p}" by (simp add: atLeastLessThanSuc_atLeastAtMost del: upt_Suc)
  ultimately have "set (free_slots p) \<union> set (rows_of owners) = {1..row_pool_size p}" by (simp only: set_append)
  then show "set (free_slots p) \<subseteq> {1..row_pool_size p}" "set (rows_of owners) \<subseteq> {1..row_pool_size p}" by blast+
qed

lemma alloc_rows_facts:
  assumes "rows_ok p owners"
  obtains "length (free_slots p) < n" "alloc_rows p n = Inr (None, p)"
  | rows p' where "n \<le> length (free_slots p)" "alloc_rows p n = Inr (Some rows, p')" "length rows = n" "free_slots p = free_slots p' @ rows"
    "row_pool_size p' = row_pool_size p" "length (req_generation p') = length (req_generation p)"
    "\<forall>i \<le> row_pool_size p. req_generation p' ! i = req_generation p ! i + (if i \<in> set rows then 1 else 0)"
proof (cases "n > length (free_slots p) \<or> n = 0")
  case True
  then show ?thesis using that(1) that(2) [of "[]" p] by (auto simp: alloc_rows_def)
next
  case False
  let ?keep = "length (free_slots p) - n"
  let ?rows = "drop ?keep (free_slots p)"
  have g: "length (req_generation p) = row_pool_size p + 1" using assms by (simp add: rows_ok_def)
  have "i < length (req_generation p)" if "i \<in> set ?rows" for i
    using that rows_ok_bounds(2) [OF assms] g by (auto dest: in_set_dropD)
  then have b: "bump_generation (req_generation p) ?rows =
      Inr (map (\<lambda>i. if i \<in> set ?rows then req_generation p ! i + 1 else req_generation p ! i) [0..<length (req_generation p)])"
    by (simp add: bump_generation_def list_ex_iff not_le)
  show ?thesis
    using False b g by (intro that(2) [of ?rows "p\<lparr>free_slots := take ?keep (free_slots p),
      req_generation := map (\<lambda>i. if i \<in> set ?rows then req_generation p ! i + 1 else req_generation p ! i) [0..<length (req_generation p)]\<rparr>"])
      (auto simp: alloc_rows_def Let_def nth_append simp del: upt_Suc)
qed

lemma bind_rows_facts:
  "length rows = length (filter (\<lambda>r. \<not> holds_kv r) reqs) \<Longrightarrow>
   \<exists>reqs'. bind_rows rows reqs = Inr reqs' \<and> mset (rows_of reqs') = mset rows + mset (rows_of reqs) \<and> list_all holds_kv reqs' \<and>
     list_all2 (\<lambda>r r'. row_allocated_len r' = row_allocated_len r \<and> (holds_kv r \<longrightarrow> r' = r)) reqs reqs'"
proof (induction rows reqs rule: bind_rows.induct)
  case (2 rows r rs)
  show ?case
  proof (cases "holds_kv r")
    case True
    then have "length rows = length (filter (\<lambda>r. \<not> holds_kv r) rs)" using 2(3) by simp
    from 2(1) [OF True this] obtain rs1 where "bind_rows rows rs = Inr rs1" "mset (rows_of rs1) = mset rows + mset (rows_of rs)" "list_all holds_kv rs1"
      "list_all2 (\<lambda>r r'. row_allocated_len r' = row_allocated_len r \<and> (holds_kv r \<longrightarrow> r' = r)) rs rs1" by blast
    moreover obtain j where "row_idx r = Some j" using True by (auto simp: holds_kv_def)
    ultimately show ?thesis using True by simp
  next
    case False
    then obtain i js where i: "rows = i # js" "length js = length (filter (\<lambda>r. \<not> holds_kv r) rs)" using 2(3) by (cases rows) auto
    from 2(2) [OF False i] obtain rs1 where "bind_rows js rs = Inr rs1" "mset (rows_of rs1) = mset js + mset (rows_of rs)" "list_all holds_kv rs1"
      "list_all2 (\<lambda>r r'. row_allocated_len r' = row_allocated_len r \<and> (holds_kv r \<longrightarrow> r' = r)) rs rs1" by blast
    moreover have "row_idx r = None" "holds_kv (r\<lparr>row_idx := Some i\<rparr>)" using False by (simp_all add: holds_kv_def)
    ultimately show ?thesis using False i(1) by simp
  qed
qed simp

text \<open>Allocation: enough rows or nothing.\<close>

lemma row_alloc_facts:
  assumes ok: "rows_ok p owners" and own: "mset owners = mset (reqs @ rest)" and len: "\<forall>r \<in> set reqs. holds_kv r \<longrightarrow> row_allocated_len r > 0"
  shows "(length (free_slots p) < length (filter (\<lambda>r. \<not> holds_kv r) reqs) \<and> row_alloc p reqs = Inr (None, reqs, p)) \<or>
    (\<exists>new reqs' p'. row_alloc p reqs = Inr (Some (map row_idx reqs'), reqs', p') \<and> length new = length (filter (\<lambda>r. \<not> holds_kv r) reqs) \<and>
       mset (rows_of reqs') = mset new + mset (rows_of reqs) \<and> list_all holds_kv reqs' \<and>
       list_all2 (\<lambda>r r'. row_allocated_len r' = row_allocated_len r \<and> (holds_kv r \<longrightarrow> r' = r)) reqs reqs' \<and> rows_ok p' (reqs' @ rest) \<and>
       set new \<inter> set (rows_of owners) = {} \<and> row_pool_size p' = row_pool_size p \<and>
       (\<forall>i \<le> row_pool_size p. req_generation p' ! i = req_generation p ! i + (if i \<in> set new then 1 else 0)))"
proof -
  let ?n = "length (filter (\<lambda>r. \<not> holds_kv r) reqs)"
  have n: "length reqs - length (filter holds_kv reqs) = ?n" using sum_length_filter_compl [of holds_kv reqs] by simp
  have as: "list_all (\<lambda>r. row_allocated_len r > 0) (filter holds_kv reqs)" using len by (simp add: list_all_iff)
  from ok show ?thesis
  proof (cases rule: alloc_rows_facts [where n = ?n])
    case 1
    then show ?thesis using n as by (simp add: row_alloc_def assert_that_def Let_def)
  next
    case (2 rows p')
    obtain reqs' where b: "bind_rows rows reqs = Inr reqs'" "mset (rows_of reqs') = mset rows + mset (rows_of reqs)" "list_all holds_kv reqs'"
      "list_all2 (\<lambda>r r'. row_allocated_len r' = row_allocated_len r \<and> (holds_kv r \<longrightarrow> r' = r)) reqs reqs'"
      using bind_rows_facts [OF 2(3)] by blast
    have "mset (rows_of owners) = mset (rows_of reqs) + mset (rows_of rest)" using rows_of_mset [OF own] by simp
    then have "rows_ok p' (reqs' @ rest)" using ok 2(4-6) b(2) by (simp add: rows_ok_def ac_simps del: upt_Suc)
    moreover have "set rows \<inter> set (rows_of owners) = {}" using rows_ok_bounds(1) [OF ok] 2(4) by auto
    moreover have "row_alloc p reqs = Inr (Some (map row_idx reqs'), reqs', p')"
      using n as 2(2) b(1) by (simp add: row_alloc_def assert_that_def Let_def)
    ultimately show ?thesis using 2(3,5,7) b by blast
  qed
qed

lemma alloc_asserts:
  "row_alloc p reqs = Inr (res, reqs', p') \<Longrightarrow> \<forall>r \<in> set reqs. holds_kv r \<longrightarrow> row_allocated_len r > 0"
  by (auto simp: row_alloc_def assert_that_def Let_def list_all_iff split: if_splits)

lemma reachable_rows_ok: "row_reachable st \<Longrightarrow> rows_ok (fst st) (snd st)"
proof (induction rule: row_reachable.induct)
  case (rows_alloc p owners reqs rest res reqs' p')
  have ok: "rows_ok p owners" using rows_alloc.IH by simp
  from row_alloc_facts [OF ok rows_alloc.hyps(2) alloc_asserts [OF rows_alloc.hyps(3)]] show ?case
  proof (elim disjE exE conjE)
    assume "row_alloc p reqs = Inr (None, reqs, p)"
    then show ?thesis using rows_alloc.hyps(3) ok rows_of_mset [OF rows_alloc.hyps(2)] by (simp add: rows_ok_def)
  next
    fix reqs1 p1 assume "row_alloc p reqs = Inr (Some (map row_idx reqs1), reqs1, p1)" "rows_ok p1 (reqs1 @ rest)"
    then show ?thesis using rows_alloc.hyps(3) by simp
  qed
next
  case (rows_grow p owners r rest n)
  then show ?case using rows_of_mset [OF rows_grow.hyps(2)] by (simp add: rows_ok_def split: option.splits)
next
  case (rows_free p owners r rest r' p')
  then show ?case using rows_of_mset [OF rows_free.hyps(2)] by (auto simp: rows_ok_def row_free_def free_rows_def ac_simps split: option.splits)
next
  case (rows_arrive p owners r)
  then show ?case by (simp add: rows_ok_def holds_kv_def)
qed (simp_all add: rows_ok_def new_row_pool_def row_clear_def del: upt_Suc)

section \<open>Properties\<close>



end
