(* ===== verification/RatioTracker.thy ===== *)
theory RatioTracker
  imports SchedTypes
begin

text \<open>
  \<open>NewTokenRatioTracker\<close> of \<open>managers/scheduler_components/new_token_ratio_tracker.py\<close>: the share of the
  new tokens of running requests the scheduler reserves. It decays from an initial value to a floor
  and is raised again after a retraction. The environment variables are arguments, floats are
  rationals.
\<close>

record ratio_tracker =
  ratio_init :: rat
  ratio_min :: rat
  ratio_decay :: rat
  ratio_current :: rat

definition ratio_from_config :: "rat \<Rightarrow> rat \<Rightarrow> rat \<Rightarrow> int \<Rightarrow> ratio_tracker result" where
  "ratio_from_config init_ratio conservativeness min_factor decay_steps =
     (let i = min (init_ratio * conservativeness) 1;
          m = min (i * min_factor) 1
      in if decay_steps = 0 then Inl ZeroDivisionError
         else Inr \<lparr>ratio_init = i, ratio_min = m, ratio_decay = (i - m) / of_int decay_steps, ratio_current = i\<rparr>)"

definition decay_step :: "ratio_tracker \<Rightarrow> ratio_tracker" where
  "decay_step t = t\<lparr>ratio_current := max (ratio_current t - ratio_decay t) (ratio_min t)\<rparr>"

definition ratio_reset :: "ratio_tracker \<Rightarrow> ratio_tracker" where
  "ratio_reset t = t\<lparr>ratio_current := ratio_init t\<rparr>"

definition estimate_new_token_ratio_after_retract :: "int \<Rightarrow> sched_req list \<Rightarrow> rat result" where
  "estimate_new_token_ratio_after_retract retract_decode_steps reqs =
     (let total_decoded_tokens = sum_list (map (\<lambda>r. int (length (output_ids r))) reqs);
          total_max_new_tokens = sum_list (map max_new_tokens reqs)
      in if total_max_new_tokens + 1 = 0 then Inl ZeroDivisionError
         else Inr (min 1 (of_int (total_decoded_tokens + retract_decode_steps * int (length reqs)) / of_int (total_max_new_tokens + 1))))"

section \<open>The ratio stays in its range and reaches the floor\<close>

lemma decay_steps:
  "ratio_min ((decay_step ^^ k) t) = ratio_min t" "ratio_decay ((decay_step ^^ k) t) = ratio_decay t" "ratio_init ((decay_step ^^ k) t) = ratio_init t"
  by (induction k) (simp_all add: decay_step_def)

lemma decayed_ratio:
  assumes "0 \<le> ratio_decay t" "ratio_min t \<le> ratio_current t"
  shows "ratio_current ((decay_step ^^ k) t) = max (ratio_current t - of_nat k * ratio_decay t) (ratio_min t)"
proof (induction k)
  case (Suc k)
  have "ratio_current ((decay_step ^^ Suc k) t) = max (max (ratio_current t - of_nat k * ratio_decay t) (ratio_min t) - ratio_decay t) (ratio_min t)"
    using Suc.IH decay_steps [of k t] by (simp add: decay_step_def [of "(decay_step ^^ k) t"])
  then show ?case using assms(1) by (auto simp: max_def algebra_simps)
qed (use assms in simp)

lemma ratio_reaches_floor:
  assumes c: "ratio_from_config init_ratio conservativeness min_factor steps = Inr t" and pos: "0 < steps" "0 \<le> init_ratio * conservativeness" "0 \<le> min_factor" "min_factor \<le> 1"
  shows "0 \<le> ratio_min t" "ratio_min t \<le> ratio_current ((decay_step ^^ k) t)" "ratio_current ((decay_step ^^ k) t) \<le> ratio_init t" "ratio_init t \<le> 1"
    "ratio_current ((decay_step ^^ nat steps) t) = ratio_min t"
proof -
  let ?i = "min (init_ratio * conservativeness) 1"
  let ?m = "min (?i * min_factor) 1"
  have t: "t = \<lparr>ratio_init = ?i, ratio_min = ?m, ratio_decay = (?i - ?m) / of_int steps, ratio_current = ?i\<rparr>"
    using c pos(1) by (simp add: ratio_from_config_def Let_def)
  have i: "0 \<le> ?i" using pos(2) by simp
  have m: "0 \<le> ?m" "?m \<le> ?i"
    using mult_nonneg_nonneg [OF i pos(3)] mult_left_mono [OF pos(4) i] by (simp_all add: min_le_iff_disj)
  have d: "0 \<le> ratio_decay t" "ratio_min t \<le> ratio_current t" using m(2) pos(1) by (simp_all add: t)
  show "0 \<le> ratio_min t" "ratio_init t \<le> 1" using m(1) by (simp_all add: t)
  show "ratio_min t \<le> ratio_current ((decay_step ^^ k) t)" unfolding decayed_ratio [OF d] by simp
  have "0 \<le> of_nat k * ratio_decay t" using d(1) by simp
  moreover have "ratio_current t = ratio_init t" by (simp add: t)
  ultimately show "ratio_current ((decay_step ^^ k) t) \<le> ratio_init t" unfolding decayed_ratio [OF d] using d(2) by simp
  have "of_nat (nat steps) * ratio_decay t = ?i - ?m" using pos(1) by (simp add: t)
  then show "ratio_current ((decay_step ^^ nat steps) t) = ratio_min t" unfolding decayed_ratio [OF d] by (simp add: t)
qed

lemma retract_ratio_range:
  assumes "0 \<le> steps" "\<forall>r \<in> set reqs. 0 \<le> max_new_tokens r" "estimate_new_token_ratio_after_retract steps reqs = Inr x"
  shows "0 \<le> x" "x \<le> 1"
proof -
  have "0 \<le> sum_list (map max_new_tokens reqs)" "0 \<le> sum_list (map (\<lambda>r. int (length (output_ids r))) reqs)"
    using assms(2) by (auto intro!: sum_list_nonneg)
  then show "0 \<le> x" "x \<le> 1" using assms(1,3) by (auto simp: estimate_new_token_ratio_after_retract_def Let_def split: if_splits)
qed

end
