(* ===== verification/Spec2Isabelle.thy ===== *)
theory Spec2Isabelle
  imports AllocatorExtend InBatch Preempt LoraDrainer RowPool RatioTracker
begin

text \<open>
  A verification library for the memory management and the scheduling of the inference server under
  \<open>src/python/sglang/srt\<close>.

  \<^bold>\<open>The program.\<close> The server keeps the keys and values of every token it has computed in slots of a
  device pool. An \<^emph>\<open>allocator\<close> hands out slots, one by one or in pages. A \<^emph>\<open>radix cache\<close> maps prefixes of
  token sequences to slots so that requests with a common prefix share them; a request locks the path
  to the node it matched, and eviction returns unlocked leaves to the allocator. Cache events tell an
  external router which blocks are cached. The \<^emph>\<open>scheduler\<close> keeps a queue of waiting requests; in every
  pass it orders the queue by a policy, looks each request up in the cache, and admits requests into
  the next prefill batch while budgets for the pool, the chunk and the batch last. Around the pass,
  ranks negotiate a delay of prefills, running requests are preempted by priority, LoRA adapters are
  drained, and rows of the request table are handed out.

  \<^bold>\<open>Conventions.\<close> An operation that can raise returns \<open>py_error + 'a\<close> (\<open>result\<close>, with \<open>rbind\<close>); every raise and
  failed assertion of the source is a branch. State is passed explicitly in records with the fields of
  the classes. Tensors of indices are \<open>int list\<close>, dictionaries are association lists in the order of
  insertion, tree nodes live in a store \<open>nat \<rightharpoonup> tree_node\<close>, floats are rationals. What is not under
  \<open>src/\<close> or not specified by Python is an argument: the hash function, the clock and the order in which
  a set is traversed (\<open>cache_env\<close>, with \<open>hash_laws\<close> and \<open>order_laws\<close>), \<open>random.shuffle\<close>, the all-gather
  between ranks, the LoRA loader, the storage prefetch.

  \<^bold>\<open>Allocators\<close> (\<open>mem_cache/allocator/{base,token,paged}.py\<close>, \<open>kernels/ops/memory/allocator.py\<close>).
  \<open>Prelude\<close> has the result type, Python slices and tensor operations. \<open>PagedKernels\<close> models the two
  Triton kernels, one function per program instance, and the loop \<open>alloc_extend_naive\<close>. \<open>Allocator\<close> has
  the token and the paged allocator and their invariant: free, released and handed-out pages are a
  partition of the pool. \<open>AllocatorFree\<close> shows that freeing a row in segments releases each page once,
  \<open>AllocatorExtend\<close> that the kernel computes what the loop computes, that extended rows stay paged and
  that no two requests share a page.

  \<^bold>\<open>Radix cache\<close> (\<open>mem_cache/radix_cache.py\<close>, \<open>evict_policy.py\<close>, \<open>events.py\<close>, \<open>utils.py\<close>). \<open>RadixKey\<close> models
  keys (plain and bigram) and shows that galloping and bisection find the longest common prefix.
  \<open>TreeNode\<close>, \<open>KvEvents\<close> and \<open>RadixCache\<close> hold the definitions, one per method. \<open>RadixShape\<close>, \<open>RadixEdit\<close>,
  \<open>RadixAccount\<close> and \<open>KvEventFacts\<close> develop the abstract view: the store as a tree of units and slots,
  the books (evictable and protected sizes, leaves), the pages in the tree, and the replay of events.
  \<open>RadixInv\<close> combines them into \<open>cache_ok\<close>; \<open>RadixMatch\<close>, \<open>RadixInsert\<close>, \<open>RadixLock\<close>, \<open>RadixEvict\<close> and
  \<open>RadixEvictLoop\<close> show what each operation does to it. \<open>RadixSystem\<close> puts the operations into a step
  relation with the handles that are held and the blocks the router knows, and \<open>RadixProps\<close> states the
  properties of all reachable states: matches are the longest cached prefix, insertion refines a map
  of prefixes, locked prefixes survive eviction, eviction frees enough in the order of the policy,
  events mirror the tree. \<open>RadixRequest\<close> adds the two operations on whole requests and shows that a
  request that finishes, or hands its slots over while running, loses, doubles and shares no page.

  \<^bold>\<open>Scheduler\<close> (\<open>managers/schedule_policy.py\<close>, \<open>schedule_batch.py\<close>, \<open>scheduler.py\<close>, \<open>prefill_delayer.py\<close>,
  \<open>min_free_slots_delayer.py\<close>, \<open>dllm/mixin/req.py\<close>). \<open>SchedTypes\<close> has requests and the interface of the
  prefix cache, with the radix cache and the chunk cache as instances. \<open>PrefillDelayer\<close> models the
  negotiation of ranks and bounds the delay. \<open>SchedulePolicy\<close> orders the queue, \<open>PrefillAdder\<close> keeps the
  budgets and admits or preempts, \<open>RoundInput\<close> prepares a request, \<open>PrefillPass\<close> is the pass. The adder
  relies on the cache only through the locales \<open>lock_contract\<close> and \<open>prefix_contract\<close> of \<open>AdmitFacts\<close>
  (a lock on a live node succeeds and releasing it restores the sizes; a lookup returns a live node and
  keeps them), which are interpreted on the radix cache and on the chunk cache. \<open>PassFacts\<close> and
  \<open>PolicyFacts\<close> prove in these locales what the loop and the ordering do, and \<open>PassProps\<close> draws the
  conclusions for the radix cache: a pass never promises more than the pool has, keeps every request,
  and cuts off at most one. \<open>InBatch\<close> shows that the longest-prefix policy, which detects common
  prefixes with a simulated radix cache, equals its definition by pairwise comparison. \<open>Preempt\<close> shows
  whom preemption may choose.

  \<^bold>\<open>Smaller parts.\<close> \<open>LoraDrainer\<close> (\<open>lora/lora_drainer.py\<close>), \<open>RowPool\<close> (\<open>ReqToTokenPool\<close> of
  \<open>mem_cache/memory_pool.py\<close>) and \<open>RatioTracker\<close> (\<open>new_token_ratio_tracker.py\<close>), each with its invariant.

  \<^bold>\<open>Fuel.\<close> Loops over the tree take fuel, and running out is the error \<open>Diverges\<close>. Matching and insertion
  get the length of the key plus one, since every node they descend to consumes a unit of it. Locking,
  event hashes, sizes, eviction and the depth-first order get the number of nodes ever created plus
  one, which bounds the depth of the tree and the number of its nodes. The properties of matching,
  insertion, locking, eviction and of the request operations state that they return, so the fuel is
  enough in every reachable state.

  \<^bold>\<open>Hypotheses.\<close> The properties of a pass are stated for the configuration \<open>plain_cfg\<close> (no preemption, no
  storage prefetch), requests that have produced no output and hold no mamba state (\<open>plain_req\<close>), no
  diffusion model, and any policy but the depth-first one; preemption and the longest-prefix order have
  their own properties. The budget property is stated for passes without a chunked request in flight.

  \<^bold>\<open>Where the code does not do what it means to.\<close> \<open>Preempt\<close> and \<open>LoraDrainer\<close> prove four such runs:
  requests preempted in a pass that admits nothing are lost; an insertion into a sorted list misplaces
  its maximum; the tile budget ignores the lengths of admitted requests; adapters are never drained
  for requests to the base model.

  \<^bold>\<open>Not modelled.\<close> The sliding-window, mamba, hierarchical and native variants of the radix cache and the
  allocators over several pools are separate implementations; the scheduler reaches them through the
  interface of \<open>SchedTypes\<close>, whose branches for them are modelled in \<open>PrefillAdder\<close> but not covered by the
  contracts. Batch tensors, model execution, decoding, speculation, disaggregation, grammars, the
  receive loop and the front ends are device code or input and output around the parts above. Of the
  modelled classes, printing, logging, metrics and copies between device and host are left out.
\<close>

end
